theory Spec2Isabelle
  imports Main
begin

section \<open>Users, clocks and admission verdicts\<close>

text \<open>
  The repository holds five variants of one WhatsApp bot (\<^verbatim>\<open>src/app.ts\<close> and four
  unnamed earlier or later copies, called part\_000 to part\_003 here). Every variant
  keys its state by \<^verbatim>\<open>ctx.from\<close>, reads the wall clock with \<^verbatim>\<open>Date.now()\<close>
  (milliseconds, modelled as \<open>int\<close>) and keeps its state in module-level \<^verbatim>\<open>Map\<close>s
  (modelled as partial functions). A function that mutates a \<^verbatim>\<open>Map\<close> returns
  the updated map next to its result.
\<close>

type_synonym user_id = string

text \<open>
  The message handler reads the clock up to three times while it runs synchronously:
  in \<^verbatim>\<open>isUserBanned\<close>, in \<^verbatim>\<open>rateLimitUser\<close> and in \<^verbatim>\<open>banUser\<close>.
\<close>

record clock =
  at_check :: int
  at_limit :: int
  at_ban :: int

datatype verdict = Ignored | Banned | Admitted

subsection \<open>\<^verbatim>\<open>src/app.ts\<close>: counter with a 24 hour window, bans with expiry\<close>

definition MAX_MESSAGES_PER_DAY :: int where
  "MAX_MESSAGES_PER_DAY = 20"

definition BAN_DURATION :: int where
  "BAN_DURATION = 24 * 60 * 60 * 1000"

record userStats =
  count :: int
  firstMessageTime :: int

record app_maps =
  userMessageCount :: "user_id \<rightharpoonup> userStats"
  userBanList :: "user_id \<rightharpoonup> int"

text \<open>
  \<^verbatim>\<open>rateLimitUser\<close> (app.ts 18-33): the stored record, or a fresh one; the count is
  set to 1 when more than 24 hours have passed since \<^verbatim>\<open>firstMessageTime\<close> and is
  incremented otherwise; the record is stored; the result is \<^verbatim>\<open>count <= 20\<close>.
\<close>

definition rateLimitUser_app :: "int \<Rightarrow> user_id \<Rightarrow> app_maps \<Rightarrow> bool \<times> app_maps" where
  "rateLimitUser_app currentTime userId s =
     (let stats = (case userMessageCount s userId of
                     None \<Rightarrow> \<lparr>count = 0, firstMessageTime = currentTime\<rparr>
                   | Some st \<Rightarrow> st);
          stats' = (if currentTime - firstMessageTime stats > 24 * 60 * 60 * 1000
                    then \<lparr>count = 1, firstMessageTime = currentTime\<rparr>
                    else stats\<lparr>count := count stats + 1\<rparr>)
      in (count stats' \<le> MAX_MESSAGES_PER_DAY,
          s\<lparr>userMessageCount := (userMessageCount s)(userId \<mapsto> stats')\<rparr>))"

text \<open>\<^verbatim>\<open>banUser\<close> (app.ts 36-39).\<close>

definition banUser_app :: "int \<Rightarrow> user_id \<Rightarrow> int \<Rightarrow> app_maps \<Rightarrow> app_maps" where
  "banUser_app now userId duration s =
     s\<lparr>userBanList := (userBanList s)(userId \<mapsto> now + duration)\<rparr>"

text \<open>
  \<^verbatim>\<open>isUserBanned\<close> (app.ts 42-50). \<^verbatim>\<open>!banExpiry\<close> holds for a missing entry and
  for the number 0; the entry is deleted only when \<^verbatim>\<open>Date.now() > banExpiry\<close>.
\<close>

definition isUserBanned_app :: "int \<Rightarrow> user_id \<Rightarrow> app_maps \<Rightarrow> bool \<times> app_maps" where
  "isUserBanned_app now userId s =
     (case userBanList s userId of
        None \<Rightarrow> (False, s)
      | Some banExpiry \<Rightarrow>
          if banExpiry = 0 then (False, s)
          else if now > banExpiry
               then (False, s\<lparr>userBanList := (userBanList s)(userId := None)\<rparr>)
               else (True, s))"

text \<open>
  The admission prefix of \<^verbatim>\<open>welcomeFlow\<close> (app.ts 95-105): a banned user is
  ignored; a user over the limit is banned for \<^verbatim>\<open>BAN_DURATION\<close> and told so;
  everybody else goes on to the queue.
\<close>

definition admission_app :: "clock \<Rightarrow> user_id \<Rightarrow> app_maps \<Rightarrow> verdict \<times> app_maps" where
  "admission_app c userId s =
     (case isUserBanned_app (at_check c) userId s of
        (True, s1) \<Rightarrow> (Ignored, s1)
      | (False, s1) \<Rightarrow>
          (case rateLimitUser_app (at_limit c) userId s1 of
             (False, s2) \<Rightarrow> (Banned, banUser_app (at_ban c) userId BAN_DURATION s2)
           | (True, s2) \<Rightarrow> (Admitted, s2)))"

text \<open>A run of messages of one user through the admission prefix, oldest first.\<close>

fun admissions_app :: "clock list \<Rightarrow> user_id \<Rightarrow> app_maps \<Rightarrow> verdict list \<times> app_maps" where
  "admissions_app [] userId s = ([], s)"
| "admissions_app (c # cs) userId s =
     (case admission_app c userId s of
        (v, s1) \<Rightarrow> (case admissions_app cs userId s1 of (vs, s2) \<Rightarrow> (v # vs, s2)))"

subsection \<open>part\_000: counter without a window, bans that are never removed\<close>

definition MAX_MESSAGES_p0 :: int where
  "MAX_MESSAGES_p0 = 20"

definition BAN_DURATION_p0 :: int where
  "BAN_DURATION_p0 = 24 * 60 * 60 * 1000"

record p0_maps =
  userBans :: "user_id \<rightharpoonup> int"
  messageLimits :: "user_id \<rightharpoonup> int"

text \<open>
  \<^verbatim>\<open>isUserBanned\<close> (part\_000 22-28) reads the map and never writes it:
  \<^verbatim>\<open>banEnd && banEnd > Date.now()\<close>.
\<close>

definition isUserBanned_p0 :: "int \<Rightarrow> user_id \<Rightarrow> p0_maps \<Rightarrow> bool" where
  "isUserBanned_p0 now userId s =
     (case userBans s userId of
        None \<Rightarrow> False
      | Some banEnd \<Rightarrow> banEnd \<noteq> 0 \<and> banEnd > now)"

text \<open>\<^verbatim>\<open>banUser\<close> (part\_000 33-36) also deletes the user's counter.\<close>

definition banUser_p0 :: "int \<Rightarrow> user_id \<Rightarrow> p0_maps \<Rightarrow> p0_maps" where
  "banUser_p0 now userId s =
     s\<lparr>userBans := (userBans s)(userId \<mapsto> now + BAN_DURATION_p0),
       messageLimits := (messageLimits s)(userId := None)\<rparr>"

text \<open>
  \<^verbatim>\<open>rateLimitUser\<close> (part\_000 41-48): \<^verbatim>\<open>messageLimits.get(userId) || 0\<close>, denied
  without a write at the limit, incremented otherwise.
\<close>

definition rateLimitUser_p0 :: "user_id \<Rightarrow> p0_maps \<Rightarrow> bool \<times> p0_maps" where
  "rateLimitUser_p0 userId s =
     (let messageCount = (case messageLimits s userId of None \<Rightarrow> 0 | Some n \<Rightarrow> n)
      in if messageCount \<ge> MAX_MESSAGES_p0 then (False, s)
         else (True, s\<lparr>messageLimits := (messageLimits s)(userId \<mapsto> messageCount + 1)\<rparr>))"

definition admission_p0 :: "clock \<Rightarrow> user_id \<Rightarrow> p0_maps \<Rightarrow> verdict \<times> p0_maps" where
  "admission_p0 c userId s =
     (if isUserBanned_p0 (at_check c) userId s then (Ignored, s)
      else (case rateLimitUser_p0 userId s of
              (False, s1) \<Rightarrow> (Banned, banUser_p0 (at_ban c) userId s1)
            | (True, s1) \<Rightarrow> (Admitted, s1)))"

subsection \<open>part\_002: a counter that only grows, one hour bans\<close>

record p2_maps =
  userMessageCounts :: "user_id \<rightharpoonup> int"
  userBanList_p2 :: "user_id \<rightharpoonup> int"

text \<open>\<^verbatim>\<open>isUserBanned\<close> (part\_002 20-28), the same code as in app.ts.\<close>

definition isUserBanned_p2 :: "int \<Rightarrow> user_id \<Rightarrow> p2_maps \<Rightarrow> bool \<times> p2_maps" where
  "isUserBanned_p2 now userId s =
     (case userBanList_p2 s userId of
        None \<Rightarrow> (False, s)
      | Some banExpiry \<Rightarrow>
          if banExpiry = 0 then (False, s)
          else if now > banExpiry
               then (False, s\<lparr>userBanList_p2 := (userBanList_p2 s)(userId := None)\<rparr>)
               else (True, s))"

text \<open>\<^verbatim>\<open>banUser\<close> (part\_002 31-34).\<close>

definition banUser_p2 :: "int \<Rightarrow> user_id \<Rightarrow> int \<Rightarrow> p2_maps \<Rightarrow> p2_maps" where
  "banUser_p2 now userId duration s =
     s\<lparr>userBanList_p2 := (userBanList_p2 s)(userId \<mapsto> now + duration)\<rparr>"

text \<open>
  \<^verbatim>\<open>rateLimitUser\<close> (part\_002 37-46): \<^verbatim>\<open>(userMessageCounts.get(userId) ?? 0) + 1\<close>
  is stored on every call; the result is \<^verbatim>\<open>newCount <= 30\<close>. Counts are far below
  \<^verbatim>\<open>2^53\<close>, where the additions of JavaScript numbers are exact.
\<close>

definition rateLimitUser_p2 :: "user_id \<Rightarrow> p2_maps \<Rightarrow> bool \<times> p2_maps" where
  "rateLimitUser_p2 userId s =
     (let currentCount = (case userMessageCounts s userId of None \<Rightarrow> 0 | Some n \<Rightarrow> n);
          newCount = currentCount + 1
      in (\<not> newCount > 30,
          s\<lparr>userMessageCounts := (userMessageCounts s)(userId \<mapsto> newCount)\<rparr>))"

text \<open>The admission prefix of \<^verbatim>\<open>welcomeFlow\<close> (part\_002 90-100): one hour bans.\<close>

definition admission_p2 :: "clock \<Rightarrow> user_id \<Rightarrow> p2_maps \<Rightarrow> verdict \<times> p2_maps" where
  "admission_p2 c userId s =
     (case isUserBanned_p2 (at_check c) userId s of
        (True, s1) \<Rightarrow> (Ignored, s1)
      | (False, s1) \<Rightarrow>
          (case rateLimitUser_p2 userId s1 of
             (False, s2) \<Rightarrow> (Banned, banUser_p2 (at_ban c) userId (60 * 60 * 1000) s2)
           | (True, s2) \<Rightarrow> (Admitted, s2)))"

text \<open>
  Everything part\_002 can do to its two maps: the three functions, called for any user
  at any clock reading, and whole admissions.
\<close>

datatype p2_op =
    IsUserBanned user_id int
  | BanUser user_id int int
  | RateLimitUser user_id
  | Admission user_id clock

fun p2_apply :: "p2_op \<Rightarrow> p2_maps \<Rightarrow> p2_maps" where
  "p2_apply (IsUserBanned u now) s = snd (isUserBanned_p2 now u s)"
| "p2_apply (BanUser u now d) s = banUser_p2 now u d s"
| "p2_apply (RateLimitUser u) s = snd (rateLimitUser_p2 u s)"
| "p2_apply (Admission u c) s = snd (admission_p2 c u s)"

definition p2_run :: "p2_op list \<Rightarrow> p2_maps \<Rightarrow> p2_maps" where
  "p2_run ops s = foldl (\<lambda>s' op. p2_apply op s') s ops"

definition counter_p2 :: "p2_maps \<Rightarrow> user_id \<Rightarrow> int" where
  "counter_p2 s u = (case userMessageCounts s u of None \<Rightarrow> 0 | Some n \<Rightarrow> n)"

text \<open>A clock that shows the same millisecond at all three reads of one message.\<close>

definition day_clock :: "int \<Rightarrow> clock" where
  "day_clock t = \<lparr>at_check = t, at_limit = t, at_ban = t\<rparr>"

section \<open>part\_001: the bounded store\<close>

subsection \<open>A JavaScript \<^verbatim>\<open>Map\<close> with its insertion order\<close>

text \<open>
  \<^verbatim>\<open>SimpleLRUCache\<close> relies on the iteration order of \<^verbatim>\<open>Map\<close>: keys are visited
  in the order of their insertion, \<^verbatim>\<open>set\<close> on a present key keeps the key's place,
  and a deleted key that is set again goes to the end. The map is a list of pairs with
  distinct keys, oldest insertion first.
\<close>

type_synonym ('k, 'v) js_map = "('k \<times> 'v) list"

definition map_has :: "'k \<Rightarrow> ('k, 'v) js_map \<Rightarrow> bool" where
  "map_has k m = (map_of m k \<noteq> None)"

definition map_get :: "'k \<Rightarrow> ('k, 'v) js_map \<Rightarrow> 'v option" where
  "map_get k m = map_of m k"

definition map_delete :: "'k \<Rightarrow> ('k, 'v) js_map \<Rightarrow> ('k, 'v) js_map" where
  "map_delete k m = filter (\<lambda>kv. fst kv \<noteq> k) m"

definition map_set :: "'k \<Rightarrow> 'v \<Rightarrow> ('k, 'v) js_map \<Rightarrow> ('k, 'v) js_map" where
  "map_set k v m =
     (if map_has k m then map (\<lambda>kv. if fst kv = k then (k, v) else kv) m else m @ [(k, v)])"

subsection \<open>\<^verbatim>\<open>class SimpleLRUCache\<close> (part\_001 29-85)\<close>

record ('k, 'v) SimpleLRUCache =
  cache :: "('k, 'v) js_map"
  capacity :: int

definition SimpleLRUCache_new :: "int \<Rightarrow> ('k, 'v) SimpleLRUCache" where
  "SimpleLRUCache_new cap = \<lparr>cache = [], capacity = cap\<rparr>"

text \<open>\<^verbatim>\<open>get\<close>: a hit deletes the key and inserts it again, a miss changes nothing.\<close>

definition SimpleLRUCache_get ::
  "'k \<Rightarrow> ('k, 'v) SimpleLRUCache \<Rightarrow> 'v option \<times> ('k, 'v) SimpleLRUCache" where
  "SimpleLRUCache_get key c =
     (case map_get key (cache c) of
        None \<Rightarrow> (None, c)
      | Some val \<Rightarrow> (Some val, c\<lparr>cache := map_set key val (map_delete key (cache c))\<rparr>))"

text \<open>
  \<^verbatim>\<open>set\<close>: a present key is deleted first; otherwise, when \<^verbatim>\<open>size >= capacity\<close>,
  the first key of the iteration order is deleted (\<^verbatim>\<open>keys().next().value\<close> is
  \<^verbatim>\<open>undefined\<close> on an empty map, and deleting that is a no-op); then the pair is
  inserted.
\<close>

definition SimpleLRUCache_set ::
  "'k \<Rightarrow> 'v \<Rightarrow> ('k, 'v) SimpleLRUCache \<Rightarrow> ('k, 'v) SimpleLRUCache" where
  "SimpleLRUCache_set key val c =
     (let m = (if map_has key (cache c) then map_delete key (cache c)
               else if int (length (cache c)) \<ge> capacity c
                    then (case cache c of [] \<Rightarrow> [] | kv # _ \<Rightarrow> map_delete (fst kv) (cache c))
                    else cache c)
      in c\<lparr>cache := map_set key val m\<rparr>)"

definition SimpleLRUCache_has :: "'k \<Rightarrow> ('k, 'v) SimpleLRUCache \<Rightarrow> bool" where
  "SimpleLRUCache_has key c = map_has key (cache c)"

definition SimpleLRUCache_clear :: "('k, 'v) SimpleLRUCache \<Rightarrow> ('k, 'v) SimpleLRUCache" where
  "SimpleLRUCache_clear c = c\<lparr>cache := []\<rparr>"

text \<open>Sequences of the three operations the bot uses, applied from left to right.\<close>

datatype ('k, 'v) cache_op = Get 'k | Set 'k 'v | Has 'k

fun cache_apply :: "('k, 'v) cache_op \<Rightarrow> ('k, 'v) SimpleLRUCache \<Rightarrow> ('k, 'v) SimpleLRUCache" where
  "cache_apply (Get k) c = snd (SimpleLRUCache_get k c)"
| "cache_apply (Set k v) c = SimpleLRUCache_set k v c"
| "cache_apply (Has k) c = c"

definition cache_run ::
  "('k, 'v) cache_op list \<Rightarrow> ('k, 'v) SimpleLRUCache \<Rightarrow> ('k, 'v) SimpleLRUCache" where
  "cache_run ops c = foldl (\<lambda>c' op. cache_apply op c') c ops"

text \<open>
  Recency as the specification words it: \<^verbatim>\<open>get\<close> and \<^verbatim>\<open>set\<close> access their key,
  \<^verbatim>\<open>has\<close> does not. \<open>last_access ops k\<close> is the position (from 1) of the last
  operation of \<open>ops\<close> that accesses \<open>k\<close>, and 0 when there is none.
\<close>

fun accesses :: "('k, 'v) cache_op \<Rightarrow> 'k \<Rightarrow> bool" where
  "accesses (Get k') k = (k' = k)"
| "accesses (Set k' v) k = (k' = k)"
| "accesses (Has k') k = False"

definition last_access :: "('k, 'v) cache_op list \<Rightarrow> 'k \<Rightarrow> nat" where
  "last_access ops k = length (dropWhile (\<lambda>op. \<not> accesses op k) (rev ops))"

text \<open>The store of part\_001 (line 88).\<close>

definition userMessageInfo_capacity :: int where
  "userMessageInfo_capacity = 1000"

text \<open>The keys of a cache in iteration order, and a cache filled by \<open>n\<close> distinct users.\<close>

definition keys_of :: "('k, 'v) SimpleLRUCache \<Rightarrow> 'k list" where
  "keys_of c = map fst (cache c)"

definition first_users :: "nat \<Rightarrow> (nat, nat) cache_op list" where
  "first_users n = map (\<lambda>i. Set i (2 * i)) [0..<n]"

section \<open>Messages\<close>

text \<open>
  A JavaScript string is a sequence of UTF-16 code units. The queue of a user holds
  \<^verbatim>\<open>{ ctx, flowDynamic, state, provider }\<close>; the three capabilities belong to the
  conversation of \<^verbatim>\<open>ctx.from\<close>, so a queued task is given by its \<^verbatim>\<open>ctx\<close>. The
  field \<open>ctx_seq\<close> is not in the code: it numbers the inbound messages in the order of
  their arrival, so that theorems can name a message.
\<close>

type_synonym jsstring = "nat list"

record ctx =
  ctx_from :: user_id
  ctx_body :: jsstring
  ctx_seq :: nat

section \<open>part\_001: the rate limiter on the bounded store\<close>

text \<open>
  The store maps a user to a \<^verbatim>\<open>UserMessageInfo\<close> object, and the code mutates such
  objects (and their \<^verbatim>\<open>queue\<close> arrays) through references it holds across
  \<^verbatim>\<open>await\<close>s. So objects and arrays live in a heap, and the store holds references.
  \<open>next_ref\<close> is the next unused reference.
\<close>

record UserMessageInfo =
  info_count :: int
  info_firstMessageTime :: int
  info_queue :: nat
  info_processing :: bool
  info_bannedNotified :: bool

record RateLimitResult =
  allowed :: bool
  result_count :: int
  timeUntilReset :: int

record p1_heap =
  userMessageInfo :: "(user_id, nat) SimpleLRUCache"
  objects :: "nat \<rightharpoonup> UserMessageInfo"
  arrays :: "nat \<rightharpoonup> ctx list"
  next_ref :: nat

definition MAX_MESSAGES :: int where
  "MAX_MESSAGES = 20"

definition RESET_PERIOD :: int where
  "RESET_PERIOD = 24 * 60 * 60 * 1000"

definition NOTIFICATION_THRESHOLD :: int where
  "NOTIFICATION_THRESHOLD = 15"

definition p1_init :: p1_heap where
  "p1_init = \<lparr>userMessageInfo = SimpleLRUCache_new userMessageInfo_capacity,
              objects = Map.empty, arrays = Map.empty, next_ref = 0\<rparr>"

text \<open>
  \<^verbatim>\<open>userMessageInfo.get(userId)\<close> followed by the dereference: the object, if the
  store has the user (a stored reference always points to an object; a reference
  without one reads as \<^verbatim>\<open>undefined\<close>).
\<close>

definition lookup_info :: "user_id \<Rightarrow> p1_heap \<Rightarrow> (nat \<times> UserMessageInfo) option \<times> p1_heap" where
  "lookup_info userId s =
     (case SimpleLRUCache_get userId (userMessageInfo s) of
        (found, c) \<Rightarrow>
          (case found of
             None \<Rightarrow> None
           | Some r \<Rightarrow> (case objects s r of None \<Rightarrow> None | Some info \<Rightarrow> Some (r, info)),
           s\<lparr>userMessageInfo := c\<rparr>))"

text \<open>
  The object literal with \<^verbatim>\<open>queue: []\<close>: a new array and a new object, and
  \<^verbatim>\<open>userMessageInfo.set(userId, userInfo)\<close>.
\<close>

definition new_info :: "user_id \<Rightarrow> int \<Rightarrow> int \<Rightarrow> p1_heap \<Rightarrow> (nat \<times> UserMessageInfo) \<times> p1_heap" where
  "new_info userId cnt now s =
     (let q = next_ref s; r = q + 1;
          info = \<lparr>info_count = cnt, info_firstMessageTime = now, info_queue = q,
                  info_processing = False, info_bannedNotified = False\<rparr>
      in ((r, info),
          s\<lparr>arrays := (arrays s)(q \<mapsto> []), objects := (objects s)(r \<mapsto> info),
            next_ref := q + 2,
            userMessageInfo := SimpleLRUCache_set userId r (userMessageInfo s)\<rparr>))"

text \<open>A field assignment on the object at \<open>r\<close>, then \<^verbatim>\<open>userMessageInfo.set\<close>.\<close>

definition store_info :: "user_id \<Rightarrow> nat \<Rightarrow> UserMessageInfo \<Rightarrow> p1_heap \<Rightarrow> p1_heap" where
  "store_info userId r info s =
     s\<lparr>objects := (objects s)(r \<mapsto> info),
       userMessageInfo := SimpleLRUCache_set userId r (userMessageInfo s)\<rparr>"

text \<open>
  \<^verbatim>\<open>rateLimitUser\<close> (part\_001 109-145). A missing user and an elapsed window both
  give a fresh object; at \<^verbatim>\<open>count >= MAX_MESSAGES\<close> the call is denied and only
  \<^verbatim>\<open>bannedNotified\<close> may change; otherwise the count is incremented.
\<close>

definition rateLimitUser_p1 :: "int \<Rightarrow> user_id \<Rightarrow> p1_heap \<Rightarrow> RateLimitResult \<times> p1_heap" where
  "rateLimitUser_p1 now userId s =
     (case lookup_info userId s of
        (found, s1) \<Rightarrow>
          (case (case found of
                   None \<Rightarrow> new_info userId 0 now s1
                 | Some (r, info) \<Rightarrow>
                     if now - info_firstMessageTime info \<ge> RESET_PERIOD
                     then new_info userId 0 now s1
                     else ((r, info), s1)) of
             ((r, userInfo), s2) \<Rightarrow>
               (let tur = RESET_PERIOD - (now - info_firstMessageTime userInfo) in
                if info_count userInfo \<ge> MAX_MESSAGES then
                  (if \<not> info_bannedNotified userInfo
                   then (\<lparr>allowed = False, result_count = info_count userInfo, timeUntilReset = tur\<rparr>,
                         store_info userId r (userInfo\<lparr>info_bannedNotified := True\<rparr>) s2)
                   else (\<lparr>allowed = False, result_count = info_count userInfo, timeUntilReset = tur\<rparr>, s2))
                else
                  (\<lparr>allowed = True, result_count = info_count userInfo + 1, timeUntilReset = tur\<rparr>,
                   store_info userId r
                     (userInfo\<lparr>info_count := info_count userInfo + 1, info_bannedNotified := False\<rparr>) s2))))"

text \<open>The count the store holds for a user.\<close>

definition stored_count_p1 :: "p1_heap \<Rightarrow> user_id \<Rightarrow> int option" where
  "stored_count_p1 s userId =
     (case map_get userId (cache (userMessageInfo s)) of
        None \<Rightarrow> None
      | Some r \<Rightarrow> map_option info_count (objects s r))"

definition stored_count_app :: "app_maps \<Rightarrow> user_id \<Rightarrow> int option" where
  "stored_count_app s userId = map_option count (userMessageCount s userId)"

text \<open>A part\_001 heap in which one user has used up the 20 messages of the window.\<close>

definition saturated_p1 :: p1_heap where
  "saturated_p1 =
     \<lparr>userMessageInfo = \<lparr>cache = [(''5215550001'', 1)], capacity = userMessageInfo_capacity\<rparr>,
      objects = [1 \<mapsto> \<lparr>info_count = 20, info_firstMessageTime = 0, info_queue = 0,
                        info_processing = False, info_bannedNotified = False\<rparr>],
      arrays = [0 \<mapsto> []],
      next_ref = 2\<rparr>"

section \<open>Text processing of \<^verbatim>\<open>processUserMessage\<close>\<close>

text \<open>
  The code units the regular expressions of the five variants name: line feed, space,
  \<^verbatim>\<open>*\<close>, \<^verbatim>\<open>-\<close>, the ASCII brackets and the lenticular brackets U+3010 and U+3011.
\<close>

definition LF :: nat where "LF = 10"
definition SPACE :: nat where "SPACE = 32"
definition STAR :: nat where "STAR = 42"
definition DASH :: nat where "DASH = 45"
definition LBRACKET :: nat where "LBRACKET = 91"
definition RBRACKET :: nat where "RBRACKET = 93"
definition LLENT :: nat where "LLENT = 12304"
definition RLENT :: nat where "RLENT = 12305"

text \<open>
  ECMAScript's \<^verbatim>\<open>LineTerminator\<close> (what \<^verbatim>\<open>.\<close> does not match) and
  \<^verbatim>\<open>WhiteSpace\<close>; \<^verbatim>\<open>trim()\<close> and \<^verbatim>\<open>\s\<close> take both.
\<close>

definition is_line_terminator :: "nat \<Rightarrow> bool" where
  "is_line_terminator c \<longleftrightarrow> c = 10 \<or> c = 13 \<or> c = 8232 \<or> c = 8233"

definition is_space :: "nat \<Rightarrow> bool" where
  "is_space c \<longleftrightarrow>
     is_line_terminator c \<or> c = 9 \<or> c = 11 \<or> c = 12 \<or> c = 32 \<or> c = 160 \<or> c = 5760
     \<or> (8192 \<le> c \<and> c \<le> 8202) \<or> c = 8239 \<or> c = 8287 \<or> c = 12288 \<or> c = 65279"

definition trim :: "jsstring \<Rightarrow> jsstring" where
  "trim s = rev (dropWhile is_space (rev (dropWhile is_space s)))"

text \<open>
  \<^verbatim>\<open>s.split(/\n\n+/)\<close>: the separators are the maximal runs of two or more line
  feeds; the pieces between them are returned in order, also the empty ones at the
  ends, and a text without a separator is returned whole.
\<close>

function split_blank_lines :: "jsstring \<Rightarrow> jsstring list" where
  "split_blank_lines [] = [[]]"
| "split_blank_lines [c] = [[c]]"
| "split_blank_lines (c # d # s) =
     (if c = LF \<and> d = LF then [] # split_blank_lines (dropWhile (\<lambda>x. x = LF) s)
      else (case split_blank_lines (d # s) of
              [] \<Rightarrow> [[c]]
            | p # ps \<Rightarrow> (c # p) # ps))"
  by pat_completeness auto
termination
proof (relation "measure length")
  show "wf (measure length)" by simp
next
  fix c d :: nat and s :: jsstring
  have "length (dropWhile (\<lambda>x. x = LF) s) \<le> length s" by (rule length_dropWhile_le)
  then show "(dropWhile (\<lambda>x. x = LF) s, c # d # s) \<in> measure length" by simp
next
  fix c d :: nat and s :: jsstring
  show "(d # s, c # d # s) \<in> measure length" by simp
qed

text \<open>A blank line inside a text: two line feeds in a row.\<close>

fun has_blank_line :: "jsstring \<Rightarrow> bool" where
  "has_blank_line (c # d # s) = ((c = LF \<and> d = LF) \<or> has_blank_line (d # s))"
| "has_blank_line s = False"

text \<open>
  \<^verbatim>\<open>s.replace(/OPEN.*?CLOSE SUFFIX/g, "")\<close> for single code units \<open>OPEN\<close> and
  \<open>CLOSE\<close> and a literal \<open>SUFFIX\<close>. After \<open>OPEN\<close> the lazy \<^verbatim>\<open>.*?\<close> stops at the first
  \<open>CLOSE\<close> that is followed by the suffix and gives up at a line terminator;
  \<open>find_close\<close> returns the text after the match. The search goes on after a match, and
  one code unit further where none starts.
\<close>

fun find_close :: "nat \<Rightarrow> jsstring \<Rightarrow> jsstring \<Rightarrow> jsstring option" where
  "find_close cl suf [] = None"
| "find_close cl suf (c # s) =
     (if c = cl \<and> take (length suf) s = suf then Some (drop (length suf) s)
      else if is_line_terminator c then None
      else find_close cl suf s)"

lemma find_close_shorter: "find_close cl suf s = Some rest \<Longrightarrow> length rest \<le> length s"
  by (induction s) (auto split: if_splits)

function strip_markers :: "nat \<Rightarrow> nat \<Rightarrow> jsstring \<Rightarrow> jsstring \<Rightarrow> jsstring" where
  "strip_markers opn cl suf [] = []"
| "strip_markers opn cl suf (c # s) =
     (if c = opn
      then (case find_close cl suf s of
              Some rest \<Rightarrow> strip_markers opn cl suf rest
            | None \<Rightarrow> c # strip_markers opn cl suf s)
      else c # strip_markers opn cl suf s)"
  by pat_completeness auto
termination
  by (relation "measure (\<lambda>(opn, cl, suf, s). length s)")
     (auto dest: find_close_shorter)

text \<open>
  \<^verbatim>\<open>s.replace(/\*\*(.*?)\*\*/g, "*$1*")\<close> (app.ts): after \<^verbatim>\<open>**\<close> the group runs to
  the first following \<^verbatim>\<open>**\<close> on the same line; \<open>find_stars\<close> returns the group and
  the text after the match.
\<close>

fun find_stars :: "jsstring \<Rightarrow> (jsstring \<times> jsstring) option" where
  "find_stars (c # d # s) =
     (if c = STAR \<and> d = STAR then Some ([], s)
      else if is_line_terminator c then None
      else (case find_stars (d # s) of
              None \<Rightarrow> None
            | Some (inner, rest) \<Rightarrow> Some (c # inner, rest)))"
| "find_stars [c] = None"
| "find_stars [] = None"

lemma find_stars_shorter: "find_stars s = Some (inner, rest) \<Longrightarrow> length rest \<le> length s"
  by (induction s arbitrary: inner rule: find_stars.induct)
     (auto split: if_splits option.splits)

function collapse_emphasis :: "jsstring \<Rightarrow> jsstring" where
  "collapse_emphasis (c # d # s) =
     (if c = STAR \<and> d = STAR
      then (case find_stars s of
              Some (inner, rest) \<Rightarrow> STAR # inner @ STAR # collapse_emphasis rest
            | None \<Rightarrow> c # collapse_emphasis (d # s))
      else c # collapse_emphasis (d # s))"
| "collapse_emphasis [c] = [c]"
| "collapse_emphasis [] = []"
  by pat_completeness auto
termination
  by (relation "measure length") (auto dest: find_stars_shorter)

text \<open>\<^verbatim>\<open>s.replace(/\*\*/g, "*")\<close> (part\_000, part\_001).\<close>

fun halve_stars :: "jsstring \<Rightarrow> jsstring" where
  "halve_stars (c # d # s) =
     (if c = STAR \<and> d = STAR then STAR # halve_stars s else c # halve_stars (d # s))"
| "halve_stars s = s"

text \<open>\<^verbatim>\<open>s.replace(/\n-\s/g, "\n")\<close> (part\_001).\<close>

fun strip_dashes :: "jsstring \<Rightarrow> jsstring" where
  "strip_dashes (a # b # c # s) =
     (if a = LF \<and> b = DASH \<and> is_space c then LF # strip_dashes s
      else a # strip_dashes (b # c # s))"
| "strip_dashes s = s"

text \<open>
  The fragments each variant hands to \<^verbatim>\<open>flowDynamic\<close>, in order. app.ts (58-64)
  cleans the whole response, splits it and trims the pieces; part\_001 (207-213),
  part\_000 (57-60) and part\_003 (26-31) split first and clean the trimmed pieces.
\<close>

definition clean_app :: "jsstring \<Rightarrow> jsstring" where
  "clean_app response = collapse_emphasis (strip_markers LBRACKET RBRACKET [] response)"

definition chunks_app :: "jsstring \<Rightarrow> jsstring list" where
  "chunks_app response = map trim (split_blank_lines (clean_app response))"

definition clean_p1 :: "jsstring \<Rightarrow> jsstring" where
  "clean_p1 chunk = strip_dashes (halve_stars (strip_markers LLENT RLENT [] (trim chunk)))"

definition chunks_p1 :: "jsstring \<Rightarrow> jsstring list" where
  "chunks_p1 response = map clean_p1 (split_blank_lines response)"

definition chunks_p0 :: "jsstring \<Rightarrow> jsstring list" where
  "chunks_p0 response =
     map (\<lambda>chunk. halve_stars (strip_markers LLENT RLENT [SPACE] (trim chunk)))
       (split_blank_lines response)"


text \<open>
  A text put together from paragraphs: a first one and then, each after a run of \<open>n + 2\<close>
  line feeds, the further ones. \<open>separated\<close> says that the further paragraphs have no
  blank line inside and that each of them but the last holds a code unit other than a line
  feed, so that the runs between them do not merge.
\<close>

fun paragraphs_text :: "jsstring \<Rightarrow> (nat \<times> jsstring) list \<Rightarrow> jsstring" where
  "paragraphs_text p [] = p"
| "paragraphs_text p ((n, q) # rest) = p @ replicate (n + 2) LF @ paragraphs_text q rest"

fun separated :: "(nat \<times> jsstring) list \<Rightarrow> bool" where
  "separated [] = True"
| "separated [(n, q)] = (\<not> has_blank_line q)"
| "separated ((n, q) # r # rest) =
     (\<not> has_blank_line q \<and> (\<exists>x\<in>set q. x \<noteq> LF) \<and> separated (r # rest))"

text \<open>
  A line feed followed by \<^verbatim>\<open>-\<close> and a white space character somewhere in a text (a
  match of \<^verbatim>\<open>/\n-\s/\<close>); two \<^verbatim>\<open>*\<close> in a row (a match of \<^verbatim>\<open>/\*\*/\<close>).
\<close>

fun has_dash_item :: "jsstring \<Rightarrow> bool" where
  "has_dash_item (a # b # c # s) = ((a = LF \<and> b = DASH \<and> is_space c) \<or> has_dash_item (b # c # s))"
| "has_dash_item s = False"

fun has_double_star :: "jsstring \<Rightarrow> bool" where
  "has_double_star (c # d # s) = ((c = STAR \<and> d = STAR) \<or> has_double_star (d # s))"
| "has_double_star s = False"

text \<open>ASCII text as code units, for examples.\<close>

definition js :: "string \<Rightarrow> jsstring" where
  "js s = map of_char s"

section \<open>One task and one drain, sequentially\<close>

text \<open>
  \<^verbatim>\<open>processUserMessage\<close> awaits three external calls: \<^verbatim>\<open>typing\<close>, \<^verbatim>\<open>toAsk\<close>
  and \<^verbatim>\<open>flowDynamic\<close>. Each can reject; \<^verbatim>\<open>toAsk\<close> resolves with the response
  text. The outcomes of the calls made for one task are given with the task, the
  \<open>n\<close>-th \<^verbatim>\<open>flowDynamic\<close> call of the task rejecting when \<open>send_rejects n\<close>. What a
  run does to the outside world is its list of effects: the calls of \<^verbatim>\<open>typing\<close> and
  \<^verbatim>\<open>toAsk\<close> for a task, a fragment handed to \<^verbatim>\<open>flowDynamic\<close> (delivered or not),
  a \<^verbatim>\<open>console.error\<close>, the notice to a user who is refused, and
  \<^verbatim>\<open>setInterval\<close>, a firing of the interval and \<^verbatim>\<open>clearInterval\<close>. The
  machine of app.ts, part\_000 and part\_003 below also records, as \<open>Answered\<close>, the
  response with which \<^verbatim>\<open>toAsk\<close> resolved for a task.
\<close>

datatype ask_outcome = Rejects | Resolves jsstring

record outcomes =
  typing_rejects :: bool
  ask :: ask_outcome
  send_rejects :: "nat \<Rightarrow> bool"

datatype effect =
    Typing ctx
  | Asked ctx
  | Answered ctx jsstring
  | Sent ctx jsstring
  | SendFailed ctx jsstring
  | Logged ctx
  | Refused ctx
  | IntervalSet nat
  | Heartbeat ctx
  | IntervalCleared nat

datatype completion = Returned | Threw

text \<open>
  The \<^verbatim>\<open>for (const chunk of chunks) await flowDynamic([{ body }])\<close> loop: one call
  per fragment, in order, ended by the first call that rejects.
\<close>

fun send_chunks :: "ctx \<Rightarrow> (nat \<Rightarrow> bool) \<Rightarrow> nat \<Rightarrow> jsstring list \<Rightarrow> effect list \<times> nat \<times> bool" where
  "send_chunks c rej n [] = ([], n, True)"
| "send_chunks c rej n (b # bs) =
     (if rej n then ([SendFailed c b], Suc n, False)
      else (case send_chunks c rej (Suc n) bs of (es, m, ok) \<Rightarrow> (Sent c b # es, m, ok)))"

text \<open>\<^verbatim>\<open>processUserMessage\<close> of app.ts (53-67): no \<^verbatim>\<open>try\<close>, every rejection is thrown on.\<close>

definition processUserMessage_app :: "outcomes \<Rightarrow> ctx \<Rightarrow> effect list \<times> nat \<times> completion" where
  "processUserMessage_app oc c =
     (if typing_rejects oc then ([Typing c], 0, Threw)
      else (case ask oc of
              Rejects \<Rightarrow> ([Typing c, Asked c], 0, Threw)
            | Resolves response \<Rightarrow>
                (case send_chunks c (send_rejects oc) 0 (chunks_app response) of
                   (es, n, ok) \<Rightarrow> ([Typing c, Asked c] @ es, n, if ok then Returned else Threw))))"

text \<open>
  The \<^verbatim>\<open>while (queue.length > 0)\<close> loop of \<^verbatim>\<open>handleQueue\<close> in app.ts (76-86) on
  the tasks it shifts, in order: an exception of \<^verbatim>\<open>processUserMessage\<close> is logged,
  and the loop goes on.
\<close>

fun drain_app :: "(ctx \<times> outcomes) list \<Rightarrow> effect list" where
  "drain_app [] = []"
| "drain_app ((c, oc) # rest) =
     (case processUserMessage_app oc c of
        (es, n, Returned) \<Rightarrow> es @ drain_app rest
      | (es, n, Threw) \<Rightarrow> es @ [Logged c] @ drain_app rest)"

text \<open>
  \<^verbatim>\<open>processUserMessage\<close> of part\_001 (197-223): the body is in a \<^verbatim>\<open>try\<close>, an
  empty response is thrown as an error, and the \<^verbatim>\<open>catch\<close> logs and sends the
  notice; only a rejection of that last \<^verbatim>\<open>flowDynamic\<close> leaves the function as an
  exception.
\<close>

definition failure_notice :: jsstring where
  "failure_notice = js (''Una disculpa, ocurrio un error mientras procesaba tu mensaje. '' @
                        ''Por favor intentalo nuevamente.'')"

definition processUserMessage_p1 :: "outcomes \<Rightarrow> ctx \<Rightarrow> effect list \<times> nat \<times> completion" where
  "processUserMessage_p1 oc c =
     (case (if typing_rejects oc then ([Typing c], 0, False)
            else (case ask oc of
                    Rejects \<Rightarrow> ([Typing c, Asked c], 0, False)
                  | Resolves response \<Rightarrow>
                      if response = [] then ([Typing c, Asked c], 0, False)
                      else (case send_chunks c (send_rejects oc) 0 (chunks_p1 response) of
                              (es, n, ok) \<Rightarrow> ([Typing c, Asked c] @ es, n, ok)))) of
        (es, n, True) \<Rightarrow> (es, n, Returned)
      | (es, n, False) \<Rightarrow>
          if send_rejects oc n
          then (es @ [Logged c, SendFailed c failure_notice], Suc n, Threw)
          else (es @ [Logged c, Sent c failure_notice], Suc n, Returned))"

text \<open>
  The loop of \<^verbatim>\<open>handleQueue\<close> in part\_001 (247-258): its \<^verbatim>\<open>catch\<close> sends the
  notice once more, and a rejection there ends the loop with an exception.
\<close>

fun drain_p1 :: "(ctx \<times> outcomes) list \<Rightarrow> effect list \<times> completion" where
  "drain_p1 [] = ([], Returned)"
| "drain_p1 ((c, oc) # rest) =
     (case processUserMessage_p1 oc c of
        (es, n, Returned) \<Rightarrow> (case drain_p1 rest of (es', r) \<Rightarrow> (es @ es', r))
      | (es, n, Threw) \<Rightarrow>
          if send_rejects oc n
          then (es @ [Logged c, SendFailed c failure_notice], Threw)
          else (case drain_p1 rest of
                  (es', r) \<Rightarrow> (es @ [Logged c, Sent c failure_notice] @ es', r)))"

text \<open>
  A task leaves the loop of part\_001 with an exception when its failure notice is
  rejected twice: by \<^verbatim>\<open>flowDynamic\<close> in the \<^verbatim>\<open>catch\<close> of
  \<^verbatim>\<open>processUserMessage\<close>, and again in the \<^verbatim>\<open>catch\<close> of \<^verbatim>\<open>handleQueue\<close>.
\<close>

definition aborts_p1 :: "ctx \<times> outcomes \<Rightarrow> bool" where
  "aborts_p1 t =
     (case processUserMessage_p1 (snd t) (fst t) of
        (es, n, Threw) \<Rightarrow> send_rejects (snd t) n
      | (es, n, Returned) \<Rightarrow> False)"

text \<open>What reached the user, and which tasks were taken up, in order.\<close>

fun sent :: "effect list \<Rightarrow> (ctx \<times> jsstring) list" where
  "sent [] = []"
| "sent (Sent c b # es) = (c, b) # sent es"
| "sent (e # es) = sent es"

fun started :: "effect list \<Rightarrow> ctx list" where
  "started [] = []"
| "started (Typing c # es) = c # started es"
| "started (e # es) = started es"

text \<open>The completion call of a task fails: it throws, or returns an empty response.\<close>

definition completion_fails :: "outcomes \<Rightarrow> bool" where
  "completion_fails oc = (ask oc = Rejects \<or> ask oc = Resolves [])"

definition response_of :: "outcomes \<Rightarrow> jsstring" where
  "response_of oc = (case ask oc of Rejects \<Rightarrow> [] | Resolves r \<Rightarrow> r)"

definition sends_succeed :: "outcomes \<Rightarrow> bool" where
  "sends_succeed oc = (\<forall>n. \<not> send_rejects oc n)"

text \<open>
  What a task is expected to put in front of the user when every \<^verbatim>\<open>flowDynamic\<close>
  call succeeds: in part\_001 the failure notice or the fragments of the response, in
  app.ts the fragments of the response and nothing for a call that was rejected.
\<close>

fun expected_p1 :: "ctx \<times> outcomes \<Rightarrow> (ctx \<times> jsstring) list" where
  "expected_p1 (c, oc) =
     (if typing_rejects oc \<or> completion_fails oc then [(c, failure_notice)]
      else map (Pair c) (chunks_p1 (response_of oc)))"

fun expected_app :: "ctx \<times> outcomes \<Rightarrow> (ctx \<times> jsstring) list" where
  "expected_app (c, oc) =
     (if typing_rejects oc then []
      else (case ask oc of Rejects \<Rightarrow> [] | Resolves r \<Rightarrow> map (Pair c) (chunks_app r)))"

text \<open>Example messages, outcomes and texts.\<close>

definition msg :: "nat \<Rightarrow> ctx" where
  "msg n = \<lparr>ctx_from = ''5215550001'', ctx_body = js ''hola'', ctx_seq = n\<rparr>"

definition answers :: "jsstring \<Rightarrow> outcomes" where
  "answers r = \<lparr>typing_rejects = False, ask = Resolves r, send_rejects = (\<lambda>n. False)\<rparr>"

definition ask_fails :: outcomes where
  "ask_fails = \<lparr>typing_rejects = False, ask = Rejects, send_rejects = (\<lambda>n. False)\<rparr>"

text \<open>
  A completion call that is rejected, with the first \<^verbatim>\<open>flowDynamic\<close> call of the task
  rejected too; and with every \<^verbatim>\<open>flowDynamic\<close> call rejected.
\<close>

definition ask_fails_notice_once :: outcomes where
  "ask_fails_notice_once = \<lparr>typing_rejects = False, ask = Rejects, send_rejects = (\<lambda>n. n = 0)\<rparr>"

definition ask_fails_unreachable :: outcomes where
  "ask_fails_unreachable = \<lparr>typing_rejects = False, ask = Rejects, send_rejects = (\<lambda>n. True)\<rparr>"

text \<open>
  \<^verbatim>\<open>"a\n[1]\nb"\<close>, a paragraph of three lines whose middle line is a bracket marker only;
  \<^verbatim>\<open>"c"\<close>; \<^verbatim>\<open>"**Hi** [1]"\<close> and \<^verbatim>\<open>"**Hi** "\<close> followed by a lenticular marker.
\<close>

definition para_marker_line :: jsstring where
  "para_marker_line = [97, LF, LBRACKET, 49, RBRACKET, LF, 98]"

definition para_c :: jsstring where
  "para_c = [99]"

definition para_hi_ascii :: jsstring where
  "para_hi_ascii = [STAR, STAR, 72, 105, STAR, STAR, SPACE, LBRACKET, 49, RBRACKET]"

definition para_hi_lent :: jsstring where
  "para_hi_lent = [STAR, STAR, 72, 105, STAR, STAR, SPACE, LLENT, 52, RLENT]"

text \<open>\<^verbatim>\<open>"- d\n- e"\<close>, a list of two items.\<close>

definition para_items :: jsstring where
  "para_items = [DASH, SPACE, 100, LF, DASH, SPACE, 101]"

section \<open>The queue, the lock and the drain, step by step\<close>

text \<open>
  app.ts, part\_000 and part\_003 share one design: \<^verbatim>\<open>userQueues\<close> maps a user to an
  array of tasks, \<^verbatim>\<open>userLocks\<close> to a flag, \<^verbatim>\<open>welcomeFlow\<close> pushes a task and calls
  \<^verbatim>\<open>handleQueue\<close> when the user is not locked and the array has one element, and
  \<^verbatim>\<open>handleQueue\<close> shifts and processes tasks until the array is empty. JavaScript
  runs each of these functions without interruption up to its next \<^verbatim>\<open>await\<close>; a
  suspended \<^verbatim>\<open>handleQueue\<close> goes on when the awaited call settles, and new messages
  are handled in between. The machine below has one transition for each such stretch of
  code. A suspended \<^verbatim>\<open>handleQueue\<close> keeps its local variables: the user, the
  reference \<^verbatim>\<open>queue\<close> to the array (arrays live in \<open>heap\<close>), the interval it set, the
  task it shifted, and the \<^verbatim>\<open>await\<close> it waits at.

  The variants differ in three places: part\_000 and part\_003 set a typing interval in
  \<^verbatim>\<open>handleQueue\<close>, each variant has its own fragments, and each has its own admission
  check before the push (none in part\_003).
\<close>

datatype settlement = Resolved jsstring | Rejected

datatype pc = AwaitTyping | AwaitAsk | AwaitSend jsstring "jsstring list"

record coroutine =
  co_user :: user_id
  co_queue :: nat
  co_timer :: "nat option"
  co_task :: ctx
  co_pc :: pc

record 'adm variant =
  heartbeat :: bool
  chunks :: "jsstring \<Rightarrow> jsstring list"
  admission :: "clock \<Rightarrow> user_id \<Rightarrow> 'adm \<Rightarrow> verdict \<times> 'adm"
  adm0 :: 'adm

record 'adm machine =
  adm :: 'adm
  userQueues :: "user_id \<rightharpoonup> nat"
  userLocks :: "user_id \<rightharpoonup> bool"
  heap :: "nat \<rightharpoonup> ctx list"
  next_array :: nat
  timers :: "nat \<rightharpoonup> ctx"
  next_timer :: nat
  running :: "nat \<rightharpoonup> coroutine"
  next_pid :: nat
  arrivals :: nat
  trace :: "effect list"
  beats :: nat
  halted :: bool

definition initial :: "'adm variant \<Rightarrow> 'adm machine" where
  "initial v =
     \<lparr>adm = adm0 v, userQueues = Map.empty, userLocks = Map.empty, heap = Map.empty,
      next_array = 0, timers = Map.empty, next_timer = 0, running = Map.empty, next_pid = 0,
      arrivals = 0, trace = [], beats = 0, halted = False\<rparr>"

text \<open>
  The head of the \<^verbatim>\<open>while (queue.length > 0)\<close> loop of \<^verbatim>\<open>handleQueue\<close>, up to the
  next \<^verbatim>\<open>await\<close>. With a task in the array: the lock is set, the task is shifted and
  \<^verbatim>\<open>processUserMessage\<close> starts with \<^verbatim>\<open>await typing(ctx, provider)\<close>. With an
  empty array: \<^verbatim>\<open>clearInterval\<close> (where an interval was set),
  \<^verbatim>\<open>userLocks.delete\<close>, \<^verbatim>\<open>userQueues.delete\<close>, and the function returns.
\<close>

definition loop :: "nat \<Rightarrow> user_id \<Rightarrow> nat \<Rightarrow> nat option \<Rightarrow> 'adm machine \<Rightarrow> 'adm machine" where
  "loop pid userId queue timer m =
     (case heap m queue of
        Some (c # rest) \<Rightarrow>
          m\<lparr>userLocks := (userLocks m)(userId \<mapsto> True),
            heap := (heap m)(queue \<mapsto> rest),
            running := (running m)(pid \<mapsto>
              \<lparr>co_user = userId, co_queue = queue, co_timer = timer, co_task = c,
               co_pc = AwaitTyping\<rparr>),
            trace := trace m @ [Typing c]\<rparr>
      | _ \<Rightarrow>
          m\<lparr>timers := (case timer of None \<Rightarrow> timers m | Some t \<Rightarrow> (timers m)(t := None)),
            userLocks := (userLocks m)(userId := None),
            userQueues := (userQueues m)(userId := None),
            running := (running m)(pid := None),
            trace := trace m @ (case timer of None \<Rightarrow> [] | Some t \<Rightarrow> [IntervalCleared t])\<rparr>)"

text \<open>
  The start of \<^verbatim>\<open>handleQueue\<close> (app.ts 70-75, part\_000 68-78, part\_003 39-50): it
  returns at once when the user is locked; otherwise it sets the interval (part\_000,
  part\_003) and enters the loop. (Without an array for the user, \<^verbatim>\<open>queue.length\<close>
  would throw after the interval is set; \<^verbatim>\<open>welcomeFlow\<close> never calls it so.)
\<close>

definition handleQueue :: "'adm variant \<Rightarrow> user_id \<Rightarrow> ctx \<Rightarrow> 'adm machine \<Rightarrow> 'adm machine" where
  "handleQueue v userId c m =
     (if userLocks m userId = Some True then m
      else
        (let m1 = (if heartbeat v
                   then m\<lparr>timers := (timers m)(next_timer m \<mapsto> c),
                          next_timer := Suc (next_timer m),
                          trace := trace m @ [IntervalSet (next_timer m)]\<rparr>
                   else m);
             timer = (if heartbeat v then Some (next_timer m) else None)
         in (case userQueues m userId of
               None \<Rightarrow> m1
             | Some queue \<Rightarrow>
                 loop (next_pid m) userId queue timer (m1\<lparr>next_pid := Suc (next_pid m)\<rparr>))))"

text \<open>
  The end of one loop iteration: \<^verbatim>\<open>catch\<close> logs what \<^verbatim>\<open>processUserMessage\<close>
  threw, \<^verbatim>\<open>finally\<close> sets the lock to false, and the loop head follows without an
  \<^verbatim>\<open>await\<close> in between.
\<close>

definition task_done :: "nat \<Rightarrow> coroutine \<Rightarrow> bool \<Rightarrow> 'adm machine \<Rightarrow> 'adm machine" where
  "task_done pid co threw m =
     loop pid (co_user co) (co_queue co) (co_timer co)
       (m\<lparr>userLocks := (userLocks m)(co_user co \<mapsto> False),
          trace := trace m @ (if threw then [Logged (co_task co)] else [])\<rparr>)"

text \<open>
  The awaited call of a suspended \<^verbatim>\<open>handleQueue\<close> settles, and
  \<^verbatim>\<open>processUserMessage\<close> runs to its next \<^verbatim>\<open>await\<close>: after \<^verbatim>\<open>typing\<close> comes
  \<^verbatim>\<open>toAsk\<close>, after \<^verbatim>\<open>toAsk\<close> the first fragment, after a fragment the next one
  or the end of the task. A rejection ends the task through \<^verbatim>\<open>catch\<close>.
\<close>

definition settle :: "'adm variant \<Rightarrow> nat \<Rightarrow> settlement \<Rightarrow> 'adm machine \<Rightarrow> 'adm machine" where
  "settle v pid outcome m =
     (case running m pid of
        None \<Rightarrow> m
      | Some co \<Rightarrow>
          (case co_pc co of
             AwaitTyping \<Rightarrow>
               (case outcome of
                  Rejected \<Rightarrow> task_done pid co True m
                | Resolved x \<Rightarrow>
                    m\<lparr>running := (running m)(pid \<mapsto> co\<lparr>co_pc := AwaitAsk\<rparr>),
                      trace := trace m @ [Asked (co_task co)]\<rparr>)
           | AwaitAsk \<Rightarrow>
               (case outcome of
                  Rejected \<Rightarrow> task_done pid co True m
                | Resolved response \<Rightarrow>
                    (case chunks v response of
                       [] \<Rightarrow>
                         task_done pid co False
                           (m\<lparr>trace := trace m @ [Answered (co_task co) response]\<rparr>)
                     | b # bs \<Rightarrow>
                         m\<lparr>running := (running m)(pid \<mapsto> co\<lparr>co_pc := AwaitSend b bs\<rparr>),
                           trace := trace m @ [Answered (co_task co) response]\<rparr>))
           | AwaitSend b bs \<Rightarrow>
               (case outcome of
                  Rejected \<Rightarrow>
                    task_done pid co True (m\<lparr>trace := trace m @ [SendFailed (co_task co) b]\<rparr>)
                | Resolved x \<Rightarrow>
                    (case bs of
                       [] \<Rightarrow> task_done pid co False (m\<lparr>trace := trace m @ [Sent (co_task co) b]\<rparr>)
                     | b' # bs' \<Rightarrow>
                         m\<lparr>running := (running m)(pid \<mapsto> co\<lparr>co_pc := AwaitSend b' bs'\<rparr>),
                           trace := trace m @ [Sent (co_task co) b]\<rparr>))))"

text \<open>
  The push of \<^verbatim>\<open>welcomeFlow\<close> (app.ts 107-117, part\_000 117-126, part\_003 78-88):
  a new array for a user without one, \<^verbatim>\<open>queue.push\<close>, and \<^verbatim>\<open>handleQueue\<close> when
  \<^verbatim>\<open>!userLocks.get(userId) && queue.length === 1\<close>.
\<close>

definition enqueue :: "'adm variant \<Rightarrow> ctx \<Rightarrow> 'adm machine \<Rightarrow> 'adm machine" where
  "enqueue v c m =
     (let userId = ctx_from c;
          m1 = (case userQueues m userId of
                  None \<Rightarrow> m\<lparr>heap := (heap m)(next_array m \<mapsto> []),
                             userQueues := (userQueues m)(userId \<mapsto> next_array m),
                             next_array := Suc (next_array m)\<rparr>
                | Some q \<Rightarrow> m)
      in (case userQueues m1 userId of
            None \<Rightarrow> m1
          | Some queue \<Rightarrow>
              (case heap m1 queue of
                 None \<Rightarrow> m1
               | Some xs \<Rightarrow>
                   (let m2 = m1\<lparr>heap := (heap m1)(queue \<mapsto> xs @ [c])\<rparr>
                    in if userLocks m2 userId \<noteq> Some True \<and> length (xs @ [c]) = 1
                       then handleQueue v userId c m2
                       else m2))))"

text \<open>
  \<^verbatim>\<open>welcomeFlow\<close> for one inbound message: the admission check of the variant, then
  the push. The message gets the next arrival number.
\<close>

definition welcomeFlow :: "'adm variant \<Rightarrow> user_id \<Rightarrow> jsstring \<Rightarrow> clock \<Rightarrow> 'adm machine \<Rightarrow> 'adm machine" where
  "welcomeFlow v userId body clk m =
     (let c = \<lparr>ctx_from = userId, ctx_body = body, ctx_seq = arrivals m\<rparr>;
          m0 = m\<lparr>arrivals := Suc (arrivals m)\<rparr>
      in (case admission v clk userId (adm m0) of
            (Ignored, a) \<Rightarrow> m0\<lparr>adm := a\<rparr>
          | (Banned, a) \<Rightarrow> m0\<lparr>adm := a, trace := trace m0 @ [Refused c]\<rparr>
          | (Admitted, a) \<Rightarrow> enqueue v c (m0\<lparr>adm := a\<rparr>)))"

text \<open>
  The interval of a running \<^verbatim>\<open>handleQueue\<close> fires (part\_000 75-77, part\_003 47-49):
  the callback calls \<^verbatim>\<open>typing(ctx, provider)\<close> and awaits it; \<open>beats\<close> counts the
  calls made by intervals that have not settled yet.
\<close>

definition tick :: "nat \<Rightarrow> 'adm machine \<Rightarrow> 'adm machine" where
  "tick t m =
     (case timers m t of
        None \<Rightarrow> m
      | Some c \<Rightarrow> m\<lparr>trace := trace m @ [Heartbeat c], beats := Suc (beats m)\<rparr>)"

text \<open>
  A \<^verbatim>\<open>typing\<close> call made by an interval settles. Nothing follows the \<^verbatim>\<open>await\<close> in
  the callback. A rejection is caught by nothing: the promise of the callback is rejected
  and unhandled, on which Node.js (since version 15, unless told otherwise) ends the
  process; \<open>halted\<close> says that the process has ended.
\<close>

definition beat :: "settlement \<Rightarrow> 'adm machine \<Rightarrow> 'adm machine" where
  "beat outcome m =
     (if beats m = 0 then m
      else (case outcome of
              Resolved x \<Rightarrow> m\<lparr>beats := beats m - 1\<rparr>
            | Rejected \<Rightarrow> m\<lparr>beats := beats m - 1, halted := True\<rparr>))"

text \<open>
  What the environment does: a message comes in, an awaited call settles, a timer fires,
  a call made by a timer settles. A process that has ended does nothing any more.
\<close>

datatype event = Message user_id jsstring clock | Settle nat settlement | Tick nat | Beat settlement

fun react :: "'adm variant \<Rightarrow> event \<Rightarrow> 'adm machine \<Rightarrow> 'adm machine" where
  "react v (Message userId body clk) m = welcomeFlow v userId body clk m"
| "react v (Settle pid outcome) m = settle v pid outcome m"
| "react v (Tick t) m = tick t m"
| "react v (Beat outcome) m = beat outcome m"

definition step :: "'adm variant \<Rightarrow> event \<Rightarrow> 'adm machine \<Rightarrow> 'adm machine" where
  "step v ev m = (if halted m then m else react v ev m)"

definition exec :: "'adm variant \<Rightarrow> event list \<Rightarrow> 'adm machine \<Rightarrow> 'adm machine" where
  "exec v evs m = foldl (\<lambda>m' ev. step v ev m') m evs"

inductive reachable :: "'adm variant \<Rightarrow> 'adm machine \<Rightarrow> bool" for v :: "'adm variant" where
  reachable_initial: "reachable v (initial v)"
| reachable_step: "reachable v m \<Longrightarrow> reachable v (step v ev m)"


definition part_000 :: "p0_maps variant" where
  "part_000 = \<lparr>heartbeat = True, chunks = chunks_p0, admission = admission_p0,
               adm0 = \<lparr>userBans = Map.empty, messageLimits = Map.empty\<rparr>\<rparr>"


section \<open>Invariants of the machine\<close>

text \<open>
  Ownership: every suspended \<^verbatim>\<open>handleQueue\<close> holds the lock of its user and the
  user's current array; no user has two of them; a user without one has neither lock
  nor array; arrays are allocated and not shared between users.
\<close>

definition owner_ok :: "'adm machine \<Rightarrow> bool" where
  "owner_ok m \<longleftrightarrow>
     (\<forall>p co. running m p = Some co \<longrightarrow>
        p < next_pid m \<and> userLocks m (co_user co) = Some True
        \<and> userQueues m (co_user co) = Some (co_queue co))
     \<and> (\<forall>p p' co co'. running m p = Some co \<and> running m p' = Some co'
          \<and> co_user co = co_user co' \<longrightarrow> p = p')
     \<and> (\<forall>u. (\<forall>p co. running m p = Some co \<longrightarrow> co_user co \<noteq> u) \<longrightarrow>
          userLocks m u = None \<and> userQueues m u = None)
     \<and> (\<forall>u q. userQueues m u = Some q \<longrightarrow> q < next_array m \<and> heap m q \<noteq> None)
     \<and> (\<forall>u u' q. userQueues m u = Some q \<and> userQueues m u' = Some q \<longrightarrow> u = u')"

text \<open>
  The same, at the loop head of the \<^verbatim>\<open>handleQueue\<close> with number \<open>pid\<close> for user
  \<open>u\<close> and array \<open>q\<close>: nothing is said about the lock of \<open>u\<close> and about \<open>pid\<close> itself.
\<close>

definition owner_pre :: "nat \<Rightarrow> user_id \<Rightarrow> nat \<Rightarrow> 'adm machine \<Rightarrow> bool" where
  "owner_pre pid u q m \<longleftrightarrow>
     pid < next_pid m \<and> userQueues m u = Some q
     \<and> (\<forall>p co. running m p = Some co \<and> p \<noteq> pid \<longrightarrow>
          p < next_pid m \<and> co_user co \<noteq> u \<and> userLocks m (co_user co) = Some True
          \<and> userQueues m (co_user co) = Some (co_queue co))
     \<and> (\<forall>p p' co co'. p \<noteq> pid \<and> p' \<noteq> pid \<and> running m p = Some co \<and> running m p' = Some co'
          \<and> co_user co = co_user co' \<longrightarrow> p = p')
     \<and> (\<forall>u'. u' \<noteq> u \<and> (\<forall>p co. running m p = Some co \<and> p \<noteq> pid \<longrightarrow> co_user co \<noteq> u') \<longrightarrow>
          userLocks m u' = None \<and> userQueues m u' = None)
     \<and> (\<forall>u q. userQueues m u = Some q \<longrightarrow> q < next_array m \<and> heap m q \<noteq> None)
     \<and> (\<forall>u u' q. userQueues m u = Some q \<and> userQueues m u' = Some q \<longrightarrow> u = u')"

text \<open>The \<^verbatim>\<open>setInterval\<close> of \<^verbatim>\<open>handleQueue\<close>, where the variant has one.\<close>

definition with_timer :: "'adm variant \<Rightarrow> ctx \<Rightarrow> 'adm machine \<Rightarrow> 'adm machine" where
  "with_timer v c m =
     (if heartbeat v
      then m\<lparr>timers := (timers m)(next_timer m \<mapsto> c), next_timer := Suc (next_timer m),
             trace := trace m @ [IntervalSet (next_timer m)]\<rparr>
      else m)"

text \<open>
  Order: \<open>served u tr\<close> lists the arrival numbers of the tasks of user \<open>u\<close> in the order
  in which the effects of \<open>tr\<close> touch them (a call of \<^verbatim>\<open>typing\<close> or \<^verbatim>\<open>toAsk\<close> for
  the task, a fragment, a log entry).
\<close>

fun task_of :: "effect \<Rightarrow> ctx option" where
  "task_of (Typing c) = Some c"
| "task_of (Asked c) = Some c"
| "task_of (Answered c r) = Some c"
| "task_of (Sent c b) = Some c"
| "task_of (SendFailed c b) = Some c"
| "task_of (Logged c) = Some c"
| "task_of e = None"

fun served :: "user_id \<Rightarrow> effect list \<Rightarrow> nat list" where
  "served u [] = []"
| "served u (e # es) =
     (case task_of e of
        None \<Rightarrow> served u es
      | Some c \<Rightarrow> if ctx_from c = u then ctx_seq c # served u es else served u es)"


text \<open>
  The effects of each user are in arrival order and name only messages that have
  arrived; the task of a suspended \<^verbatim>\<open>handleQueue\<close> is the latest one served for its
  user; its array holds later messages of that user, oldest first.
\<close>

definition order_ok :: "'adm machine \<Rightarrow> bool" where
  "order_ok m \<longleftrightarrow>
     (\<forall>u. sorted (served u (trace m)))
     \<and> (\<forall>u. \<forall>n\<in>set (served u (trace m)). n < arrivals m)
     \<and> (\<forall>p co. running m p = Some co \<longrightarrow>
          ctx_from (co_task co) = co_user co \<and> ctx_seq (co_task co) < arrivals m
          \<and> (\<forall>n\<in>set (served (co_user co) (trace m)). n \<le> ctx_seq (co_task co)))
     \<and> (\<forall>p co xs. running m p = Some co \<and> heap m (co_queue co) = Some xs \<longrightarrow>
          sorted_wrt (<) (map ctx_seq xs)
          \<and> (\<forall>x\<in>set xs. ctx_from x = co_user co \<and> ctx_seq (co_task co) < ctx_seq x
                \<and> ctx_seq x < arrivals m))"

text \<open>The same at the loop head of \<open>pid\<close>, whose array \<open>q\<close> holds what is still to serve.\<close>

definition order_pre :: "nat \<Rightarrow> user_id \<Rightarrow> nat \<Rightarrow> 'adm machine \<Rightarrow> bool" where
  "order_pre pid u q m \<longleftrightarrow>
     (\<forall>u. sorted (served u (trace m)))
     \<and> (\<forall>u. \<forall>n\<in>set (served u (trace m)). n < arrivals m)
     \<and> (\<forall>p co. running m p = Some co \<and> p \<noteq> pid \<longrightarrow>
          co_user co \<noteq> u \<and> co_queue co \<noteq> q
          \<and> ctx_from (co_task co) = co_user co \<and> ctx_seq (co_task co) < arrivals m
          \<and> (\<forall>n\<in>set (served (co_user co) (trace m)). n \<le> ctx_seq (co_task co)))
     \<and> (\<forall>p co xs. running m p = Some co \<and> p \<noteq> pid \<and> heap m (co_queue co) = Some xs \<longrightarrow>
          sorted_wrt (<) (map ctx_seq xs)
          \<and> (\<forall>x\<in>set xs. ctx_from x = co_user co \<and> ctx_seq (co_task co) < ctx_seq x
                \<and> ctx_seq x < arrivals m))
     \<and> (\<forall>xs. heap m q = Some xs \<longrightarrow>
          sorted_wrt (<) (map ctx_seq xs)
          \<and> (\<forall>x\<in>set xs. ctx_from x = u \<and> ctx_seq x < arrivals m
                \<and> (\<forall>n\<in>set (served u (trace m)). n < ctx_seq x)))"

text \<open>
  Intervals: the numbers of the intervals set and cleared in a trace, in order, and the
  \<^verbatim>\<open>typing\<close> calls made for a user (by a task or by an interval).
\<close>

fun intervals_set :: "effect list \<Rightarrow> nat list" where
  "intervals_set [] = []"
| "intervals_set (IntervalSet t # es) = t # intervals_set es"
| "intervals_set (e # es) = intervals_set es"

fun intervals_cleared :: "effect list \<Rightarrow> nat list" where
  "intervals_cleared [] = []"
| "intervals_cleared (IntervalCleared t # es) = t # intervals_cleared es"
| "intervals_cleared (e # es) = intervals_cleared es"


text \<open>
  In a variant with a heartbeat, every \<^verbatim>\<open>handleQueue\<close> that passes the lock check
  sets one interval, so intervals and \<^verbatim>\<open>handleQueue\<close> runs are numbered alike. Every
  suspended \<^verbatim>\<open>handleQueue\<close> owns the live interval of its number, set with a
  \<^verbatim>\<open>ctx\<close> of its user; every live interval belongs to a suspended
  \<^verbatim>\<open>handleQueue\<close>; the intervals set so far are \<open>0, 1, \<dots>\<close>, each set once; and the
  intervals cleared so far are, each once, the ones that are not live any more.
\<close>

definition timers_ok :: "'adm machine \<Rightarrow> bool" where
  "timers_ok m \<longleftrightarrow>
     next_timer m = next_pid m
     \<and> (\<forall>p co. running m p = Some co \<longrightarrow>
          co_timer co = Some p \<and> (\<exists>c. timers m p = Some c \<and> ctx_from c = co_user co))
     \<and> (\<forall>t c. timers m t = Some c \<longrightarrow> running m t \<noteq> None)
     \<and> intervals_set (trace m) = [0..<next_timer m]
     \<and> distinct (intervals_cleared (trace m))
     \<and> set (intervals_cleared (trace m)) = {t. t < next_timer m \<and> timers m t = None}"


text \<open>No \<^verbatim>\<open>handleQueue\<close> is running for the user.\<close>

definition idle :: "user_id \<Rightarrow> 'adm machine \<Rightarrow> bool" where
  "idle u m \<longleftrightarrow> (\<forall>p co. running m p = Some co \<longrightarrow> co_user co \<noteq> u)"

text \<open>
  The event is a message of the user that the running process lets pass the admission
  check, so that \<^verbatim>\<open>welcomeFlow\<close> pushes it; and a run of events in which no message of
  the user is pushed.
\<close>

fun enqueues :: "'adm variant \<Rightarrow> user_id \<Rightarrow> event \<Rightarrow> 'adm machine \<Rightarrow> bool" where
  "enqueues v u (Message u' body clk) m =
     (\<not> halted m \<and> u' = u \<and> fst (admission v clk u' (adm m)) = Admitted)"
| "enqueues v u ev m = False"


text \<open>The suspended \<^verbatim>\<open>handleQueue\<close>s that wait for \<^verbatim>\<open>toAsk\<close> on behalf of a user.\<close>

definition in_flight :: "user_id \<Rightarrow> 'adm machine \<Rightarrow> nat set" where
  "in_flight u m = {p. \<exists>co. running m p = Some co \<and> co_user co = u \<and> co_pc co = AwaitAsk}"



section \<open>part\_001: the queue inside the stored object, step by step\<close>

text \<open>
  part\_001 keeps a user's queue and the flag \<^verbatim>\<open>processing\<close> inside the
  \<^verbatim>\<open>UserMessageInfo\<close> object that \<^verbatim>\<open>userMessageInfo\<close> stores for the user, the
  object that \<^verbatim>\<open>rateLimitUser\<close> replaces when the window has elapsed and that the
  bounded store may evict. A suspended \<^verbatim>\<open>handleQueue\<close> keeps its locals
  \<^verbatim>\<open>userInfo\<close> and \<^verbatim>\<open>queue\<close>, references into the heap. The machine has one
  transition for each stretch of code between two \<^verbatim>\<open>await\<close>s, as above; here
  \<^verbatim>\<open>welcomeFlow\<close> itself can be suspended, at the \<^verbatim>\<open>flowDynamic\<close> call of the
  limit message, of the threshold notification, or of its \<^verbatim>\<open>catch\<close>.
\<close>

datatype task_pc = TaskTyping | TaskAsk | TaskSend jsstring "jsstring list" | TaskNotice | DrainNotice

datatype flow_pc = FlowLimit | FlowThreshold int | FlowNotice

record drain =
  d_user :: user_id
  d_ctx :: ctx
  d_userInfo :: nat
  d_queue :: nat
  d_timer :: nat
  d_task :: ctx
  d_pc :: task_pc

datatype proc = Drain drain | Flow ctx flow_pc

record p1_machine =
  store :: p1_heap
  timers_p1 :: "nat \<rightharpoonup> ctx"
  next_timer_p1 :: nat
  running_p1 :: "nat \<rightharpoonup> proc"
  next_pid_p1 :: nat
  arrivals_p1 :: nat
  trace_p1 :: "effect list"

definition initial_p1 :: p1_machine where
  "initial_p1 =
     \<lparr>store = p1_init, timers_p1 = Map.empty, next_timer_p1 = 0, running_p1 = Map.empty,
      next_pid_p1 = 0, arrivals_p1 = 0, trace_p1 = []\<rparr>"

text \<open>\<^verbatim>\<open>getNotificationMessage()\<close> (part\_001 167-169), with its two constants filled in.\<close>

definition notification_message :: jsstring where
  "notification_message =
     js (''Debido a que es un servicio gratuito actualmente tenemos un limite de 20 mensajes '' @
         ''por cada 24-horas. Haz usado 15 mensajes, te quedan 5 interacciones en este periodo.'')"

text \<open>\<^verbatim>\<open>userInfo.processing = b\<close> on the object at \<open>r\<close>.\<close>

definition set_processing :: "nat \<Rightarrow> bool \<Rightarrow> p1_heap \<Rightarrow> p1_heap" where
  "set_processing r b s =
     (case objects s r of
        None \<Rightarrow> s
      | Some info \<Rightarrow> s\<lparr>objects := (objects s)(r \<mapsto> info\<lparr>info_processing := b\<rparr>)\<rparr>)"

text \<open>
  The head of the \<^verbatim>\<open>while (queue.length > 0)\<close> loop of \<^verbatim>\<open>handleQueue\<close> (part\_001
  247-262), up to the next \<^verbatim>\<open>await\<close>. With a task in the array \<^verbatim>\<open>queue\<close>:
  \<^verbatim>\<open>userInfo.processing = true\<close>, the task is shifted and \<^verbatim>\<open>processUserMessage\<close>
  starts with \<^verbatim>\<open>await typing(ctx, provider)\<close>. With an empty array:
  \<^verbatim>\<open>clearInterval\<close>, \<^verbatim>\<open>userInfo.queue = []\<close> (a new array) and
  \<^verbatim>\<open>userMessageInfo.set(userId, userInfo)\<close>, and the function returns.
\<close>

definition loop_p1 :: "nat \<Rightarrow> drain \<Rightarrow> p1_machine \<Rightarrow> p1_machine" where
  "loop_p1 pid d m =
     (case arrays (store m) (d_queue d) of
        Some (c # rest) \<Rightarrow>
          m\<lparr>store := (set_processing (d_userInfo d) True (store m))
                        \<lparr>arrays := (arrays (store m))(d_queue d \<mapsto> rest)\<rparr>,
            running_p1 := (running_p1 m)(pid \<mapsto> Drain (d\<lparr>d_task := c, d_pc := TaskTyping\<rparr>)),
            trace_p1 := trace_p1 m @ [Typing c]\<rparr>
      | _ \<Rightarrow>
          (let s = store m; q = next_ref s
           in m\<lparr>timers_p1 := (timers_p1 m)(d_timer d := None),
                store := s\<lparr>objects := (case objects s (d_userInfo d) of
                                           None \<Rightarrow> objects s
                                         | Some info \<Rightarrow>
                                             (objects s)(d_userInfo d \<mapsto> info\<lparr>info_queue := q\<rparr>)),
                           arrays := (arrays s)(q \<mapsto> []),
                           next_ref := q + 1,
                           userMessageInfo :=
                             SimpleLRUCache_set (d_user d) (d_userInfo d) (userMessageInfo s)\<rparr>,
                running_p1 := (running_p1 m)(pid := None),
                trace_p1 := trace_p1 m @ [IntervalCleared (d_timer d)]\<rparr>))"

text \<open>
  The start of \<^verbatim>\<open>handleQueue(userId, ctx, provider)\<close> (part\_001 236-245), called by
  the \<^verbatim>\<open>welcomeFlow\<close> with number \<open>pid\<close> for its own \<^verbatim>\<open>ctx\<close>:
  \<^verbatim>\<open>userMessageInfo.get(userId)\<close>, return when \<^verbatim>\<open>userInfo?.processing\<close>, else
  \<^verbatim>\<open>setInterval\<close> and the loop on \<^verbatim>\<open>userInfo.queue\<close>. Without an object for the
  user the loop runs on a new empty array, the interval is cleared, and
  \<^verbatim>\<open>userInfo.queue = []\<close> throws into the \<^verbatim>\<open>catch\<close> of \<^verbatim>\<open>welcomeFlow\<close>.
\<close>

definition handleQueue_p1 :: "nat \<Rightarrow> ctx \<Rightarrow> p1_machine \<Rightarrow> p1_machine" where
  "handleQueue_p1 pid c0 m =
     (let t = next_timer_p1 m in
      case lookup_info (ctx_from c0) (store m) of
        (None, s1) \<Rightarrow>
          m\<lparr>store := s1, next_timer_p1 := Suc t,
            running_p1 := (running_p1 m)(pid \<mapsto> Flow c0 FlowNotice),
            trace_p1 := trace_p1 m @ [IntervalSet t, IntervalCleared t, Logged c0]\<rparr>
      | (Some (r, info), s1) \<Rightarrow>
          if info_processing info then m\<lparr>store := s1\<rparr>
          else loop_p1 pid
                 \<lparr>d_user = ctx_from c0, d_ctx = c0, d_userInfo = r, d_queue = info_queue info,
                  d_timer = t, d_task = c0, d_pc = TaskTyping\<rparr>
                 (m\<lparr>store := s1, timers_p1 := (timers_p1 m)(t \<mapsto> c0), next_timer_p1 := Suc t,
                    trace_p1 := trace_p1 m @ [IntervalSet t]\<rparr>))"

text \<open>
  The end of one loop iteration: \<^verbatim>\<open>finally\<close> sets \<^verbatim>\<open>userInfo.processing = false\<close>
  on the object the \<^verbatim>\<open>handleQueue\<close> holds, and the loop head follows.
\<close>

definition task_done_p1 :: "nat \<Rightarrow> drain \<Rightarrow> p1_machine \<Rightarrow> p1_machine" where
  "task_done_p1 pid d m = loop_p1 pid d (m\<lparr>store := set_processing (d_userInfo d) False (store m)\<rparr>)"

text \<open>
  \<^verbatim>\<open>welcomeFlow\<close> from line 286 on, for the message \<open>c\<close> and with
  \<^verbatim>\<open>rateLimitResult.count = cnt\<close>: a new object when the store does not have the user,
  \<^verbatim>\<open>userMessageInfo.get\<close>, the push on \<^verbatim>\<open>userInfo.queue\<close>, and
  \<^verbatim>\<open>handleQueue\<close> when \<^verbatim>\<open>!userInfo.processing && userInfo.queue.length === 1\<close>.
  An \<^verbatim>\<open>undefined\<close> \<^verbatim>\<open>userInfo\<close> or queue would throw into the \<^verbatim>\<open>catch\<close>.
\<close>

definition enqueue_p1 :: "nat \<Rightarrow> ctx \<Rightarrow> int \<Rightarrow> int \<Rightarrow> p1_machine \<Rightarrow> p1_machine" where
  "enqueue_p1 pid c cnt now m =
     (let userId = ctx_from c; s = store m;
          s1 = (if SimpleLRUCache_has userId (userMessageInfo s) then s
                else snd (new_info userId cnt now s));
          thrown = (\<lambda>s2. m\<lparr>store := s2,
                            running_p1 := (running_p1 m)(pid \<mapsto> Flow c FlowNotice),
                            trace_p1 := trace_p1 m @ [Logged c]\<rparr>)
      in case lookup_info userId s1 of
           (None, s2) \<Rightarrow> thrown s2
         | (Some (r, info), s2) \<Rightarrow>
             (case arrays s2 (info_queue info) of
                None \<Rightarrow> thrown s2
              | Some xs \<Rightarrow>
                  (let m2 = m\<lparr>store := s2\<lparr>arrays := (arrays s2)(info_queue info \<mapsto> xs @ [c])\<rparr>\<rparr>
                   in if \<not> info_processing info \<and> length (xs @ [c]) = 1
                      then handleQueue_p1 pid c m2
                      else m2)))"

text \<open>
  \<^verbatim>\<open>welcomeFlow\<close> for one inbound message (part\_001 267-284), at clock reading
  \<open>now\<close>: \<^verbatim>\<open>rateLimitUser\<close>; a refused user gets the limit message; at
  \<^verbatim>\<open>count === NOTIFICATION_THRESHOLD\<close> the notification is awaited first. Every
  \<^verbatim>\<open>welcomeFlow\<close> gets the next process number.
\<close>

definition welcomeFlow_p1 :: "user_id \<Rightarrow> jsstring \<Rightarrow> int \<Rightarrow> p1_machine \<Rightarrow> p1_machine" where
  "welcomeFlow_p1 userId body now m =
     (let c = \<lparr>ctx_from = userId, ctx_body = body, ctx_seq = arrivals_p1 m\<rparr>;
          pid = next_pid_p1 m
      in case rateLimitUser_p1 now userId (store m) of
           (res, s1) \<Rightarrow>
             (let m1 = m\<lparr>store := s1, arrivals_p1 := Suc (arrivals_p1 m), next_pid_p1 := Suc pid\<rparr>
              in if \<not> allowed res
                 then m1\<lparr>running_p1 := (running_p1 m1)(pid \<mapsto> Flow c FlowLimit)\<rparr>
                 else if result_count res = NOTIFICATION_THRESHOLD
                 then m1\<lparr>running_p1 := (running_p1 m1)(pid \<mapsto> Flow c (FlowThreshold (result_count res)))\<rparr>
                 else enqueue_p1 pid c (result_count res) now m1))"

text \<open>
  The awaited call of a suspended function settles, at clock reading \<open>now\<close>.
  In \<^verbatim>\<open>processUserMessage\<close> (part\_001 197-223) every failure, an empty response
  included, goes to its \<^verbatim>\<open>catch\<close>, which logs and awaits the failure notice; a
  rejection there reaches the \<^verbatim>\<open>catch\<close> of \<^verbatim>\<open>handleQueue\<close> (252-254), which does
  the same; a rejection there leaves \<^verbatim>\<open>handleQueue\<close> after \<^verbatim>\<open>finally\<close>, without
  \<^verbatim>\<open>clearInterval\<close>, for the \<^verbatim>\<open>catch\<close> of the \<^verbatim>\<open>welcomeFlow\<close> that called it. The
  limit message is recorded as \<open>Refused\<close>, without its text.
\<close>

definition settle_p1 :: "nat \<Rightarrow> settlement \<Rightarrow> int \<Rightarrow> p1_machine \<Rightarrow> p1_machine" where
  "settle_p1 pid outcome now m =
     (let say = (\<lambda>es. m\<lparr>trace_p1 := trace_p1 m @ es\<rparr>);
          goto = (\<lambda>p m'. m'\<lparr>running_p1 := (running_p1 m')(pid \<mapsto> p)\<rparr>);
          finish = (\<lambda>m'. m'\<lparr>running_p1 := (running_p1 m')(pid := None)\<rparr>)
      in case running_p1 m pid of
           None \<Rightarrow> m
         | Some (Flow c FlowLimit) \<Rightarrow>
             (case outcome of
                Resolved x \<Rightarrow> finish (say [Refused c])
              | Rejected \<Rightarrow> goto (Flow c FlowNotice) (say [Logged c]))
         | Some (Flow c (FlowThreshold cnt)) \<Rightarrow>
             (case outcome of
                Resolved x \<Rightarrow> enqueue_p1 pid c cnt now (finish (say [Sent c notification_message]))
              | Rejected \<Rightarrow>
                  goto (Flow c FlowNotice) (say [SendFailed c notification_message, Logged c]))
         | Some (Flow c FlowNotice) \<Rightarrow>
             (case outcome of
                Resolved x \<Rightarrow> finish (say [Sent c failure_notice])
              | Rejected \<Rightarrow> finish (say [SendFailed c failure_notice]))
         | Some (Drain d) \<Rightarrow>
             (let c = d_task d; caught = (\<lambda>es. goto (Drain (d\<lparr>d_pc := TaskNotice\<rparr>)) (say (es @ [Logged c])))
              in case d_pc d of
                   TaskTyping \<Rightarrow>
                     (case outcome of
                        Resolved x \<Rightarrow> goto (Drain (d\<lparr>d_pc := TaskAsk\<rparr>)) (say [Asked c])
                      | Rejected \<Rightarrow> caught [])
                 | TaskAsk \<Rightarrow>
                     (case outcome of
                        Resolved response \<Rightarrow>
                          if response = [] then caught []
                          else (case chunks_p1 response of
                                  [] \<Rightarrow> task_done_p1 pid d m
                                | b # bs \<Rightarrow> goto (Drain (d\<lparr>d_pc := TaskSend b bs\<rparr>)) m)
                      | Rejected \<Rightarrow> caught [])
                 | TaskSend b bs \<Rightarrow>
                     (case outcome of
                        Resolved x \<Rightarrow>
                          (case bs of
                             [] \<Rightarrow> task_done_p1 pid d (say [Sent c b])
                           | b' # bs' \<Rightarrow> goto (Drain (d\<lparr>d_pc := TaskSend b' bs'\<rparr>)) (say [Sent c b]))
                      | Rejected \<Rightarrow> caught [SendFailed c b])
                 | TaskNotice \<Rightarrow>
                     (case outcome of
                        Resolved x \<Rightarrow> task_done_p1 pid d (say [Sent c failure_notice])
                      | Rejected \<Rightarrow>
                          goto (Drain (d\<lparr>d_pc := DrainNotice\<rparr>))
                            (say [SendFailed c failure_notice, Logged c]))
                 | DrainNotice \<Rightarrow>
                     (case outcome of
                        Resolved x \<Rightarrow> task_done_p1 pid d (say [Sent c failure_notice])
                      | Rejected \<Rightarrow>
                          goto (Flow (d_ctx d) FlowNotice)
                            ((say [SendFailed c failure_notice, Logged (d_ctx d)])
                               \<lparr>store := set_processing (d_userInfo d) False (store m)\<rparr>))))"

definition tick_p1 :: "nat \<Rightarrow> p1_machine \<Rightarrow> p1_machine" where
  "tick_p1 t m =
     (case timers_p1 m t of None \<Rightarrow> m | Some c \<Rightarrow> m\<lparr>trace_p1 := trace_p1 m @ [Heartbeat c]\<rparr>)"

datatype event_p1 = Message_p1 user_id jsstring int | Settle_p1 nat settlement int | Tick_p1 nat

fun step_p1 :: "event_p1 \<Rightarrow> p1_machine \<Rightarrow> p1_machine" where
  "step_p1 (Message_p1 userId body now) m = welcomeFlow_p1 userId body now m"
| "step_p1 (Settle_p1 pid outcome now) m = settle_p1 pid outcome now m"
| "step_p1 (Tick_p1 t) m = tick_p1 t m"

definition exec_p1 :: "event_p1 list \<Rightarrow> p1_machine \<Rightarrow> p1_machine" where
  "exec_p1 evs m = foldl (\<lambda>m' ev. step_p1 ev m') m evs"

text \<open>
  The processes that wait for \<^verbatim>\<open>toAsk\<close> on behalf of a user, by number, and the tasks
  they have asked for.
\<close>

definition asking_p1 :: "user_id \<Rightarrow> p1_machine \<Rightarrow> (nat \<times> ctx) list" where
  "asking_p1 u m =
     concat (map (\<lambda>p. case running_p1 m p of
                        Some (Drain d) \<Rightarrow>
                          if d_user d = u \<and> d_pc d = TaskAsk then [(p, d_task d)] else []
                      | _ \<Rightarrow> [])
                 [0..<next_pid_p1 m])"

text \<open>
  A run of part\_001: a first message at time 0, answered; a second message one second
  before the 24 hours of the window are over, which is with \<^verbatim>\<open>toAsk\<close> when the third
  message arrives, half a second after the 24 hours.
\<close>

definition window_run :: "event_p1 list" where
  "window_run =
     [Message_p1 ''5215550001'' [104] 0,
      Settle_p1 0 (Resolved []) 200,
      Settle_p1 0 (Resolved [97]) 3000,
      Settle_p1 0 (Resolved []) 3200,
      Message_p1 ''5215550001'' [105] (RESET_PERIOD - 1000),
      Settle_p1 1 (Resolved []) (RESET_PERIOD - 800),
      Message_p1 ''5215550001'' [106] (RESET_PERIOD + 500),
      Settle_p1 2 (Resolved []) (RESET_PERIOD + 700)]"

text \<open>
  The settlement ends the task of the suspended \<^verbatim>\<open>handleQueue\<close>: a rejection (the
  \<^verbatim>\<open>catch\<close> of the loop follows), the last fragment sent, or a response without
  fragments.
\<close>

definition task_ends :: "'adm variant \<Rightarrow> coroutine \<Rightarrow> settlement \<Rightarrow> bool" where
  "task_ends v co outcome =
     (case outcome of
        Rejected \<Rightarrow> True
      | Resolved x \<Rightarrow>
          (case co_pc co of
             AwaitTyping \<Rightarrow> False
           | AwaitAsk \<Rightarrow> chunks v x = []
           | AwaitSend b bs \<Rightarrow> bs = []))"





text \<open>
  What a settlement adds to the trace before the task goes on or ends, and the
  \<^verbatim>\<open>await\<close> at which a task that goes on is suspended next (read off \<open>settle\<close>).
\<close>

definition task_effects :: "coroutine \<Rightarrow> settlement \<Rightarrow> effect list" where
  "task_effects co outcome =
     (case co_pc co of
        AwaitTyping \<Rightarrow>
          (case outcome of Rejected \<Rightarrow> [] | Resolved x \<Rightarrow> [Asked (co_task co)])
      | AwaitAsk \<Rightarrow>
          (case outcome of Rejected \<Rightarrow> [] | Resolved x \<Rightarrow> [Answered (co_task co) x])
      | AwaitSend b bs \<Rightarrow>
          (case outcome of
             Rejected \<Rightarrow> [SendFailed (co_task co) b]
           | Resolved x \<Rightarrow> [Sent (co_task co) b]))"

definition next_pc :: "'adm variant \<Rightarrow> coroutine \<Rightarrow> settlement \<Rightarrow> pc" where
  "next_pc v co outcome =
     (case co_pc co of
        AwaitTyping \<Rightarrow> AwaitAsk
      | AwaitAsk \<Rightarrow>
          (case outcome of
             Rejected \<Rightarrow> AwaitAsk
           | Resolved x \<Rightarrow> (case chunks v x of [] \<Rightarrow> AwaitAsk | b # bs \<Rightarrow> AwaitSend b bs))
      | AwaitSend b bs \<Rightarrow> (case bs of [] \<Rightarrow> AwaitSend b bs | b' # bs' \<Rightarrow> AwaitSend b' bs'))"

text \<open>
  The messages of a user that wait in the user's array, oldest first; the tasks of a user
  that \<^verbatim>\<open>handleQueue\<close> has taken up, in that order; and the messages of a user that
  \<^verbatim>\<open>welcomeFlow\<close> pushes in the course of a run of events, in the order of arrival.
\<close>

definition pending :: "user_id \<Rightarrow> 'adm machine \<Rightarrow> ctx list" where
  "pending u m =
     (case userQueues m u of
        None \<Rightarrow> []
      | Some q \<Rightarrow> (case heap m q of None \<Rightarrow> [] | Some xs \<Rightarrow> xs))"

definition started_for :: "user_id \<Rightarrow> effect list \<Rightarrow> ctx list" where
  "started_for u tr = filter (\<lambda>c. ctx_from c = u) (started tr)"

fun admitted :: "'adm variant \<Rightarrow> user_id \<Rightarrow> event list \<Rightarrow> 'adm machine \<Rightarrow> ctx list" where
  "admitted v u [] m = []"
| "admitted v u (Message u' body clk # evs) m =
     (if enqueues v u (Message u' body clk) m
      then [\<lparr>ctx_from = u', ctx_body = body, ctx_seq = arrivals m\<rparr>]
      else [])
     @ admitted v u evs (step v (Message u' body clk) m)"
| "admitted v u (ev # evs) m = admitted v u evs (step v ev m)"

text \<open>
  The fragments sent to a user, each with the task it belongs to, in the order of sending;
  the fragments sent for one task; and whether a task is the one that a suspended
  \<^verbatim>\<open>handleQueue\<close> is processing.
\<close>

definition sent_to :: "user_id \<Rightarrow> effect list \<Rightarrow> (ctx \<times> jsstring) list" where
  "sent_to u tr = filter (\<lambda>cb. ctx_from (fst cb) = u) (sent tr)"

definition fragments_of :: "ctx \<Rightarrow> effect list \<Rightarrow> jsstring list" where
  "fragments_of c tr = map snd (filter (\<lambda>cb. fst cb = c) (sent tr))"

definition current :: "ctx \<Rightarrow> 'adm machine \<Rightarrow> bool" where
  "current c m \<longleftrightarrow> (\<exists>p co. running m p = Some co \<and> co_task co = c)"

text \<open>
  Answers: a task that waits for \<^verbatim>\<open>typing\<close> or \<^verbatim>\<open>toAsk\<close> has no answer and no
  fragment yet; a task that waits for \<^verbatim>\<open>flowDynamic\<close> has its answer, and the fragments
  sent for it, the one being sent and the ones still to send make up the fragments of that
  answer; a task has at most one answer; the fragments sent for a task are the first ones
  of its answer, and all of them once the task is over, unless a rejection ended it.
\<close>

definition answers_ok :: "'adm variant \<Rightarrow> 'adm machine \<Rightarrow> bool" where
  "answers_ok v m \<longleftrightarrow>
     (\<forall>p co. running m p = Some co \<and> (co_pc co = AwaitTyping \<or> co_pc co = AwaitAsk) \<longrightarrow>
        fragments_of (co_task co) (trace m) = []
        \<and> (\<forall>r. Answered (co_task co) r \<notin> set (trace m)))
     \<and> (\<forall>p co b bs. running m p = Some co \<and> co_pc co = AwaitSend b bs \<longrightarrow>
          (\<exists>r. Answered (co_task co) r \<in> set (trace m)
             \<and> fragments_of (co_task co) (trace m) @ b # bs = chunks v r))
     \<and> (\<forall>c r r'. Answered c r \<in> set (trace m) \<and> Answered c r' \<in> set (trace m) \<longrightarrow> r = r')
     \<and> (\<forall>c r. Answered c r \<in> set (trace m) \<longrightarrow>
          (\<exists>k. fragments_of c (trace m) = take k (chunks v r)))
     \<and> (\<forall>c r. Answered c r \<in> set (trace m) \<and> \<not> current c m \<and> Logged c \<notin> set (trace m) \<longrightarrow>
          fragments_of c (trace m) = chunks v r)
     \<and> (\<forall>c. (\<forall>r. Answered c r \<notin> set (trace m)) \<longrightarrow> fragments_of c (trace m) = [])"

text \<open>
  An example run of app.ts with three messages of one user: the second and the third
  arrive while the first is with \<^verbatim>\<open>toAsk\<close> and wait in the array. The first answer has
  two paragraphs, the \<^verbatim>\<open>toAsk\<close> call of the second task rejects, the third answer has
  one paragraph. \<open>queue_waits\<close> is the beginning of the run, up to the third message.
\<close>

definition queue_waits :: "event list" where
  "queue_waits =
     [Message ''5215550001'' [104] (day_clock 1000),
      Settle 0 (Resolved []),
      Message ''5215550001'' [105] (day_clock 2000),
      Message ''5215550001'' [106] (day_clock 3000)]"

definition queue_run :: "event list" where
  "queue_run =
     queue_waits @
     [Settle 0 (Resolved [97, LF, LF, 98]),
      Settle 0 (Resolved []),
      Settle 0 (Resolved []),
      Settle 0 (Resolved []),
      Settle 0 Rejected,
      Settle 0 (Resolved []),
      Settle 0 (Resolved [99]),
      Settle 0 (Resolved [])]"

chapter \<open>Properties\<close>

section \<open>part\_002: the counter only grows\<close>

lemma rateLimitUser_p2_counter:
  "counter_p2 (snd (rateLimitUser_p2 u s)) u' = (if u' = u then counter_p2 s u + 1 else counter_p2 s u')"
  by (simp add: rateLimitUser_p2_def counter_p2_def Let_def)

lemma rateLimitUser_p2_result:
  "fst (rateLimitUser_p2 u s) \<longleftrightarrow> counter_p2 s u < 30"
  by (auto simp add: rateLimitUser_p2_def counter_p2_def Let_def)

lemma banUser_p2_counter: "counter_p2 (banUser_p2 now u d s) u' = counter_p2 s u'"
  by (simp add: banUser_p2_def counter_p2_def)

lemma isUserBanned_p2_counter: "counter_p2 (snd (isUserBanned_p2 now u s)) u' = counter_p2 s u'"
  by (simp add: isUserBanned_p2_def counter_p2_def split: option.splits)

lemma admission_p2_counter: "counter_p2 s u' \<le> counter_p2 (snd (admission_p2 c u s)) u'"
  apply (simp add: admission_p2_def split: prod.splits bool.splits)
  by (metis banUser_p2_counter isUserBanned_p2_counter rateLimitUser_p2_counter snd_conv
        le_less less_add_one order_refl)

lemma p2_apply_mono: "counter_p2 s u \<le> counter_p2 (p2_apply op s) u"
  by (cases op) (simp_all add: banUser_p2_counter isUserBanned_p2_counter
      rateLimitUser_p2_counter admission_p2_counter)

lemma p2_run_mono: "counter_p2 s u \<le> counter_p2 (p2_run ops s) u"
  unfolding p2_run_def
proof (induction ops arbitrary: s)
  case Nil
  show ?case by simp
next
  case (Cons op ops)
  have "counter_p2 s u \<le> counter_p2 (p2_apply op s) u" by (rule p2_apply_mono)
  also have "\<dots> \<le> counter_p2 (foldl (\<lambda>s' op. p2_apply op s') (p2_apply op s) ops) u"
    by (rule Cons.IH)
  finally show ?case by simp
qed

text \<open>
  Claim C10. In part\_002, \<^verbatim>\<open>rateLimitUser\<close> adds one to the user's counter on every
  call; \<^verbatim>\<open>banUser\<close> and \<^verbatim>\<open>isUserBanned\<close> leave it alone and nothing resets it, so
  the counter never decreases along any sequence of operations (for any users, at any
  clock readings); once it exceeds 30, every later \<^verbatim>\<open>rateLimitUser\<close> call for that
  user returns false, whatever happened in between.
\<close>

theorem p2_counter_only_grows:
  "counter_p2 (snd (rateLimitUser_p2 u s)) u = counter_p2 s u + 1
   \<and> counter_p2 (banUser_p2 now u d s) u = counter_p2 s u
   \<and> counter_p2 (snd (isUserBanned_p2 now u s)) u = counter_p2 s u
   \<and> counter_p2 s u \<le> counter_p2 (p2_run ops s) u
   \<and> (30 < counter_p2 s u \<longrightarrow> \<not> fst (rateLimitUser_p2 u (p2_run ops s)))"
proof -
  have "30 < counter_p2 s u \<longrightarrow> \<not> fst (rateLimitUser_p2 u (p2_run ops s))"
    using p2_run_mono [of s u ops] by (simp add: rateLimitUser_p2_result)
  then show ?thesis
    by (simp add: rateLimitUser_p2_counter banUser_p2_counter isUserBanned_p2_counter p2_run_mono)
qed

theorem p2_counter_only_grows_witness:
  "30 < counter_p2 \<lparr>userMessageCounts = [''5215550001'' \<mapsto> 31], userBanList_p2 = Map.empty\<rparr> ''5215550001''
   \<and> \<not> fst (rateLimitUser_p2 ''5215550001''
        (p2_run [BanUser ''5215550001'' 0 3600000, IsUserBanned ''5215550001'' 3600001,
                 Admission ''5215550001'' \<lparr>at_check = 3600002, at_limit = 3600002, at_ban = 3600002\<rparr>]
           \<lparr>userMessageCounts = [''5215550001'' \<mapsto> 31], userBanList_p2 = Map.empty\<rparr>))"
proof -
  have h: "30 < counter_p2 \<lparr>userMessageCounts = [''5215550001'' \<mapsto> 31], userBanList_p2 = Map.empty\<rparr> ''5215550001''"
    by (simp add: counter_p2_def)
  show ?thesis
    using h p2_counter_only_grows [of "''5215550001''"
        "\<lparr>userMessageCounts = [''5215550001'' \<mapsto> 31], userBanList_p2 = Map.empty\<rparr>"]
    by blast
qed

section \<open>app.ts: a fresh window, the ban and its end\<close>

lemma isUserBanned_app_unbanned:
  "userBanList s u = None \<Longrightarrow> isUserBanned_app now u s = (False, s)"
  by (simp add: isUserBanned_app_def)

lemma admission_app_first:
  assumes "userMessageCount s u = None" "userBanList s u = None"
  shows "admission_app c u s =
    (Admitted, s\<lparr>userMessageCount := (userMessageCount s)(u \<mapsto> \<lparr>count = 1, firstMessageTime = at_limit c\<rparr>)\<rparr>)"
  using assms
  by (simp add: admission_app_def isUserBanned_app_def rateLimitUser_app_def Let_def
      MAX_MESSAGES_PER_DAY_def)

lemma admission_app_within:
  assumes "userMessageCount s u = Some \<lparr>count = k, firstMessageTime = f\<rparr>" "userBanList s u = None"
    and "at_limit c - f \<le> 24 * 60 * 60 * 1000"
  shows "admission_app c u s =
    (if k + 1 \<le> 20 then Admitted else Banned,
     (if k + 1 \<le> 20 then (\<lambda>x. x) else banUser_app (at_ban c) u BAN_DURATION)
     (s\<lparr>userMessageCount := (userMessageCount s)(u \<mapsto> \<lparr>count = k + 1, firstMessageTime = f\<rparr>)\<rparr>))"
  using assms
  by (simp add: admission_app_def isUserBanned_app_def rateLimitUser_app_def Let_def
      MAX_MESSAGES_PER_DAY_def)

lemma admissions_app_within:
  assumes "userMessageCount s u = Some \<lparr>count = k, firstMessageTime = f\<rparr>" "userBanList s u = None"
    and "\<forall>c\<in>set cs. at_limit c - f \<le> 24 * 60 * 60 * 1000"
    and "k + int (length cs) \<le> 20"
  shows "fst (admissions_app cs u s) = replicate (length cs) Admitted
    \<and> userMessageCount (snd (admissions_app cs u s)) u = Some \<lparr>count = k + int (length cs), firstMessageTime = f\<rparr>
    \<and> userBanList (snd (admissions_app cs u s)) u = None"
  using assms
proof (induction cs arbitrary: s k)
  case Nil
  then show ?case by simp
next
  case (Cons c cs)
  let ?s1 = "s\<lparr>userMessageCount := (userMessageCount s)(u \<mapsto> \<lparr>count = k + 1, firstMessageTime = f\<rparr>)\<rparr>"
  have step: "admission_app c u s = (Admitted, ?s1)"
    using Cons.prems by (simp add: admission_app_within)
  have "fst (admissions_app cs u ?s1) = replicate (length cs) Admitted
    \<and> userMessageCount (snd (admissions_app cs u ?s1)) u = Some \<lparr>count = (k + 1) + int (length cs), firstMessageTime = f\<rparr>
    \<and> userBanList (snd (admissions_app cs u ?s1)) u = None"
    using Cons.prems by (intro Cons.IH) simp_all
  then show ?case
    by (auto simp add: step split: prod.splits)
qed

lemma admissions_app_banned:
  assumes "userBanList s u = Some e" "e \<noteq> 0" "\<forall>c\<in>set ds. at_check c \<le> e"
  shows "admissions_app ds u s = (replicate (length ds) Ignored, s)"
  using assms
  by (induction ds) (simp_all add: admission_app_def isUserBanned_app_def)

lemma admission_app_after_ban:
  assumes "userMessageCount s u = Some \<lparr>count = k, firstMessageTime = f\<rparr>"
    and "userBanList s u = Some e"
    and "e < at_check c" "at_check c \<le> at_limit c" "f + 24 * 60 * 60 * 1000 \<le> e"
  shows "fst (admission_app c u s) = Admitted"
  using assms
  by (simp add: admission_app_def isUserBanned_app_def rateLimitUser_app_def Let_def
      MAX_MESSAGES_PER_DAY_def)

text \<open>
  Claim C4. In app.ts, for a user with no counter and no ban: the first 20 messages
  (\<open>c1\<close> and the 19 of \<open>cs\<close>, all read within 24 hours of the first) are admitted; the
  21st message \<open>c21\<close> within the window is denied and \<^verbatim>\<open>banUser\<close> stores the expiry
  \<^verbatim>\<open>Date.now() + BAN_DURATION\<close>; messages \<open>ds\<close> that arrive up to the expiry are ignored;
  and the first message \<open>c'\<close> read after the expiry is admitted again. The clock does not
  run backwards between the reads named in \<open>clock21\<close> and \<open>after\<close>.
\<close>

theorem app_fresh_window_ban_cycle:
  assumes fresh: "userMessageCount s u = None" "userBanList s u = None"
    and twenty: "length cs = 19"
    and window: "\<forall>c\<in>set (cs @ [c21]). at_limit c - at_limit c1 \<le> 24 * 60 * 60 * 1000"
    and clock21: "at_limit c1 \<le> at_limit c21" "at_limit c21 \<le> at_ban c21" "0 \<le> at_ban c21"
    and during: "\<forall>c\<in>set ds. at_check c \<le> at_ban c21 + BAN_DURATION"
    and after: "at_ban c21 + BAN_DURATION < at_check c'" "at_check c' \<le> at_limit c'"
  shows "(case admissions_app (c1 # cs) u s of (vs, s20) \<Rightarrow>
          vs = replicate 20 Admitted \<and>
          (case admission_app c21 u s20 of (v21, s21) \<Rightarrow>
             v21 = Banned \<and> userBanList s21 u = Some (at_ban c21 + BAN_DURATION) \<and>
             (case admissions_app ds u s21 of (vds, sd) \<Rightarrow>
                vds = replicate (length ds) Ignored \<and>
                fst (admission_app c' u sd) = Admitted)))"
proof -
  let ?f = "at_limit c1"
  let ?s1 = "s\<lparr>userMessageCount := (userMessageCount s)(u \<mapsto> \<lparr>count = 1, firstMessageTime = ?f\<rparr>)\<rparr>"
  obtain vs s20 where run20: "admissions_app cs u ?s1 = (vs, s20)"
    by (cases "admissions_app cs u ?s1")
  have first: "admission_app c1 u s = (Admitted, ?s1)"
    using fresh by (rule admission_app_first)
  have "fst (admissions_app cs u ?s1) = replicate (length cs) Admitted
    \<and> userMessageCount (snd (admissions_app cs u ?s1)) u = Some \<lparr>count = 1 + int (length cs), firstMessageTime = ?f\<rparr>
    \<and> userBanList (snd (admissions_app cs u ?s1)) u = None"
    using fresh twenty window by (intro admissions_app_within) simp_all
  then have vs: "vs = replicate 19 Admitted"
    and s20: "userMessageCount s20 u = Some \<lparr>count = 20, firstMessageTime = ?f\<rparr>" "userBanList s20 u = None"
    using run20 twenty by simp_all
  let ?s20' = "s20\<lparr>userMessageCount := (userMessageCount s20)(u \<mapsto> \<lparr>count = 20 + 1, firstMessageTime = ?f\<rparr>)\<rparr>"
  let ?s21 = "banUser_app (at_ban c21) u BAN_DURATION ?s20'"
  have step21: "admission_app c21 u s20 = (Banned, ?s21)"
    using s20 window by (simp add: admission_app_within)
  have ban21: "userBanList ?s21 u = Some (at_ban c21 + BAN_DURATION)"
    and cnt21: "userMessageCount ?s21 u = Some \<lparr>count = 21, firstMessageTime = ?f\<rparr>"
    by (simp_all add: banUser_app_def)
  have pos: "at_ban c21 + BAN_DURATION \<noteq> 0"
    using clock21 by (simp add: BAN_DURATION_def)
  have ign: "admissions_app ds u ?s21 = (replicate (length ds) Ignored, ?s21)"
    using ban21 pos during by (rule admissions_app_banned)
  have "?f + 24 * 60 * 60 * 1000 \<le> at_ban c21 + BAN_DURATION"
    using clock21 by (simp add: BAN_DURATION_def)
  then have last: "fst (admission_app c' u ?s21) = Admitted"
    using cnt21 ban21 after by (intro admission_app_after_ban [where k = 21 and f = ?f]) simp_all
  show ?thesis
    using first run20 vs step21 ban21 ign last by (simp add: numeral_eq_Suc)
qed

theorem app_fresh_window_ban_cycle_witness:
  "(case admissions_app (day_clock 1000 # map (\<lambda>i. day_clock (1000 + int i)) [1..<20]) ''5215550001''
         \<lparr>userMessageCount = Map.empty, userBanList = Map.empty\<rparr> of (vs, s20) \<Rightarrow>
          vs = replicate 20 Admitted \<and>
          (case admission_app (day_clock 2000) ''5215550001'' s20 of (v21, s21) \<Rightarrow>
             v21 = Banned \<and> userBanList s21 ''5215550001'' = Some (at_ban (day_clock 2000) + BAN_DURATION) \<and>
             (case admissions_app [day_clock 3000, day_clock 86402000] ''5215550001'' s21 of (vds, sd) \<Rightarrow>
                vds = replicate (length [day_clock 3000, day_clock 86402000]) Ignored \<and>
                fst (admission_app (day_clock 86402001) ''5215550001'' sd) = Admitted)))"
proof -
  let ?s = "\<lparr>userMessageCount = Map.empty, userBanList = Map.empty\<rparr>"
  let ?cs = "map (\<lambda>i. day_clock (1000 + int i)) [1..<20]"
  have fresh: "userMessageCount ?s ''5215550001'' = None" "userBanList ?s ''5215550001'' = None"
    by simp_all
  have twenty: "length ?cs = 19" by simp
  have window: "\<forall>c\<in>set (?cs @ [day_clock 2000]). at_limit c - at_limit (day_clock 1000) \<le> 24 * 60 * 60 * 1000"
    by (auto simp add: day_clock_def)
  have clock21: "at_limit (day_clock 1000) \<le> at_limit (day_clock 2000)"
    "at_limit (day_clock 2000) \<le> at_ban (day_clock 2000)" "0 \<le> at_ban (day_clock 2000)"
    by (simp_all add: day_clock_def)
  have during: "\<forall>c\<in>set [day_clock 3000, day_clock 86402000]. at_check c \<le> at_ban (day_clock 2000) + BAN_DURATION"
    by (simp add: day_clock_def BAN_DURATION_def)
  have after: "at_ban (day_clock 2000) + BAN_DURATION < at_check (day_clock 86402001)"
    "at_check (day_clock 86402001) \<le> at_limit (day_clock 86402001)"
    by (simp_all add: day_clock_def BAN_DURATION_def)
  show ?thesis
    by (rule app_fresh_window_ban_cycle [OF fresh twenty window clock21 during after])
qed

section \<open>Ban expiry as the three variants observe it\<close>

text \<open>
  At \<^verbatim>\<open>Date.now() = banExpiry\<close> app.ts still answers "banned" and keeps the entry.
\<close>

theorem isUserBanned_boundary_counterexample:
  "isUserBanned_app 1700000000000 ''5215550001''
      \<lparr>userMessageCount = Map.empty, userBanList = [''5215550001'' \<mapsto> 1700000000000]\<rparr>
    = (True, \<lparr>userMessageCount = Map.empty, userBanList = [''5215550001'' \<mapsto> 1700000000000]\<rparr>)"
  by (simp add: isUserBanned_app_def)

text \<open>
  Claim C9, as the code has it. In app.ts and part\_002, a call to \<^verbatim>\<open>isUserBanned\<close>
  for a user whose stored expiry (a non-zero number) lies strictly before the clock reading
  deletes the entry and returns false; the call returns true exactly while the reading is
  at most the expiry (so also at the expiry itself), and then leaves the maps as they
  are. In part\_000 the call returns true exactly while the expiry lies strictly after
  the reading, and the function never writes the map. Expiry is decided by the call
  itself in all three.
\<close>

theorem isUserBanned_expiry:
  "(userBanList s u = Some e \<and> e \<noteq> 0 \<and> e < now \<longrightarrow>
      isUserBanned_app now u s = (False, s\<lparr>userBanList := (userBanList s)(u := None)\<rparr>))
   \<and> (fst (isUserBanned_app now u s) \<longleftrightarrow> (\<exists>e'. userBanList s u = Some e' \<and> e' \<noteq> 0 \<and> now \<le> e'))
   \<and> (fst (isUserBanned_app now u s) \<longrightarrow> snd (isUserBanned_app now u s) = s)
   \<and> (userBanList_p2 s2 u = Some e \<and> e \<noteq> 0 \<and> e < now \<longrightarrow>
      isUserBanned_p2 now u s2 = (False, s2\<lparr>userBanList_p2 := (userBanList_p2 s2)(u := None)\<rparr>))
   \<and> (fst (isUserBanned_p2 now u s2) \<longleftrightarrow> (\<exists>e'. userBanList_p2 s2 u = Some e' \<and> e' \<noteq> 0 \<and> now \<le> e'))
   \<and> (fst (isUserBanned_p2 now u s2) \<longrightarrow> snd (isUserBanned_p2 now u s2) = s2)
   \<and> (isUserBanned_p0 now u s0 \<longleftrightarrow> (\<exists>e'. userBans s0 u = Some e' \<and> e' \<noteq> 0 \<and> now < e'))"
  by (auto simp add: isUserBanned_app_def isUserBanned_p2_def isUserBanned_p0_def
      split: option.splits)

theorem isUserBanned_expiry_witness:
  "isUserBanned_app 11 ''5215550001'' \<lparr>userMessageCount = Map.empty, userBanList = [''5215550001'' \<mapsto> 10]\<rparr>
     = (False, \<lparr>userMessageCount = Map.empty, userBanList = Map.empty\<rparr>)
   \<and> isUserBanned_p2 11 ''5215550001'' \<lparr>userMessageCounts = Map.empty, userBanList_p2 = [''5215550001'' \<mapsto> 10]\<rparr>
     = (False, \<lparr>userMessageCounts = Map.empty, userBanList_p2 = Map.empty\<rparr>)
   \<and> fst (isUserBanned_app 10 ''5215550001'' \<lparr>userMessageCount = Map.empty, userBanList = [''5215550001'' \<mapsto> 10]\<rparr>)
   \<and> snd (isUserBanned_app 10 ''5215550001'' \<lparr>userMessageCount = Map.empty, userBanList = [''5215550001'' \<mapsto> 10]\<rparr>)
        = \<lparr>userMessageCount = Map.empty, userBanList = [''5215550001'' \<mapsto> 10]\<rparr>
   \<and> fst (isUserBanned_p2 10 ''5215550001'' \<lparr>userMessageCounts = Map.empty, userBanList_p2 = [''5215550001'' \<mapsto> 10]\<rparr>)
   \<and> snd (isUserBanned_p2 10 ''5215550001'' \<lparr>userMessageCounts = Map.empty, userBanList_p2 = [''5215550001'' \<mapsto> 10]\<rparr>)
        = \<lparr>userMessageCounts = Map.empty, userBanList_p2 = [''5215550001'' \<mapsto> 10]\<rparr>"
proof -
  let ?a = "\<lparr>userMessageCount = Map.empty, userBanList = [''5215550001'' \<mapsto> 10::int]\<rparr>"
  let ?b = "\<lparr>userMessageCounts = Map.empty, userBanList_p2 = [''5215550001'' \<mapsto> 10::int]\<rparr>"
  have ha: "userBanList ?a ''5215550001'' = Some 10 \<and> (10::int) \<noteq> 0 \<and> (10::int) < 11"
    and hb: "userBanList_p2 ?b ''5215550001'' = Some 10 \<and> (10::int) \<noteq> 0 \<and> (10::int) < 11"
    by simp_all
  have fa: "fst (isUserBanned_app 10 ''5215550001'' ?a)"
    and fb: "fst (isUserBanned_p2 10 ''5215550001'' ?b)"
    by (simp_all add: isUserBanned_app_def isUserBanned_p2_def)
  show ?thesis
    using ha hb fa fb
      isUserBanned_expiry [of ?a "''5215550001''" 10 11 ?b]
      isUserBanned_expiry [of ?a "''5215550001''" 10 10 ?b]
    by simp
qed

section \<open>part\_001: the least recently used entry is the one evicted\<close>

lemma map_has_iff: "map_has k m \<longleftrightarrow> k \<in> fst ` set m"
  by (simp add: map_has_def map_of_eq_None_iff)

lemma keys_map_delete: "map fst (map_delete k m) = removeAll k (map fst m)"
  by (induction m) (auto simp add: map_delete_def)

lemma keys_map_set_fresh: "\<not> map_has k m \<Longrightarrow> map fst (map_set k v m) = map fst m @ [k]"
  by (simp add: map_set_def)

lemma not_has_delete: "\<not> map_has k (map_delete k m)"
  by (auto simp add: map_has_iff map_delete_def)

lemma keys_get:
  "keys_of (snd (SimpleLRUCache_get k c)) =
     (if k \<in> set (keys_of c) then removeAll k (keys_of c) @ [k] else keys_of c)"
proof (cases "map_get k (cache c)")
  case None
  then have "k \<notin> set (keys_of c)"
    by (simp add: map_get_def keys_of_def map_of_eq_None_iff)
  with None show ?thesis by (simp add: SimpleLRUCache_get_def)
next
  case (Some v)
  then have "k \<in> set (keys_of c)"
    by (auto simp add: map_get_def keys_of_def dest: map_of_SomeD intro: rev_image_eqI)
  with Some show ?thesis
    by (simp add: SimpleLRUCache_get_def keys_of_def keys_map_set_fresh not_has_delete keys_map_delete)
qed

lemma keys_set:
  "keys_of (SimpleLRUCache_set k v c) =
     (if k \<in> set (keys_of c) then removeAll k (keys_of c) @ [k]
      else if int (length (keys_of c)) \<ge> capacity c
           then (case keys_of c of [] \<Rightarrow> [k] | k0 # _ \<Rightarrow> removeAll k0 (keys_of c) @ [k])
           else keys_of c @ [k])"
proof (cases "k \<in> set (keys_of c)")
  case True
  then have "map_has k (cache c)" by (simp add: map_has_iff keys_of_def)
  with True show ?thesis
    by (simp add: SimpleLRUCache_set_def keys_of_def keys_map_set_fresh not_has_delete keys_map_delete)
next
  case False
  then have nh: "\<not> map_has k (cache c)" by (simp add: map_has_iff keys_of_def)
  show ?thesis
  proof (cases "cache c")
    case Nil
    with False nh show ?thesis
      by (simp add: SimpleLRUCache_set_def keys_of_def keys_map_set_fresh)
  next
    case (Cons kv rest)
    have "\<not> map_has k (map_delete (fst kv) (cache c))"
      using nh by (auto simp add: map_has_iff map_delete_def)
    with False nh Cons show ?thesis
      by (simp add: SimpleLRUCache_set_def keys_of_def keys_map_set_fresh keys_map_delete
          del: removeAll.simps)
  qed
qed

lemma map_of_map_delete: "map_of (map_delete k m) k' = (if k' = k then None else map_of m k')"
  by (induction m) (auto simp add: map_delete_def)

lemma map_of_map_set_fresh:
  "\<not> map_has k m \<Longrightarrow> map_of (map_set k v m) k' = (if k' = k then Some v else map_of m k')"
  by (auto simp add: map_set_def map_has_def map_add_def split: option.splits)

lemma last_access_snoc:
  "last_access (ops @ [op]) k = (if accesses op k then Suc (length ops) else last_access ops k)"
  by (simp add: last_access_def)

lemma last_access_le: "last_access ops k \<le> length ops"
proof -
  have "length (dropWhile (\<lambda>op. \<not> accesses op k) (rev ops)) \<le> length (rev ops)"
    by (rule length_dropWhile_le)
  then show ?thesis by (simp add: last_access_def)
qed

definition lru_inv :: "('k, 'v) cache_op list \<Rightarrow> 'k list \<Rightarrow> bool" where
  "lru_inv ops ks \<longleftrightarrow>
     distinct ks \<and> sorted_wrt (\<lambda>a b. last_access ops a < last_access ops b) ks
     \<and> (\<forall>k\<in>set ks. 0 < last_access ops k)"

lemma lru_inv_untouched:
  assumes "lru_inv ops ks" "\<forall>k\<in>set ks. \<not> accesses op k"
  shows "lru_inv (ops @ [op]) ks"
proof -
  have "\<forall>k\<in>set ks. last_access (ops @ [op]) k = last_access ops k"
    using assms(2) by (simp add: last_access_snoc)
  moreover have "sorted_wrt (\<lambda>a b. last_access ops a < last_access ops b) ks"
    using assms(1) by (simp add: lru_inv_def)
  ultimately have "sorted_wrt (\<lambda>a b. last_access (ops @ [op]) a < last_access (ops @ [op]) b) ks"
    by (elim sorted_wrt_mono_rel [rotated]) simp
  then show ?thesis
    using assms by (simp add: lru_inv_def last_access_snoc)
qed

lemma lru_inv_touch:
  assumes "lru_inv ops ks" "accesses op k" "\<forall>k'. k' \<noteq> k \<longrightarrow> \<not> accesses op k'"
    and "k \<notin> set (filter P ks)"
  shows "lru_inv (ops @ [op]) (filter P ks @ [k])"
proof -
  let ?f = "last_access ops" and ?g = "last_access (ops @ [op])"
  have same: "\<forall>x\<in>set (filter P ks). ?g x = ?f x"
    using assms(3,4) by (auto simp add: last_access_snoc)
  have "sorted_wrt (\<lambda>a b. ?f a < ?f b) (filter P ks)"
    using assms(1) by (simp add: lru_inv_def sorted_wrt_filter)
  with same have srt: "sorted_wrt (\<lambda>a b. ?g a < ?g b) (filter P ks)"
    by (elim sorted_wrt_mono_rel [rotated]) simp
  have top: "?g k = Suc (length ops)"
    using assms(2) by (simp add: last_access_snoc)
  have below: "\<forall>x\<in>set (filter P ks). ?g x < ?g k"
    using same top last_access_le [of ops] by (simp add: less_Suc_eq_le)
  have pos: "\<forall>x\<in>set (filter P ks). 0 < ?g x"
    using same assms(1) by (simp add: lru_inv_def)
  show ?thesis
    using assms(1,4) srt top below pos
    by (simp add: lru_inv_def sorted_wrt_append)
qed

lemma removeAll_eq_filter: "removeAll k ks = filter (\<lambda>x. x \<noteq> k) ks"
  by (induction ks) auto

lemma lru_inv_apply:
  assumes "lru_inv ops (keys_of c)"
  shows "lru_inv (ops @ [op]) (keys_of (cache_apply op c))"
proof (cases op)
  case (Get k)
  show ?thesis
  proof (cases "k \<in> set (keys_of c)")
    case True
    have "lru_inv (ops @ [op]) (filter (\<lambda>x. x \<noteq> k) (keys_of c) @ [k])"
      using assms Get by (intro lru_inv_touch) simp_all
    with True Get show ?thesis by (simp add: keys_get removeAll_eq_filter)
  next
    case False
    have "lru_inv (ops @ [op]) (keys_of c)"
      using assms Get False by (intro lru_inv_untouched) auto
    with False Get show ?thesis by (simp add: keys_get)
  qed
next
  case (Set k v)
  have touch: "k \<notin> set (filter P (keys_of c)) \<Longrightarrow> lru_inv (ops @ [op]) (filter P (keys_of c) @ [k])" for P
    using assms Set by (intro lru_inv_touch) simp_all
  show ?thesis
  proof (cases "k \<in> set (keys_of c)")
    case True
    with touch [of "\<lambda>x. x \<noteq> k"] Set show ?thesis by (simp add: keys_set removeAll_eq_filter)
  next
    case False
    show ?thesis
    proof (cases "keys_of c")
      case Nil
      with touch [of "\<lambda>x. True"] False Set show ?thesis by (simp add: keys_set)
    next
      case (Cons k0 rest)
      have a: "lru_inv (ops @ [op]) (filter (\<lambda>x. x \<noteq> k0) (keys_of c) @ [k])"
        using False by (intro touch) simp
      have b: "lru_inv (ops @ [op]) (filter (\<lambda>x. True) (keys_of c) @ [k])"
        using False by (intro touch) simp
      from a b False Set Cons show ?thesis
        by (simp add: keys_set removeAll_eq_filter del: filter.simps)
    qed
  qed
next
  case (Has k)
  have "lru_inv (ops @ [op]) (keys_of c)"
    using assms Has by (intro lru_inv_untouched) simp_all
  with Has show ?thesis by simp
qed

lemma cache_run_snoc: "cache_run (ops @ [op]) c = cache_apply op (cache_run ops c)"
  by (simp add: cache_run_def)

lemma lru_inv_run: "lru_inv ops (keys_of (cache_run ops (SimpleLRUCache_new cap)))"
proof (induction ops rule: rev_induct)
  case Nil
  show ?case by (simp add: cache_run_def SimpleLRUCache_new_def keys_of_def lru_inv_def)
next
  case (snoc op ops)
  then show ?case by (simp add: cache_run_snoc lru_inv_apply)
qed

lemma capacity_apply: "capacity (cache_apply op c) = capacity c"
  by (cases op) (simp_all add: SimpleLRUCache_get_def SimpleLRUCache_set_def Let_def split: option.splits)

lemma capacity_run: "capacity (cache_run ops c) = capacity c"
  unfolding cache_run_def by (induction ops arbitrary: c) (simp_all add: capacity_apply)

lemma length_removeAll_distinct:
  "distinct ks \<Longrightarrow> k \<in> set ks \<Longrightarrow> Suc (length (removeAll k ks)) = length ks"
  by (induction ks) (auto simp add: distinct_removeAll)

lemma size_apply:
  assumes "distinct (keys_of c)" "1 \<le> capacity c" "int (length (keys_of c)) \<le> capacity c"
  shows "int (length (keys_of (cache_apply op c))) \<le> capacity c"
proof (cases op)
  case (Get k)
  with assms show ?thesis
    using length_removeAll_distinct [of "keys_of c" k] by (auto simp add: keys_get)
next
  case (Set k v)
  show ?thesis
  proof (cases "keys_of c")
    case Nil
    with assms Set show ?thesis by (simp add: keys_set)
  next
    case (Cons k0 rest)
    have "Suc (length (removeAll k0 (keys_of c))) = length (keys_of c)"
      using assms(1) Cons by (intro length_removeAll_distinct) simp_all
    moreover have "k \<in> set (keys_of c) \<Longrightarrow> Suc (length (removeAll k (keys_of c))) = length (keys_of c)"
      using assms(1) by (intro length_removeAll_distinct) simp_all
    ultimately show ?thesis
      using assms Set Cons by (auto simp add: keys_set simp del: removeAll.simps)
  qed
next
  case (Has k)
  with assms show ?thesis by simp
qed

lemma size_run:
  assumes "1 \<le> cap"
  shows "int (length (keys_of (cache_run ops (SimpleLRUCache_new cap)))) \<le> cap"
proof (induction ops rule: rev_induct)
  case Nil
  from assms show ?case by (simp add: cache_run_def SimpleLRUCache_new_def keys_of_def)
next
  case (snoc op ops)
  let ?c = "cache_run ops (SimpleLRUCache_new cap)"
  have d: "distinct (keys_of ?c)" using lru_inv_run [of ops cap] by (simp add: lru_inv_def)
  have cap: "capacity ?c = cap" by (simp add: capacity_run SimpleLRUCache_new_def)
  show ?case
    using size_apply [of ?c op] d cap assms snoc by (simp add: cache_run_snoc)
qed

text \<open>
  Claim C8. Take any sequence \<open>ops\<close> of \<^verbatim>\<open>get\<close>, \<^verbatim>\<open>set\<close> and \<^verbatim>\<open>has\<close> calls on the
  store \<^verbatim>\<open>new SimpleLRUCache(1000)\<close>. The store then holds at most 1000 entries. If it
  holds exactly 1000 and \<open>k\<close> is not among them, \<^verbatim>\<open>set(k, v)\<close> removes exactly one key
  \<open>victim\<close>: the key whose last access (by \<^verbatim>\<open>get\<close> or \<^verbatim>\<open>set\<close>) lies before the last
  access of every other stored key. All other entries keep their values, \<open>k\<close> is stored
  with \<open>v\<close>, and the size is 1000 again.
\<close>

theorem lru_store_bounded_and_evicts_least_recent:
  "(let c = cache_run ops (SimpleLRUCache_new userMessageInfo_capacity) in
      length (cache c) \<le> 1000 \<and>
      (length (cache c) = 1000 \<and> \<not> SimpleLRUCache_has k c \<longrightarrow>
         (\<exists>victim.
            SimpleLRUCache_has victim c
            \<and> (\<forall>k'. SimpleLRUCache_has k' c \<and> k' \<noteq> victim \<longrightarrow>
                   last_access ops victim < last_access ops k')
            \<and> (\<forall>k'. SimpleLRUCache_has k' (SimpleLRUCache_set k v c) \<longleftrightarrow>
                   k' = k \<or> (SimpleLRUCache_has k' c \<and> k' \<noteq> victim))
            \<and> (\<forall>k'. k' \<noteq> k \<and> k' \<noteq> victim \<longrightarrow>
                   map_get k' (cache (SimpleLRUCache_set k v c)) = map_get k' (cache c))
            \<and> map_get k (cache (SimpleLRUCache_set k v c)) = Some v
            \<and> length (cache (SimpleLRUCache_set k v c)) = 1000)))"
proof -
  define c where "c = cache_run ops (SimpleLRUCache_new userMessageInfo_capacity)"
  have inv: "lru_inv ops (keys_of c)"
    unfolding c_def by (rule lru_inv_run)
  have cap: "capacity c = 1000"
    by (simp add: c_def capacity_run SimpleLRUCache_new_def userMessageInfo_capacity_def)
  have "int (length (keys_of c)) \<le> userMessageInfo_capacity"
    unfolding c_def by (rule size_run) (simp add: userMessageInfo_capacity_def)
  then have bound: "length (cache c) \<le> 1000"
    by (simp add: keys_of_def userMessageInfo_capacity_def)
  have evict: "\<exists>victim.
            SimpleLRUCache_has victim c
            \<and> (\<forall>k'. SimpleLRUCache_has k' c \<and> k' \<noteq> victim \<longrightarrow>
                   last_access ops victim < last_access ops k')
            \<and> (\<forall>k'. SimpleLRUCache_has k' (SimpleLRUCache_set k v c) \<longleftrightarrow>
                   k' = k \<or> (SimpleLRUCache_has k' c \<and> k' \<noteq> victim))
            \<and> (\<forall>k'. k' \<noteq> k \<and> k' \<noteq> victim \<longrightarrow>
                   map_get k' (cache (SimpleLRUCache_set k v c)) = map_get k' (cache c))
            \<and> map_get k (cache (SimpleLRUCache_set k v c)) = Some v
            \<and> length (cache (SimpleLRUCache_set k v c)) = 1000"
    if full: "length (cache c) = 1000" and absent: "\<not> SimpleLRUCache_has k c"
  proof -
    from full obtain kv rest where c_eq: "cache c = kv # rest"
      by (cases "cache c") simp_all
    let ?k0 = "fst kv"
    have keys: "keys_of c = ?k0 # map fst rest" by (simp add: keys_of_def c_eq)
    have has_iff: "SimpleLRUCache_has x c \<longleftrightarrow> x \<in> set (keys_of c)" for x
      by (simp add: SimpleLRUCache_has_def map_has_iff keys_of_def)
    have k_new: "k \<notin> set (keys_of c)" using absent by (simp add: has_iff)
    have nh: "\<not> map_has k (cache c)" using absent by (simp add: SimpleLRUCache_has_def)
    have dist: "?k0 \<notin> set (map fst rest)" "distinct (map fst rest)"
      using inv keys by (simp_all add: lru_inv_def)
    have least: "\<forall>k'\<in>set (map fst rest). last_access ops ?k0 < last_access ops k'"
      using inv keys by (simp add: lru_inv_def)
    have set_eq: "cache (SimpleLRUCache_set k v c) = map_set k v (map_delete ?k0 (cache c))"
      using nh full cap c_eq by (simp add: SimpleLRUCache_set_def)
    have nh': "\<not> map_has k (map_delete ?k0 (cache c))"
      using nh by (auto simp add: map_has_iff map_delete_def)
    have keys': "keys_of (SimpleLRUCache_set k v c) = map fst rest @ [k]"
    proof -
      have "length (keys_of c) = 1000" using full by (simp add: keys_of_def)
      then show ?thesis using k_new cap keys dist by (simp add: keys_set)
    qed
    have has_iff': "SimpleLRUCache_has x (SimpleLRUCache_set k v c) \<longleftrightarrow> x \<in> set (keys_of (SimpleLRUCache_set k v c))" for x
      by (simp add: SimpleLRUCache_has_def map_has_iff keys_of_def)
    have 1: "SimpleLRUCache_has ?k0 c" by (simp add: has_iff keys)
    have 2: "\<forall>k'. SimpleLRUCache_has k' c \<and> k' \<noteq> ?k0 \<longrightarrow> last_access ops ?k0 < last_access ops k'"
      using least by (auto simp add: has_iff keys)
    have 3: "\<forall>k'. SimpleLRUCache_has k' (SimpleLRUCache_set k v c) \<longleftrightarrow>
                   k' = k \<or> (SimpleLRUCache_has k' c \<and> k' \<noteq> ?k0)"
      using dist(1) by (auto simp add: has_iff has_iff' keys' keys intro: rev_image_eqI)
    have 4: "\<forall>k'. k' \<noteq> k \<and> k' \<noteq> ?k0 \<longrightarrow>
                   map_get k' (cache (SimpleLRUCache_set k v c)) = map_get k' (cache c)"
      using nh' by (simp add: set_eq map_get_def map_of_map_set_fresh map_of_map_delete)
    have 5: "map_get k (cache (SimpleLRUCache_set k v c)) = Some v"
      using nh' by (simp add: set_eq map_get_def map_of_map_set_fresh)
    have "length (keys_of (SimpleLRUCache_set k v c)) = 1000"
      using full c_eq by (simp add: keys')
    then have 6: "length (cache (SimpleLRUCache_set k v c)) = 1000"
      by (simp add: keys_of_def)
    from 1 2 3 4 5 6 show ?thesis by blast
  qed
  show ?thesis
    unfolding Let_def c_def [symmetric] using bound evict by blast
qed

lemma first_users_fill:
  "int n \<le> cap \<Longrightarrow>
     cache_run (first_users n) (SimpleLRUCache_new cap)
       = \<lparr>cache = map (\<lambda>i. (i, 2 * i)) [0..<n], capacity = cap\<rparr>"
proof (induction n)
  case 0
  show ?case by (simp add: first_users_def cache_run_def SimpleLRUCache_new_def)
next
  case (Suc n)
  have nh: "\<not> map_has n (map (\<lambda>i. (i, 2 * i)) [0..<n])"
    by (auto simp add: map_has_iff)
  have "first_users (Suc n) = first_users n @ [Set n (2 * n)]"
    by (simp add: first_users_def)
  then show ?case
    using Suc nh by (simp add: cache_run_snoc SimpleLRUCache_set_def map_set_def)
qed

theorem lru_store_bounded_and_evicts_least_recent_witness:
  "length (cache (cache_run (first_users 1000) (SimpleLRUCache_new userMessageInfo_capacity))) = 1000
   \<and> \<not> SimpleLRUCache_has 1000 (cache_run (first_users 1000) (SimpleLRUCache_new userMessageInfo_capacity))
   \<and> length (cache (SimpleLRUCache_set 1000 2000
          (cache_run (first_users 1000) (SimpleLRUCache_new userMessageInfo_capacity)))) = 1000
   \<and> map_get 1000 (cache (SimpleLRUCache_set 1000 2000
          (cache_run (first_users 1000) (SimpleLRUCache_new userMessageInfo_capacity)))) = Some 2000"
proof -
  let ?c = "cache_run (first_users 1000) (SimpleLRUCache_new userMessageInfo_capacity)"
  have c: "?c = \<lparr>cache = map (\<lambda>i. (i, 2 * i)) [0..<1000], capacity = userMessageInfo_capacity\<rparr>"
    by (rule first_users_fill) (simp add: userMessageInfo_capacity_def)
  have full: "length (cache ?c) = 1000"
    unfolding c by simp
  have absent: "\<not> SimpleLRUCache_has 1000 ?c"
    unfolding c by (auto simp add: SimpleLRUCache_has_def map_has_iff)
  show ?thesis
    using full absent
      lru_store_bounded_and_evicts_least_recent [of "first_users 1000" 1000 2000]
    unfolding Let_def by blast
qed

section \<open>The rate limiters at the limit\<close>

lemma map_of_overwrite:
  "map_of (map (\<lambda>kv. if fst kv = k then (k, v) else kv) m) k' =
     (if k' = k \<and> map_of m k \<noteq> None then Some v else map_of m k')"
  by (induction m) auto

lemma map_of_map_set:
  "map_of (map_set k v m) k' = (if k' = k then Some v else map_of m k')"
  by (auto simp add: map_set_def map_has_def map_of_overwrite map_add_def split: option.splits)

lemma get_set_same: "map_get k (cache (SimpleLRUCache_set k v c)) = Some v"
  by (simp add: SimpleLRUCache_set_def Let_def map_get_def map_of_map_set)

lemma get_returns: "fst (SimpleLRUCache_get k c) = map_get k (cache c)"
  by (simp add: SimpleLRUCache_get_def split: option.splits)

lemma get_keeps: "map_get k' (cache (snd (SimpleLRUCache_get k c))) = map_get k' (cache c)"
  by (auto simp add: SimpleLRUCache_get_def map_get_def map_of_map_set map_of_map_delete
      split: option.splits)

lemma lookup_info_eq:
  "lookup_info u s =
     (case map_get u (cache (userMessageInfo s)) of
        None \<Rightarrow> None
      | Some r \<Rightarrow> (case objects s r of None \<Rightarrow> None | Some info \<Rightarrow> Some (r, info)),
      s\<lparr>userMessageInfo := snd (SimpleLRUCache_get u (userMessageInfo s))\<rparr>)"
proof (cases "SimpleLRUCache_get u (userMessageInfo s)")
  case (Pair found c)
  with get_returns [of u "userMessageInfo s"] have "found = map_get u (cache (userMessageInfo s))"
    by simp
  with Pair show ?thesis by (simp add: lookup_info_def)
qed

lemma stored_count_store_info:
  "stored_count_p1 (store_info u r info s) u = Some (info_count info)"
  by (simp add: stored_count_p1_def store_info_def get_set_same)

lemma stored_count_lookup:
  "stored_count_p1 (snd (lookup_info u s)) u' = stored_count_p1 s u'"
  by (simp add: lookup_info_eq stored_count_p1_def get_keeps split: option.splits)

lemma rateLimitUser_p1_saturated:
  assumes "map_get u (cache (userMessageInfo s)) = Some r" "objects s r = Some info"
    and "now - info_firstMessageTime info < RESET_PERIOD" "info_count info \<ge> MAX_MESSAGES"
  shows "\<not> allowed (fst (rateLimitUser_p1 now u s))
     \<and> result_count (fst (rateLimitUser_p1 now u s)) = info_count info
     \<and> stored_count_p1 (snd (rateLimitUser_p1 now u s)) u = Some (info_count info)"
proof -
  have "stored_count_p1 (snd (lookup_info u s)) u = Some (info_count info)"
    unfolding stored_count_lookup using assms(1,2) by (simp add: stored_count_p1_def)
  then show ?thesis
    using assms
    by (simp add: rateLimitUser_p1_def lookup_info_eq Let_def stored_count_store_info)
qed

lemma rateLimitUser_p1_fresh:
  assumes "fst (lookup_info u s) = None
     \<or> (\<exists>r info. fst (lookup_info u s) = Some (r, info) \<and> now - info_firstMessageTime info \<ge> RESET_PERIOD)"
  shows "allowed (fst (rateLimitUser_p1 now u s))
     \<and> result_count (fst (rateLimitUser_p1 now u s)) = 1
     \<and> stored_count_p1 (snd (rateLimitUser_p1 now u s)) u = Some 1"
proof -
  obtain found s1 where l: "lookup_info u s = (found, s1)" by (cases "lookup_info u s")
  obtain r info s2 where n: "new_info u 0 now s1 = ((r, info), s2)"
    by (cases "new_info u 0 now s1") auto
  then have "info_count info = 0"
    by (auto simp add: new_info_def Let_def)
  with assms l n show ?thesis
    by (auto simp add: rateLimitUser_p1_def Let_def MAX_MESSAGES_def stored_count_store_info)
qed

lemma rateLimitUser_p1_live:
  assumes "map_get u (cache (userMessageInfo s)) = Some r" "objects s r = Some info"
    and "now - info_firstMessageTime info < RESET_PERIOD" "info_count info < MAX_MESSAGES"
  shows "allowed (fst (rateLimitUser_p1 now u s))
     \<and> result_count (fst (rateLimitUser_p1 now u s)) = info_count info + 1
     \<and> stored_count_p1 (snd (rateLimitUser_p1 now u s)) u = Some (info_count info + 1)"
  using assms
  by (simp add: rateLimitUser_p1_def lookup_info_eq Let_def stored_count_store_info)

lemma rateLimitUser_p1_count:
  "(if allowed (fst (rateLimitUser_p1 now u s))
    then stored_count_p1 (snd (rateLimitUser_p1 now u s)) u = Some (result_count (fst (rateLimitUser_p1 now u s)))
      \<and> (result_count (fst (rateLimitUser_p1 now u s)) = 1
          \<or> stored_count_p1 s u = Some (result_count (fst (rateLimitUser_p1 now u s)) - 1))
    else stored_count_p1 (snd (rateLimitUser_p1 now u s)) u = stored_count_p1 s u)"
proof -
  consider (fresh) "fst (lookup_info u s) = None
     \<or> (\<exists>r info. fst (lookup_info u s) = Some (r, info) \<and> now - info_firstMessageTime info \<ge> RESET_PERIOD)"
    | (live) r info where "fst (lookup_info u s) = Some (r, info)"
        "now - info_firstMessageTime info < RESET_PERIOD"
    by (cases "fst (lookup_info u s)") force+
  then show ?thesis
  proof cases
    case fresh
    then show ?thesis using rateLimitUser_p1_fresh [of u s now] by simp
  next
    case live
    then have r: "map_get u (cache (userMessageInfo s)) = Some r" "objects s r = Some info"
      by (auto simp add: lookup_info_eq split: option.splits)
    then have st: "stored_count_p1 s u = Some (info_count info)"
      by (simp add: stored_count_p1_def)
    show ?thesis
    proof (cases "info_count info \<ge> MAX_MESSAGES")
      case True
      then show ?thesis
        using rateLimitUser_p1_saturated [OF r live(2)] st by simp
    next
      case False
      then show ?thesis
        using rateLimitUser_p1_live [OF r live(2)] st by simp
    qed
  qed
qed

text \<open>
  In app.ts the stored count goes from 20 to 21 on the denied call.
\<close>

theorem rateLimitUser_app_counts_denied_calls_counterexample:
  "\<not> fst (rateLimitUser_app 1000 ''5215550001''
        \<lparr>userMessageCount = [''5215550001'' \<mapsto> \<lparr>count = 20, firstMessageTime = 0\<rparr>],
         userBanList = Map.empty\<rparr>)
   \<and> stored_count_app
        \<lparr>userMessageCount = [''5215550001'' \<mapsto> \<lparr>count = 20, firstMessageTime = 0\<rparr>],
         userBanList = Map.empty\<rparr> ''5215550001'' = Some 20
   \<and> stored_count_app (snd (rateLimitUser_app 1000 ''5215550001''
        \<lparr>userMessageCount = [''5215550001'' \<mapsto> \<lparr>count = 20, firstMessageTime = 0\<rparr>],
         userBanList = Map.empty\<rparr>)) ''5215550001'' = Some 21"
  by (simp add: rateLimitUser_app_def stored_count_app_def MAX_MESSAGES_PER_DAY_def)

text \<open>
  Claim C3, as the code has it. In part\_001, a call for a user whose count in the
  current window has reached \<^verbatim>\<open>MAX_MESSAGES\<close> returns \<^verbatim>\<open>allowed = false\<close> with the
  stored count unchanged; on every call the stored count changes only when
  \<^verbatim>\<open>allowed = true\<close> is returned, and then to the returned count (the old count plus
  one, or 1 for a new window). In app.ts and part\_002 the counter is incremented on every
  call, also on a denied one: the call is allowed exactly when the incremented count is at
  most 20 (app.ts, within the window) or at most 30 (part\_002).
\<close>

theorem rateLimitUser_saturation:
  "(map_get u (cache (userMessageInfo s)) = Some r \<and> objects s r = Some info
      \<and> now - info_firstMessageTime info < RESET_PERIOD \<and> info_count info \<ge> MAX_MESSAGES \<longrightarrow>
      \<not> allowed (fst (rateLimitUser_p1 now u s))
      \<and> result_count (fst (rateLimitUser_p1 now u s)) = info_count info
      \<and> stored_count_p1 (snd (rateLimitUser_p1 now u s)) u = stored_count_p1 s u)
   \<and> (if allowed (fst (rateLimitUser_p1 now u s))
       then stored_count_p1 (snd (rateLimitUser_p1 now u s)) u
              = Some (result_count (fst (rateLimitUser_p1 now u s)))
          \<and> (result_count (fst (rateLimitUser_p1 now u s)) = 1
              \<or> stored_count_p1 s u = Some (result_count (fst (rateLimitUser_p1 now u s)) - 1))
       else stored_count_p1 (snd (rateLimitUser_p1 now u s)) u = stored_count_p1 s u)
   \<and> (userMessageCount sa u = Some st \<and> now - firstMessageTime st \<le> 24 * 60 * 60 * 1000 \<longrightarrow>
        stored_count_app (snd (rateLimitUser_app now u sa)) u = Some (count st + 1)
        \<and> (fst (rateLimitUser_app now u sa) \<longleftrightarrow> count st + 1 \<le> 20))
   \<and> counter_p2 (snd (rateLimitUser_p2 u s2)) u = counter_p2 s2 u + 1
   \<and> (fst (rateLimitUser_p2 u s2) \<longleftrightarrow> counter_p2 s2 u + 1 \<le> 30)"
proof -
  have p1: "\<not> allowed (fst (rateLimitUser_p1 now u s))
      \<and> result_count (fst (rateLimitUser_p1 now u s)) = info_count info
      \<and> stored_count_p1 (snd (rateLimitUser_p1 now u s)) u = stored_count_p1 s u"
    if "map_get u (cache (userMessageInfo s)) = Some r" "objects s r = Some info"
      "now - info_firstMessageTime info < RESET_PERIOD" "info_count info \<ge> MAX_MESSAGES"
    using rateLimitUser_p1_saturated [OF that] that(1,2) by (simp add: stored_count_p1_def)
  have app: "stored_count_app (snd (rateLimitUser_app now u sa)) u = Some (count st + 1)
        \<and> (fst (rateLimitUser_app now u sa) \<longleftrightarrow> count st + 1 \<le> 20)"
    if "userMessageCount sa u = Some st" "now - firstMessageTime st \<le> 24 * 60 * 60 * 1000"
    using that by (simp add: rateLimitUser_app_def stored_count_app_def MAX_MESSAGES_PER_DAY_def)
  have p2: "counter_p2 (snd (rateLimitUser_p2 u s2)) u = counter_p2 s2 u + 1"
    "fst (rateLimitUser_p2 u s2) \<longleftrightarrow> counter_p2 s2 u + 1 \<le> 30"
    using rateLimitUser_p2_result [of u s2] by (simp_all add: rateLimitUser_p2_counter) arith
  show ?thesis
    using p1 app p2 rateLimitUser_p1_count [of now u s] by blast
qed

theorem rateLimitUser_saturation_witness:
  "\<not> allowed (fst (rateLimitUser_p1 5000 ''5215550001'' saturated_p1))
   \<and> result_count (fst (rateLimitUser_p1 5000 ''5215550001'' saturated_p1)) = 20
   \<and> stored_count_p1 (snd (rateLimitUser_p1 5000 ''5215550001'' saturated_p1)) ''5215550001'' = Some 20
   \<and> stored_count_app (snd (rateLimitUser_app 5000 ''5215550001''
        \<lparr>userMessageCount = [''5215550001'' \<mapsto> \<lparr>count = 20, firstMessageTime = 0\<rparr>],
         userBanList = Map.empty\<rparr>)) ''5215550001'' = Some 21"
proof -
  let ?info = "\<lparr>info_count = 20, info_firstMessageTime = 0, info_queue = 0,
        info_processing = False, info_bannedNotified = False\<rparr>"
  let ?sa = "\<lparr>userMessageCount = [''5215550001'' \<mapsto> \<lparr>count = 20, firstMessageTime = 0\<rparr>],
         userBanList = Map.empty\<rparr>"
  have h: "map_get ''5215550001'' (cache (userMessageInfo saturated_p1)) = Some 1
      \<and> objects saturated_p1 1 = Some ?info
      \<and> 5000 - info_firstMessageTime ?info < RESET_PERIOD \<and> info_count ?info \<ge> MAX_MESSAGES"
    by (simp add: saturated_p1_def map_get_def RESET_PERIOD_def MAX_MESSAGES_def)
  have st: "stored_count_p1 saturated_p1 ''5215550001'' = Some 20"
    by (simp add: saturated_p1_def stored_count_p1_def map_get_def)
  have ha: "userMessageCount ?sa ''5215550001'' = Some \<lparr>count = 20, firstMessageTime = 0\<rparr>
      \<and> 5000 - firstMessageTime \<lparr>count = 20, firstMessageTime = 0\<rparr> \<le> 24 * 60 * 60 * 1000"
    by simp
  show ?thesis
    using h st ha
      rateLimitUser_saturation [of "''5215550001''" saturated_p1 1 ?info 5000 ?sa
        "\<lparr>count = 20, firstMessageTime = 0\<rparr>"]
    by simp
qed

section \<open>Splitting and cleaning a response\<close>

lemma split_no_blank_line: "\<not> has_blank_line s \<Longrightarrow> split_blank_lines s = [s]"
  by (induction s rule: split_blank_lines.induct) auto

lemma LF_is_space: "is_space LF"
  by (simp add: is_space_def is_line_terminator_def LF_def)

lemma trim_snoc_space:
  assumes "is_space c"
  shows "trim (s @ [c]) = trim s"
proof (cases "\<forall>x\<in>set s. is_space x")
  case True
  then have e: "dropWhile is_space s = []" by (simp add: dropWhile_eq_Nil_conv)
  from True assms show ?thesis by (simp add: trim_def dropWhile_append e)
next
  case False
  then have "dropWhile is_space (s @ [c]) = dropWhile is_space s @ [c]"
    by (auto simp add: dropWhile_append)
  with assms show ?thesis by (simp add: trim_def)
qed

lemma trim_cons_space: "is_space c \<Longrightarrow> trim (c # s) = trim s"
  by (simp add: trim_def)

lemma split_at_blank_line:
  assumes "\<not> has_blank_line p"
  shows "\<exists>a. split_blank_lines (p @ LF # LF # s) = a # split_blank_lines (dropWhile (\<lambda>x. x = LF) s)
      \<and> (a = p \<or> p = a @ [LF])"
  using assms
proof (induction p rule: split_blank_lines.induct)
  case 1
  show ?case by simp
next
  case (2 c)
  show ?case by (cases "c = LF") simp_all
next
  case (3 c d r)
  from "3.prems" have nb: "\<not> (c = LF \<and> d = LF)" "\<not> has_blank_line (d # r)" by simp_all
  from "3.IH"(2) nb obtain a where
    a: "split_blank_lines ((d # r) @ LF # LF # s) = a # split_blank_lines (dropWhile (\<lambda>x. x = LF) s)"
      "a = d # r \<or> d # r = a @ [LF]"
    by auto
  have "split_blank_lines ((c # d # r) @ LF # LF # s) = (c # a) # split_blank_lines (dropWhile (\<lambda>x. x = LF) s)"
    using nb a(1) by simp
  moreover have "c # a = c # d # r \<or> c # d # r = (c # a) @ [LF]"
    using a(2) by auto
  ultimately show ?case by blast
qed

lemma no_blank_line_after_drop:
  "\<not> has_blank_line s \<Longrightarrow> \<not> has_blank_line (dropWhile (\<lambda>x. x = LF) s)"
  by (induction s rule: has_blank_line.induct) auto

lemma trim_drop_line_feeds: "trim (dropWhile (\<lambda>x. x = LF) s) = trim s"
  using LF_is_space by (induction s) (simp_all add: trim_cons_space)

lemma two_paragraphs_split:
  assumes "\<not> has_blank_line p1" "\<not> has_blank_line p2"
  shows "map trim (split_blank_lines (p1 @ LF # LF # p2)) = [trim p1, trim p2]"
proof -
  from split_at_blank_line [OF assms(1), of p2] obtain a where
    a: "split_blank_lines (p1 @ LF # LF # p2) = a # split_blank_lines (dropWhile (\<lambda>x. x = LF) p2)"
      "a = p1 \<or> p1 = a @ [LF]"
    by blast
  have "trim a = trim p1"
    using a(2) LF_is_space by (auto simp add: trim_snoc_space)
  moreover have "split_blank_lines (dropWhile (\<lambda>x. x = LF) p2) = [dropWhile (\<lambda>x. x = LF) p2]"
    using assms(2) by (intro split_no_blank_line no_blank_line_after_drop)
  ultimately show ?thesis
    using a(1) by (simp add: trim_drop_line_feeds)
qed

lemma LF_line_terminator: "is_line_terminator LF"
  by (simp add: is_line_terminator_def LF_def)

lemma find_close_append_Some:
  assumes "find_close cl suf p = Some rest" "LF \<notin> set suf"
  shows "find_close cl suf (p @ LF # s) = Some (rest @ LF # s)"
  using assms
proof (induction p)
  case Nil
  then show ?case by simp
next
  case (Cons c p)
  show ?case
  proof (cases "c = cl \<and> take (length suf) p = suf")
    case True
    then have "length (take (length suf) p) = length suf" by simp
    then have "length suf \<le> length p" by simp
    with True Cons.prems show ?thesis by auto
  next
    case False
    have "\<not> (c = cl \<and> take (length suf) (p @ LF # s) = suf)"
    proof
      assume h: "c = cl \<and> take (length suf) (p @ LF # s) = suf"
      show False
      proof (cases "length suf \<le> length p")
        case True
        with h False show False by simp
      next
        case False
        then have "LF \<in> set (take (length suf) (p @ LF # s))"
          by (auto simp add: take_Cons' )
        with h Cons.prems(2) show False by simp
      qed
    qed
    with False Cons show ?thesis by (auto split: if_splits)
  qed
qed

lemma find_close_append_None:
  assumes "find_close cl suf p = None" "LF \<notin> set suf" "cl \<noteq> LF"
  shows "find_close cl suf (p @ LF # s) = None"
  using assms
proof (induction p)
  case Nil
  then show ?case using LF_line_terminator by simp
next
  case (Cons c p)
  have "\<not> (c = cl \<and> take (length suf) (p @ LF # s) = suf)"
  proof
    assume h: "c = cl \<and> take (length suf) (p @ LF # s) = suf"
    show False
    proof (cases "length suf \<le> length p")
      case True
      with h Cons.prems(1) show False by (simp split: if_splits)
    next
      case False
      then have "LF \<in> set (take (length suf) (p @ LF # s))"
        by (auto simp add: take_Cons')
      with h Cons.prems(2) show False by simp
    qed
  qed
  with Cons show ?case by (auto split: if_splits)
qed

lemma strip_markers_line:
  assumes "opn \<noteq> LF" "cl \<noteq> LF" "LF \<notin> set suf"
  shows "strip_markers opn cl suf (p @ LF # s)
     = strip_markers opn cl suf p @ LF # strip_markers opn cl suf s"
  using assms
proof (induction opn cl suf p rule: strip_markers.induct)
  case (1 opn cl suf)
  then show ?case by simp
next
  case (2 opn cl suf c p)
  show ?case
  proof (cases "c = opn")
    case False
    with 2 show ?thesis by simp
  next
    case True
    show ?thesis
    proof (cases "find_close cl suf p")
      case None
      with True 2 find_close_append_None [OF None, of s] show ?thesis by simp
    next
      case (Some rest)
      with True 2 find_close_append_Some [OF Some, of s] show ?thesis by simp
    qed
  qed
qed

lemma find_stars_append_Some:
  "find_stars p = Some (inner, rest) \<Longrightarrow> find_stars (p @ LF # s) = Some (inner, rest @ LF # s)"
  by (induction p arbitrary: inner rule: find_stars.induct)
     (auto split: if_splits option.splits)

lemma STAR_not_LF: "STAR \<noteq> LF"
  by (simp add: STAR_def LF_def)

lemma find_stars_append_None:
  "find_stars p = None \<Longrightarrow> find_stars (p @ LF # s) = None"
proof (induction p rule: find_stars.induct)
  case (1 c d r)
  then show ?case by (auto split: if_splits option.splits)
next
  case (2 c)
  show ?case using LF_line_terminator STAR_not_LF
    by (cases s) auto
next
  case 3
  show ?case using LF_line_terminator by (cases s) (simp_all add: STAR_not_LF [symmetric])
qed

lemma collapse_emphasis_line:
  "collapse_emphasis (p @ LF # s) = collapse_emphasis p @ LF # collapse_emphasis s"
proof (induction p rule: collapse_emphasis.induct)
  case (1 c d r)
  show ?case
  proof (cases "c = STAR \<and> d = STAR")
    case False
    with 1 show ?thesis by auto
  next
    case True
    show ?thesis
    proof (cases "find_stars r")
      case None
      with True 1 find_stars_append_None [OF None, of s] show ?thesis by simp
    next
      case (Some a)
      obtain inner rest where a: "a = (inner, rest)" by (cases a)
      with Some True 1 find_stars_append_Some [of r inner rest s] show ?thesis by simp
    qed
  qed
next
  case (2 c)
  show ?case using STAR_not_LF by (cases s) auto
next
  case 3
  show ?case
  proof (cases s)
    case Nil
    then show ?thesis by simp
  next
    case (Cons d r)
    then show ?thesis using STAR_not_LF by simp
  qed
qed

lemma clean_app_blank_line:
  "clean_app (p1 @ LF # LF # p2) = clean_app p1 @ LF # LF # clean_app p2"
proof -
  have ne: "LBRACKET \<noteq> LF" "RBRACKET \<noteq> LF" "LF \<notin> set []"
    by (simp_all add: LBRACKET_def RBRACKET_def LF_def)
  have "strip_markers LBRACKET RBRACKET [] (p1 @ LF # LF # p2)
      = strip_markers LBRACKET RBRACKET [] p1 @ LF # LF # strip_markers LBRACKET RBRACKET [] p2"
    using strip_markers_line [OF ne, of p1 "LF # p2"] strip_markers_line [OF ne, of "[]" p2]
    by simp
  then show ?thesis
    using collapse_emphasis_line [of "strip_markers LBRACKET RBRACKET [] p1"
        "LF # strip_markers LBRACKET RBRACKET [] p2"]
      collapse_emphasis_line [of "[]" "strip_markers LBRACKET RBRACKET [] p2"]
    by (simp add: clean_app_def)
qed

section \<open>Markers and emphasis\<close>

lemma strip_markers_none: "opn \<notin> set a \<Longrightarrow> strip_markers opn cl suf a = a"
  by (induction a) simp_all

lemma strip_markers_prefix:
  "opn \<notin> set a \<Longrightarrow> strip_markers opn cl suf (a @ s) = a @ strip_markers opn cl suf s"
  by (induction a) simp_all

lemma find_close_first:
  "cl \<notin> set m \<Longrightarrow> \<forall>x\<in>set m. \<not> is_line_terminator x \<Longrightarrow> find_close cl [] (m @ cl # b) = Some b"
  by (induction m) simp_all

lemma strip_markers_one:
  assumes "opn \<notin> set a" "cl \<notin> set m" "\<forall>x\<in>set m. \<not> is_line_terminator x"
  shows "strip_markers opn cl [] (a @ opn # m @ cl # b) = a @ strip_markers opn cl [] b"
  using assms by (simp add: strip_markers_prefix find_close_first)

lemma find_stars_first:
  "STAR \<notin> set t \<Longrightarrow> \<forall>x\<in>set t. \<not> is_line_terminator x \<Longrightarrow>
     find_stars (t @ STAR # STAR # b) = Some (t, b)"
proof (induction t)
  case Nil
  show ?case by simp
next
  case (Cons c t)
  then show ?case by (cases "t @ STAR # STAR # b") auto
qed

lemma collapse_emphasis_prefix:
  "STAR \<notin> set a \<Longrightarrow> collapse_emphasis (a @ STAR # s) = a @ collapse_emphasis (STAR # s)"
proof (induction a)
  case Nil
  show ?case by simp
next
  case (Cons c a)
  then show ?case by (cases "a @ STAR # s") auto
qed

lemma collapse_emphasis_one:
  assumes "STAR \<notin> set a" "STAR \<notin> set t" "\<forall>x\<in>set t. \<not> is_line_terminator x"
  shows "collapse_emphasis (a @ STAR # STAR # t @ STAR # STAR # b)
     = a @ STAR # t @ STAR # collapse_emphasis b"
  using assms by (simp add: collapse_emphasis_prefix find_stars_first)

lemma halve_stars_prefix:
  "STAR \<notin> set a \<Longrightarrow> halve_stars (a @ STAR # s) = a @ halve_stars (STAR # s)"
proof (induction a)
  case Nil
  show ?case by simp
next
  case (Cons c a)
  then show ?case by (cases "a @ STAR # s") auto
qed

lemma halve_stars_one:
  assumes "STAR \<notin> set a" "STAR \<notin> set t"
  shows "halve_stars (a @ STAR # STAR # t @ STAR # STAR # b) = a @ STAR # t @ STAR # halve_stars b"
  using assms halve_stars_prefix [of t "STAR # b"]
  by (simp add: halve_stars_prefix)

section \<open>Failures inside a drain\<close>

lemma sent_append: "sent (es @ es') = sent es @ sent es'"
  by (induction es rule: sent.induct) simp_all

lemma started_append: "started (es @ es') = started es @ started es'"
  by (induction es rule: started.induct) simp_all

lemma send_chunks_ok:
  "\<forall>n. \<not> rej n \<Longrightarrow> send_chunks c rej n bs = (map (Sent c) bs, n + length bs, True)"
  by (induction bs arbitrary: n) simp_all

lemma sent_map_Sent: "sent (map (Sent c) bs) = map (Pair c) bs"
  by (induction bs) simp_all

lemma started_map_Sent: "started (map (Sent c) bs) = []"
  by (induction bs) simp_all

text \<open>What one task of part\_001 sends when no \<^verbatim>\<open>flowDynamic\<close> call rejects.\<close>

lemma processUserMessage_p1_sends:
  assumes "sends_succeed oc"
  shows "processUserMessage_p1 oc c =
     (if typing_rejects oc then [Typing c, Logged c, Sent c failure_notice]
      else if completion_fails oc then [Typing c, Asked c, Logged c, Sent c failure_notice]
      else [Typing c, Asked c] @ map (Sent c) (chunks_p1 (response_of oc)),
      if typing_rejects oc \<or> completion_fails oc then 1 else length (chunks_p1 (response_of oc)),
      Returned)"
proof -
  have rej: "\<forall>n. \<not> send_rejects oc n" using assms by (simp add: sends_succeed_def)
  show ?thesis
  proof (cases "ask oc")
    case Rejects
    with rej show ?thesis
      by (simp add: processUserMessage_p1_def completion_fails_def)
  next
    case (Resolves r)
    with rej show ?thesis
      by (simp add: processUserMessage_p1_def completion_fails_def response_of_def
          send_chunks_ok [OF rej])
  qed
qed

lemma drain_p1_all:
  assumes "\<forall>t\<in>set tasks. sends_succeed (snd t)"
  shows "snd (drain_p1 tasks) = Returned
     \<and> started (fst (drain_p1 tasks)) = map fst tasks
     \<and> sent (fst (drain_p1 tasks)) = concat (map expected_p1 tasks)"
  using assms
proof (induction tasks)
  case Nil
  show ?case by simp
next
  case (Cons t tasks)
  obtain c oc where t: "t = (c, oc)" by (cases t)
  have ok: "sends_succeed oc" using Cons.prems t by simp
  obtain es' r where d: "drain_p1 tasks = (es', r)" by (cases "drain_p1 tasks")
  have ih: "r = Returned" "started es' = map fst tasks" "sent es' = concat (map expected_p1 tasks)"
    using Cons d by simp_all
  show ?case
    using ih d t
    by (simp add: processUserMessage_p1_sends [OF ok] sent_append started_append
        sent_map_Sent started_map_Sent)
qed

lemma processUserMessage_app_sends:
  assumes "sends_succeed oc"
  shows "sent (fst (processUserMessage_app oc c)) = expected_app (c, oc)
     \<and> started (fst (processUserMessage_app oc c)) = [c]"
proof -
  have rej: "\<forall>n. \<not> send_rejects oc n" using assms by (simp add: sends_succeed_def)
  show ?thesis
    by (cases "ask oc")
      (simp_all add: processUserMessage_app_def send_chunks_ok [OF rej] sent_map_Sent
        started_map_Sent sent_append started_append)
qed

lemma started_send_chunks: "started (fst (send_chunks c rej n bs)) = []"
proof (induction bs arbitrary: n)
  case Nil
  show ?case by simp
next
  case (Cons b bs)
  obtain es m ok where r: "send_chunks c rej (Suc n) bs = (es, m, ok)"
    by (cases "send_chunks c rej (Suc n) bs")
  with Cons [of "Suc n"] show ?case by simp
qed

lemma processUserMessage_app_started: "started (fst (processUserMessage_app oc c)) = [c]"
proof (cases "ask oc")
  case Rejects
  then show ?thesis by (simp add: processUserMessage_app_def)
next
  case (Resolves r)
  obtain es m ok where s: "send_chunks c (send_rejects oc) 0 (chunks_app r) = (es, m, ok)"
    by (cases "send_chunks c (send_rejects oc) 0 (chunks_app r)")
  with started_send_chunks [of c "send_rejects oc" 0 "chunks_app r"] have "started es = []"
    by simp
  with Resolves s show ?thesis by (simp add: processUserMessage_app_def)
qed

lemma drain_app_started: "started (drain_app tasks) = map fst tasks"
proof (induction tasks)
  case Nil
  show ?case by simp
next
  case (Cons t tasks)
  obtain c oc where t: "t = (c, oc)" by (cases t)
  obtain es n r where p: "processUserMessage_app oc c = (es, n, r)"
    by (cases "processUserMessage_app oc c")
  with processUserMessage_app_started [of oc c] have "started es = [c]" by simp
  with Cons p t show ?case by (cases r) (simp_all add: started_append)
qed

lemma drain_app_sent:
  assumes "\<forall>t\<in>set tasks. sends_succeed (snd t)"
  shows "sent (drain_app tasks) = concat (map expected_app tasks)"
  using assms
proof (induction tasks)
  case Nil
  show ?case by simp
next
  case (Cons t tasks)
  obtain c oc where t: "t = (c, oc)" by (cases t)
  have ok: "sends_succeed oc" using Cons.prems t by simp
  obtain es n r where p: "processUserMessage_app oc c = (es, n, r)"
    by (cases "processUserMessage_app oc c")
  with processUserMessage_app_sends [OF ok, of c] have "sent es = expected_app (c, oc)" by simp
  with Cons p t show ?case by (cases r) (simp_all add: sent_append)
qed

section \<open>What a drain sends\<close>

lemmas code_units = LF_def SPACE_def STAR_def DASH_def LBRACKET_def RBRACKET_def LLENT_def RLENT_def

lemma processUserMessage_p1_started: "started (fst (processUserMessage_p1 oc c)) = [c]"
proof -
  have s: "started (fst (send_chunks c (send_rejects oc) 0 bs)) = []" for bs
    by (rule started_send_chunks)
  show ?thesis
  proof (cases "ask oc")
    case Rejects
    then show ?thesis by (simp add: processUserMessage_p1_def started_append)
  next
    case (Resolves r)
    obtain es m ok where c: "send_chunks c (send_rejects oc) 0 (chunks_p1 r) = (es, m, ok)"
      by (cases "send_chunks c (send_rejects oc) 0 (chunks_p1 r)")
    with s [of "chunks_p1 r"] have "started es = []" by simp
    with Resolves c show ?thesis
      by (cases ok) (simp_all add: processUserMessage_p1_def started_append)
  qed
qed

lemma drain_p1_single:
  "drain_p1 [(c, oc)] =
     (case processUserMessage_p1 oc c of
        (es, n, Returned) \<Rightarrow> (es, Returned)
      | (es, n, Threw) \<Rightarrow>
          if send_rejects oc n then (es @ [Logged c, SendFailed c failure_notice], Threw)
          else (es @ [Logged c, Sent c failure_notice], Returned))"
  by (simp split: prod.splits completion.splits)

lemma drain_p1_Cons:
  assumes "\<not> aborts_p1 t"
  shows "drain_p1 (t # tasks) = (fst (drain_p1 [t]) @ fst (drain_p1 tasks), snd (drain_p1 tasks))"
    and "snd (drain_p1 [t]) = Returned"
proof -
  obtain c oc where t: "t = (c, oc)" by (cases t)
  obtain es n r where p: "processUserMessage_p1 oc c = (es, n, r)"
    by (cases "processUserMessage_p1 oc c")
  obtain es' r' where d: "drain_p1 tasks = (es', r')" by (cases "drain_p1 tasks")
  from assms t p have a: "r = Threw \<Longrightarrow> \<not> send_rejects oc n" by (simp add: aborts_p1_def)
  from a t p d show "drain_p1 (t # tasks) = (fst (drain_p1 [t]) @ fst (drain_p1 tasks), snd (drain_p1 tasks))"
    by (cases r) simp_all
  from a t p show "snd (drain_p1 [t]) = Returned"
    by (cases r) simp_all
qed

lemma drain_p1_started_single: "started (fst (drain_p1 [t])) = [fst t]"
proof -
  obtain c oc where t: "t = (c, oc)" by (cases t)
  obtain es n r where p: "processUserMessage_p1 oc c = (es, n, r)"
    by (cases "processUserMessage_p1 oc c")
  with processUserMessage_p1_started [of oc c] have "started es = [c]" by simp
  with t p show ?thesis by (cases r) (simp_all add: started_append)
qed

lemma drain_p1_no_abort:
  assumes "\<forall>t\<in>set tasks. \<not> aborts_p1 t"
  shows "snd (drain_p1 tasks) = Returned
     \<and> started (fst (drain_p1 tasks)) = map fst tasks
     \<and> sent (fst (drain_p1 tasks)) = concat (map (\<lambda>t. sent (fst (drain_p1 [t]))) tasks)"
  using assms
proof (induction tasks)
  case Nil
  show ?case by simp
next
  case (Cons t tasks)
  then have a: "\<not> aborts_p1 t" by simp
  define e where "e = fst (drain_p1 [t])"
  have d: "drain_p1 (t # tasks) = (e @ fst (drain_p1 tasks), snd (drain_p1 tasks))"
    unfolding e_def by (rule drain_p1_Cons(1) [OF a])
  have s: "started e = [fst t]"
    unfolding e_def by (rule drain_p1_started_single)
  have ih: "snd (drain_p1 tasks) = Returned" "started (fst (drain_p1 tasks)) = map fst tasks"
    "sent (fst (drain_p1 tasks)) = concat (map (\<lambda>t. sent (fst (drain_p1 [t]))) tasks)"
    using Cons by simp_all
  have "concat (map (\<lambda>t. sent (fst (drain_p1 [t]))) (t # tasks))
      = sent e @ concat (map (\<lambda>t. sent (fst (drain_p1 [t]))) tasks)"
    by (simp only: e_def list.map concat.simps)
  then show ?case
    unfolding d by (simp only: fst_conv snd_conv ih s started_append sent_append list.map) simp
qed

lemma failed_completion_p1:
  assumes "completion_fails oc" "\<not> typing_rejects oc"
  shows "processUserMessage_p1 oc c =
     (if send_rejects oc 0
      then ([Typing c, Asked c, Logged c, SendFailed c failure_notice], 1, Threw)
      else ([Typing c, Asked c, Logged c, Sent c failure_notice], 1, Returned))"
  using assms by (cases "ask oc") (simp_all add: processUserMessage_p1_def completion_fails_def)

lemma failed_completion_aborts:
  assumes "completion_fails oc" "\<not> typing_rejects oc"
  shows "aborts_p1 (c, oc) \<longleftrightarrow> send_rejects oc 0 \<and> send_rejects oc 1"
  by (simp add: aborts_p1_def failed_completion_p1 [OF assms])

lemma failed_completion_notice:
  assumes "completion_fails oc" "\<not> typing_rejects oc" "\<not> (send_rejects oc 0 \<and> send_rejects oc 1)"
  shows "fst (drain_p1 [(c, oc)]) =
     (if send_rejects oc 0
      then [Typing c, Asked c, Logged c, SendFailed c failure_notice, Logged c, Sent c failure_notice]
      else [Typing c, Asked c, Logged c, Sent c failure_notice])"
  using assms(3) by (simp add: failed_completion_p1 [OF assms(1,2)])

lemma failed_completion_app:
  assumes "ask oc = Rejects" "\<not> typing_rejects oc"
  shows "drain_app ((c, oc) # tasks) = [Typing c, Asked c, Logged c] @ drain_app tasks"
  using assms by (simp add: processUserMessage_app_def)


text \<open>
  In app.ts a rejected completion call sends nothing to the user, and an empty response is
  sent as one empty fragment. In part\_001 a task whose failure notice is rejected twice
  ends the loop: the task after it is not taken up.
\<close>

theorem failed_completion_counterexample:
  "sent (drain_app [(msg 0, ask_fails)]) = []
   \<and> sent (drain_app [(msg 0, answers [])]) = [(msg 0, [])]
   \<and> drain_p1 [(msg 0, ask_fails_unreachable), (msg 1, answers para_c)]
       = ([Typing (msg 0), Asked (msg 0), Logged (msg 0), SendFailed (msg 0) failure_notice,
           Logged (msg 0), SendFailed (msg 0) failure_notice], Threw)"
  by (simp add: processUserMessage_app_def processUserMessage_p1_def ask_fails_def answers_def
      ask_fails_unreachable_def chunks_app_def clean_app_def trim_def)

text \<open>
  Claim C5, as the code has it. In part\_001, for every queue of tasks none of which has
  its failure notice rejected twice, the drain loop takes up every task in order and ends
  normally, and what reaches the user is, task by task, what the task alone would send. A
  task whose completion call fails (it throws or returns an empty response) has its notice
  rejected twice exactly when the first two \<^verbatim>\<open>flowDynamic\<close> calls made for it are
  rejected; otherwise exactly one failure notice reaches the user, from the \<^verbatim>\<open>catch\<close>
  of \<^verbatim>\<open>processUserMessage\<close> or, when that send is rejected, from the \<^verbatim>\<open>catch\<close> of
  \<^verbatim>\<open>handleQueue\<close>. When no \<^verbatim>\<open>flowDynamic\<close> call is rejected at all, every other
  task sends its fragments. In app.ts the loop takes up every task in order, whatever
  fails; a rejected completion call is logged, nothing is sent for it, and the loop goes on
  with the next task.
\<close>

theorem drain_recovers_from_failed_completion:
  "((\<forall>t\<in>set tasks. \<not> aborts_p1 t) \<longrightarrow>
      snd (drain_p1 tasks) = Returned
      \<and> started (fst (drain_p1 tasks)) = map fst tasks
      \<and> sent (fst (drain_p1 tasks)) = concat (map (\<lambda>t. sent (fst (drain_p1 [t]))) tasks))
   \<and> (completion_fails oc \<and> \<not> typing_rejects oc \<longrightarrow>
      (aborts_p1 (c, oc) \<longleftrightarrow> send_rejects oc 0 \<and> send_rejects oc 1))
   \<and> (completion_fails oc \<and> \<not> typing_rejects oc \<and> \<not> (send_rejects oc 0 \<and> send_rejects oc 1) \<longrightarrow>
      sent (fst (drain_p1 [(c, oc)])) = [(c, failure_notice)]
      \<and> fst (drain_p1 [(c, oc)]) =
          (if send_rejects oc 0
           then [Typing c, Asked c, Logged c, SendFailed c failure_notice,
                 Logged c, Sent c failure_notice]
           else [Typing c, Asked c, Logged c, Sent c failure_notice]))
   \<and> ((\<forall>t\<in>set tasks. sends_succeed (snd t)) \<longrightarrow>
      snd (drain_p1 tasks) = Returned
      \<and> started (fst (drain_p1 tasks)) = map fst tasks
      \<and> sent (fst (drain_p1 tasks)) = concat (map expected_p1 tasks))
   \<and> (completion_fails oc \<longrightarrow> expected_p1 (c, oc) = [(c, failure_notice)])
   \<and> started (drain_app tasks') = map fst tasks'
   \<and> ((\<forall>t\<in>set tasks'. sends_succeed (snd t)) \<longrightarrow>
      sent (drain_app tasks') = concat (map expected_app tasks'))
   \<and> (ask oc = Rejects \<and> \<not> typing_rejects oc \<longrightarrow>
      drain_app ((c, oc) # tasks') = [Typing c, Asked c, Logged c] @ drain_app tasks')"
proof -
  have n: "sent (fst (drain_p1 [(c, oc)])) = [(c, failure_notice)]
      \<and> fst (drain_p1 [(c, oc)]) =
          (if send_rejects oc 0
           then [Typing c, Asked c, Logged c, SendFailed c failure_notice,
                 Logged c, Sent c failure_notice]
           else [Typing c, Asked c, Logged c, Sent c failure_notice])"
    if "completion_fails oc" "\<not> typing_rejects oc" "\<not> (send_rejects oc 0 \<and> send_rejects oc 1)"
    unfolding failed_completion_notice [OF that] by simp
  show ?thesis
    apply (intro conjI impI)
    subgoal using drain_p1_no_abort [of tasks] by blast
    subgoal using drain_p1_no_abort [of tasks] by blast
    subgoal using drain_p1_no_abort [of tasks] by blast
    subgoal using failed_completion_aborts [of oc c] by blast
    subgoal using n by blast
    subgoal using n by blast
    subgoal using drain_p1_all [of tasks] by blast
    subgoal using drain_p1_all [of tasks] by blast
    subgoal using drain_p1_all [of tasks] by blast
    subgoal by simp
    subgoal by (rule drain_app_started)
    subgoal by (rule drain_app_sent)
    subgoal using failed_completion_app [of oc c tasks'] by blast
    done
qed


theorem drain_recovers_from_failed_completion_witness:
  "snd (drain_p1 [(msg 0, answers para_c), (msg 1, ask_fails_notice_once), (msg 2, answers para_c)])
       = Returned
   \<and> started (fst (drain_p1 [(msg 0, answers para_c), (msg 1, ask_fails_notice_once),
         (msg 2, answers para_c)]))
       = [msg 0, msg 1, msg 2]
   \<and> sent (fst (drain_p1 [(msg 0, answers para_c), (msg 1, ask_fails_notice_once),
         (msg 2, answers para_c)]))
       = [(msg 0, para_c), (msg 1, failure_notice), (msg 2, para_c)]
   \<and> fst (drain_p1 [(msg 1, ask_fails_notice_once)])
       = [Typing (msg 1), Asked (msg 1), Logged (msg 1), SendFailed (msg 1) failure_notice,
          Logged (msg 1), Sent (msg 1) failure_notice]
   \<and> snd (drain_p1 [(msg 0, answers para_c), (msg 1, ask_fails), (msg 2, answers para_c)]) = Returned
   \<and> started (fst (drain_p1 [(msg 0, answers para_c), (msg 1, ask_fails), (msg 2, answers para_c)]))
       = [msg 0, msg 1, msg 2]
   \<and> sent (fst (drain_p1 [(msg 0, answers para_c), (msg 1, ask_fails), (msg 2, answers para_c)]))
       = [(msg 0, para_c), (msg 1, failure_notice), (msg 2, para_c)]
   \<and> started (drain_app [(msg 0, answers para_c), (msg 1, ask_fails), (msg 2, answers para_c)])
       = [msg 0, msg 1, msg 2]
   \<and> sent (drain_app [(msg 0, answers para_c), (msg 1, ask_fails), (msg 2, answers para_c)])
       = [(msg 0, para_c), (msg 2, para_c)]
   \<and> drain_app [(msg 1, ask_fails)] = [Typing (msg 1), Asked (msg 1), Logged (msg 1)]"
proof -
  let ?once = "[(msg 0, answers para_c), (msg 1, ask_fails_notice_once), (msg 2, answers para_c)]"
  let ?tasks = "[(msg 0, answers para_c), (msg 1, ask_fails), (msg 2, answers para_c)]"
  have ok: "\<forall>t\<in>set ?tasks. sends_succeed (snd t)"
    by (simp add: sends_succeed_def answers_def ask_fails_def)
  have f: "completion_fails ask_fails_notice_once" "\<not> typing_rejects ask_fails_notice_once"
    "\<not> (send_rejects ask_fails_notice_once 0 \<and> send_rejects ask_fails_notice_once 1)"
    "send_rejects ask_fails_notice_once 0"
    "ask ask_fails = Rejects" "\<not> typing_rejects ask_fails"
    by (simp_all add: completion_fails_def ask_fails_notice_once_def ask_fails_def)
  have c1: "chunks_p1 para_c = [para_c]"
    by (simp add: chunks_p1_def clean_p1_def para_c_def trim_def is_space_def
        is_line_terminator_def code_units)
  have c2: "chunks_app para_c = [para_c]"
    by (simp add: chunks_app_def clean_app_def para_c_def trim_def is_space_def
        is_line_terminator_def code_units)
  have ne: "para_c \<noteq> []" by (simp add: para_c_def)
  have p: "processUserMessage_p1 (answers para_c) c = ([Typing c, Asked c, Sent c para_c], 1, Returned)" for c
    by (simp add: processUserMessage_p1_def answers_def c1 ne)
  have na: "\<not> aborts_p1 (c, answers para_c)" for c
    by (simp add: aborts_p1_def p)
  have nb: "\<not> aborts_p1 (msg 1, ask_fails_notice_once)"
    using f 
      drain_recovers_from_failed_completion [where oc = ask_fails_notice_once and c = "msg 1", THEN conjunct2, THEN conjunct1]
    by blast
  have no: "\<forall>t\<in>set ?once. \<not> aborts_p1 t" using na nb by simp
  have one: "sent (fst (drain_p1 [(c, answers para_c)])) = [(c, para_c)]" for c
    by (simp add: p)
  have notice: "sent (fst (drain_p1 [(msg 1, ask_fails_notice_once)])) = [(msg 1, failure_notice)]
      \<and> fst (drain_p1 [(msg 1, ask_fails_notice_once)]) =
          (if send_rejects ask_fails_notice_once 0
           then [Typing (msg 1), Asked (msg 1), Logged (msg 1), SendFailed (msg 1) failure_notice,
                 Logged (msg 1), Sent (msg 1) failure_notice]
           else [Typing (msg 1), Asked (msg 1), Logged (msg 1), Sent (msg 1) failure_notice])"
    using f 
      drain_recovers_from_failed_completion [where oc = ask_fails_notice_once and c = "msg 1", THEN conjunct2, THEN conjunct2, THEN conjunct1]
    by blast
  have r1: "snd (drain_p1 ?once) = Returned
      \<and> started (fst (drain_p1 ?once)) = map fst ?once
      \<and> sent (fst (drain_p1 ?once)) = concat (map (\<lambda>t. sent (fst (drain_p1 [t]))) ?once)"
    using no 
      drain_recovers_from_failed_completion [where tasks = "[(msg 0, answers para_c), (msg 1, ask_fails_notice_once), (msg 2, answers para_c)]", THEN conjunct1]
    by blast
  have r2: "snd (drain_p1 ?tasks) = Returned
      \<and> started (fst (drain_p1 ?tasks)) = map fst ?tasks
      \<and> sent (fst (drain_p1 ?tasks)) = concat (map expected_p1 ?tasks)"
    using ok 
      drain_recovers_from_failed_completion [where tasks = "[(msg 0, answers para_c), (msg 1, ask_fails), (msg 2, answers para_c)]", THEN conjunct2, THEN conjunct2, THEN conjunct2, THEN conjunct1]
    by blast
  have r3: "started (drain_app ?tasks) = map fst ?tasks"
    by (rule 
      drain_recovers_from_failed_completion [where tasks' = "[(msg 0, answers para_c), (msg 1, ask_fails), (msg 2, answers para_c)]", THEN conjunct2, THEN conjunct2, THEN conjunct2, THEN conjunct2, THEN conjunct2, THEN conjunct1])
  have r4: "sent (drain_app ?tasks) = concat (map expected_app ?tasks)"
    using ok 
      drain_recovers_from_failed_completion [where tasks' = "[(msg 0, answers para_c), (msg 1, ask_fails), (msg 2, answers para_c)]", THEN conjunct2, THEN conjunct2, THEN conjunct2, THEN conjunct2, THEN conjunct2, THEN conjunct2, THEN conjunct1]
    by blast
  have r5: "drain_app ((msg 1, ask_fails) # []) = [Typing (msg 1), Asked (msg 1), Logged (msg 1)] @ drain_app []"
    using f 
      drain_recovers_from_failed_completion [where oc = ask_fails and c = "msg 1" and tasks' = "[]", THEN conjunct2, THEN conjunct2, THEN conjunct2, THEN conjunct2, THEN conjunct2, THEN conjunct2, THEN conjunct2]
    by blast
  have e: "concat (map expected_p1 ?tasks) = [(msg 0, para_c), (msg 1, failure_notice), (msg 2, para_c)]"
    "concat (map expected_app ?tasks) = [(msg 0, para_c), (msg 2, para_c)]"
    by (simp_all add: c1 c2 ne answers_def ask_fails_def completion_fails_def response_of_def)
  have m: "map fst ?once = [msg 0, msg 1, msg 2]" "map fst ?tasks = [msg 0, msg 1, msg 2]"
    by simp_all
  have cc: "concat (map (\<lambda>t. sent (fst (drain_p1 [t]))) ?once)
      = [(msg 0, para_c), (msg 1, failure_notice), (msg 2, para_c)]"
    by (simp only: list.map concat.simps one notice [THEN conjunct1] append.simps)
  have n2: "fst (drain_p1 [(msg 1, ask_fails_notice_once)])
       = [Typing (msg 1), Asked (msg 1), Logged (msg 1), SendFailed (msg 1) failure_notice,
          Logged (msg 1), Sent (msg 1) failure_notice]"
    using notice [THEN conjunct2] f(4) by (simp only: if_True)
  have r5': "drain_app [(msg 1, ask_fails)] = [Typing (msg 1), Asked (msg 1), Logged (msg 1)]"
    using r5 by (simp only: drain_app.simps append_Nil2)
  show ?thesis
    using r1 r2 r3 r4 r5' n2 unfolding m cc e by blast
qed

text \<open>
  In app.ts a paragraph with a line that holds only a bracket marker falls apart: the
  text has no blank line inside its two paragraphs, and three fragments are sent.
\<close>

theorem chunks_app_three_fragments_counterexample:
  "\<not> has_blank_line para_marker_line \<and> \<not> has_blank_line para_c
   \<and> chunks_app (para_marker_line @ LF # LF # para_c) = [[97], [98], [99]]"
  by (simp add: chunks_app_def clean_app_def para_marker_line_def para_c_def trim_def
      is_space_def is_line_terminator_def code_units)

lemma chunks_p1_two_paragraphs:
  assumes "\<not> has_blank_line p1" "\<not> has_blank_line p2"
  shows "chunks_p1 (p1 @ LF # LF # p2) = [clean_p1 p1, clean_p1 p2]"
proof -
  let ?n = "\<lambda>x. strip_dashes (halve_stars (strip_markers LLENT RLENT [] x))"
  have "chunks_p1 (p1 @ LF # LF # p2) = map ?n (map trim (split_blank_lines (p1 @ LF # LF # p2)))"
    by (simp add: chunks_p1_def clean_p1_def comp_def)
  also have "\<dots> = [?n (trim p1), ?n (trim p2)]"
    by (simp add: two_paragraphs_split [OF assms])
  finally show ?thesis by (simp add: clean_p1_def)
qed

lemma chunks_app_two_paragraphs:
  assumes "\<not> has_blank_line (clean_app p1)" "\<not> has_blank_line (clean_app p2)"
  shows "chunks_app (p1 @ LF # LF # p2) = [trim (clean_app p1), trim (clean_app p2)]"
  by (simp add: chunks_app_def clean_app_blank_line two_paragraphs_split [OF assms])

lemma split_at_run:
  assumes "\<not> has_blank_line p"
  shows "\<exists>a. split_blank_lines (p @ replicate (n + 2) LF @ s)
        = a # split_blank_lines (dropWhile (\<lambda>x. x = LF) s)
      \<and> (a = p \<or> p = a @ [LF])"
proof -
  have d: "dropWhile (\<lambda>x. x = LF) (replicate n LF @ s) = dropWhile (\<lambda>x. x = LF) s"
    by (induction n) simp_all
  from split_at_blank_line [OF assms, of "replicate n LF @ s"] show ?thesis
    by (simp add: d)
qed

lemma trim_LF_snoc: "trim (a @ [LF]) = trim a"
  using LF_is_space by (rule trim_snoc_space)

lemma dropWhile_paragraphs:
  assumes "\<exists>x\<in>set q. x \<noteq> LF"
  shows "dropWhile (\<lambda>x. x = LF) (paragraphs_text q rest)
     = paragraphs_text (dropWhile (\<lambda>x. x = LF) q) rest"
proof -
  have "dropWhile (\<lambda>x. x = LF) (q @ t) = dropWhile (\<lambda>x. x = LF) q @ t" for t
    using assms by (auto simp add: dropWhile_append)
  then show ?thesis by (cases rest) auto
qed

lemma paragraphs_split:
  assumes "\<not> has_blank_line p" "separated rest"
  shows "map trim (split_blank_lines (paragraphs_text p rest)) = map trim (p # map snd rest)"
  using assms
proof (induction rest arbitrary: p)
  case Nil
  then show ?case by (simp add: split_no_blank_line)
next
  case (Cons nq rest)
  obtain n q where nq: "nq = (n, q)" by (cases nq)
  from split_at_run [OF Cons.prems(1), of n "paragraphs_text q rest"] obtain a where
    a: "split_blank_lines (p @ replicate (n + 2) LF @ paragraphs_text q rest)
        = a # split_blank_lines (dropWhile (\<lambda>x. x = LF) (paragraphs_text q rest))"
      "a = p \<or> p = a @ [LF]"
    by blast
  have ta: "trim a = trim p" using a(2) by (auto simp add: trim_LF_snoc)
  have nbq: "\<not> has_blank_line q" using Cons.prems(2) nq by (cases rest) simp_all
  have "map trim (split_blank_lines (dropWhile (\<lambda>x. x = LF) (paragraphs_text q rest)))
      = map trim (q # map snd rest)"
  proof (cases rest)
    case Nil
    have "split_blank_lines (dropWhile (\<lambda>x. x = LF) q) = [dropWhile (\<lambda>x. x = LF) q]"
      using nbq by (intro split_no_blank_line no_blank_line_after_drop)
    with Nil show ?thesis by (simp add: trim_drop_line_feeds)
  next
    case (Cons r rest')
    with Cons.prems(2) nq have q: "\<exists>x\<in>set q. x \<noteq> LF" and s: "separated rest" by simp_all
    have "map trim (split_blank_lines (paragraphs_text (dropWhile (\<lambda>x. x = LF) q) rest))
        = map trim (dropWhile (\<lambda>x. x = LF) q # map snd rest)"
      using nbq s by (intro Cons.IH no_blank_line_after_drop)
    then show ?thesis by (simp add: dropWhile_paragraphs [OF q] trim_drop_line_feeds)
  qed
  with a(1) ta nq show ?case by simp
qed


lemma paragraphs_text_Cons: "paragraphs_text (c # p) rest = c # paragraphs_text p rest"
  by (cases rest) auto

lemma paragraphs_text_Nil: "paragraphs_text p rest = [] \<longleftrightarrow> p = [] \<and> rest = []"
  by (cases rest) auto

lemma paragraphs_text_hd: "p \<noteq> [] \<Longrightarrow> hd (paragraphs_text p rest) = hd p"
  by (cases rest) auto

lemma take_drop_line_feeds:
  "s = replicate (length (takeWhile (\<lambda>x. x = LF) s)) LF @ dropWhile (\<lambda>x. x = LF) s"
  by (induction s) simp_all

lemma paragraphs_decompose:
  "\<exists>p rest. r = paragraphs_text p rest \<and> \<not> has_blank_line p \<and> separated rest
     \<and> (r \<noteq> [] \<and> hd r \<noteq> LF \<longrightarrow> p \<noteq> [] \<and> hd p \<noteq> LF)"
proof (induction r rule: split_blank_lines.induct)
  case 1
  have "[] = paragraphs_text [] [] \<and> \<not> has_blank_line [] \<and> separated []" by simp
  then show ?case by blast
next
  case (2 c)
  have "[c] = paragraphs_text [c] [] \<and> \<not> has_blank_line [c] \<and> separated []" by simp
  then show ?case by fastforce
next
  case (3 c d s)
  show ?case
  proof (cases "c = LF \<and> d = LF")
    case True
    define k where "k = length (takeWhile (\<lambda>x. x = LF) s)"
    define s' where "s' = dropWhile (\<lambda>x. x = LF) s"
    have s: "s = replicate k LF @ s'"
      unfolding k_def s'_def by (rule take_drop_line_feeds)
    from "3.IH"(1) [OF True] obtain q rest where
      q: "s' = paragraphs_text q rest" "\<not> has_blank_line q" "separated rest"
        "s' \<noteq> [] \<and> hd s' \<noteq> LF \<longrightarrow> q \<noteq> [] \<and> hd q \<noteq> LF"
      unfolding s'_def by blast
    have hd: "s' \<noteq> [] \<Longrightarrow> hd s' \<noteq> LF"
      unfolding s'_def using hd_dropWhile [of "\<lambda>x. x = LF" s] by blast
    have sep: "separated ((k, q) # rest)"
    proof (cases rest)
      case Nil
      with q(2) show ?thesis by simp
    next
      case (Cons r rest')
      then have "s' \<noteq> []" using q(1) by (simp add: paragraphs_text_Nil)
      with hd q(4) have "q \<noteq> []" "hd q \<noteq> LF" by simp_all
      then have "\<exists>x\<in>set q. x \<noteq> LF" by (cases q) auto
      with Cons q(2,3) show ?thesis by simp
    qed
    have "c # d # s = paragraphs_text [] ((k, q) # rest)"
      using True s q(1) by (simp add: replicate_app_Cons_same)
    with sep show ?thesis using True by fastforce
  next
    case False
    from "3.IH"(2) [OF False] obtain p rest where
      p: "d # s = paragraphs_text p rest" "\<not> has_blank_line p" "separated rest"
        "d \<noteq> LF \<longrightarrow> p \<noteq> [] \<and> hd p \<noteq> LF"
      by auto
    have nb: "\<not> has_blank_line (c # p)"
    proof (cases p)
      case Nil
      then show ?thesis by simp
    next
      case (Cons e p')
      with p(1) have "e = d" using paragraphs_text_hd [of p rest] by (metis list.sel(1) list.simps(3))
      with Cons p(2) False show ?thesis by simp
    qed
    have "c # d # s = paragraphs_text (c # p) rest \<and> \<not> has_blank_line (c # p) \<and> separated rest
        \<and> (c # d # s \<noteq> [] \<and> hd (c # d # s) \<noteq> LF \<longrightarrow> c # p \<noteq> [] \<and> hd (c # p) \<noteq> LF)"
      using p(1,3) nb by (simp add: paragraphs_text_Cons)
    then show ?thesis by blast
  qed
qed

lemma clean_app_line: "clean_app (p @ LF # s) = clean_app p @ LF # clean_app s"
proof -
  have ne: "LBRACKET \<noteq> LF" "RBRACKET \<noteq> LF" "LF \<notin> set []"
    by (simp_all add: LBRACKET_def RBRACKET_def LF_def)
  show ?thesis
    by (simp add: clean_app_def strip_markers_line [OF ne] collapse_emphasis_line)
qed

lemma clean_app_Nil: "clean_app [] = []"
  by (simp add: clean_app_def)

lemma clean_app_run:
  "clean_app (p @ replicate (Suc n) LF @ s) = clean_app p @ replicate (Suc n) LF @ clean_app s"
proof (induction n arbitrary: p)
  case 0
  show ?case by (simp add: clean_app_line)
next
  case (Suc n)
  have "clean_app (p @ LF # replicate (Suc n) LF @ s)
      = clean_app p @ LF # clean_app ([] @ replicate (Suc n) LF @ s)"
    using clean_app_line [of p "replicate (Suc n) LF @ s"] by simp
  also have "clean_app ([] @ replicate (Suc n) LF @ s) = clean_app [] @ replicate (Suc n) LF @ clean_app s"
    by (rule Suc.IH)
  finally show ?case by (simp add: clean_app_Nil)
qed

lemma clean_app_paragraphs:
  "clean_app (paragraphs_text p rest)
     = paragraphs_text (clean_app p) (map (\<lambda>nq. (fst nq, clean_app (snd nq))) rest)"
proof (induction rest arbitrary: p)
  case Nil
  show ?case by simp
next
  case (Cons nq rest)
  obtain n q where nq: "nq = (n, q)" by (cases nq)
  have "clean_app (p @ replicate (Suc (Suc n)) LF @ paragraphs_text q rest)
      = clean_app p @ replicate (Suc (Suc n)) LF @ clean_app (paragraphs_text q rest)"
    by (rule clean_app_run)
  with Cons.IH [of q] nq show ?case by simp
qed

lemma chunks_p1_paragraphs:
  assumes "\<not> has_blank_line p" "separated rest"
  shows "chunks_p1 (paragraphs_text p rest)
     = map (\<lambda>x. strip_dashes (halve_stars (strip_markers LLENT RLENT [] (trim x)))) (p # map snd rest)"
proof -
  let ?n = "\<lambda>x. strip_dashes (halve_stars (strip_markers LLENT RLENT [] x))"
  have "chunks_p1 (paragraphs_text p rest) = map ?n (map trim (split_blank_lines (paragraphs_text p rest)))"
    by (simp add: chunks_p1_def clean_p1_def comp_def)
  also have "\<dots> = map ?n (map trim (p # map snd rest))"
    by (simp only: paragraphs_split [OF assms])
  finally show ?thesis by (simp add: comp_def)
qed

lemma chunks_app_paragraphs:
  assumes "\<not> has_blank_line (clean_app p)"
    "separated (map (\<lambda>nq. (fst nq, clean_app (snd nq))) rest)"
  shows "chunks_app (paragraphs_text p rest)
     = map (\<lambda>x. trim (collapse_emphasis (strip_markers LBRACKET RBRACKET [] x))) (p # map snd rest)"
proof -
  have "chunks_app (paragraphs_text p rest)
      = map trim (clean_app p # map snd (map (\<lambda>nq. (fst nq, clean_app (snd nq))) rest))"
    unfolding chunks_app_def clean_app_paragraphs by (rule paragraphs_split [OF assms])
  then show ?thesis by (simp add: comp_def clean_app_def)
qed

lemma strip_dashes_none: "\<not> has_dash_item s \<Longrightarrow> strip_dashes s = s"
  by (induction s rule: strip_dashes.induct) auto

lemma strip_dashes_first:
  assumes "\<not> has_dash_item (a @ [LF, DASH])" "is_space c"
  shows "strip_dashes (a @ LF # DASH # c # b) = a @ LF # strip_dashes b"
  using assms
proof (induction a)
  case Nil
  then show ?case by simp
next
  case (Cons x a)
  obtain y z r where r: "a @ LF # DASH # c # b = y # z # r"
    by (cases a; cases "tl a") auto
  obtain r' where r': "a @ [LF, DASH] = y # z # r'"
    using r by (cases a; cases "tl a") auto
  from Cons.prems(1) r' have n: "\<not> (x = LF \<and> y = DASH \<and> is_space z)" "\<not> has_dash_item (a @ [LF, DASH])"
    by simp_all
  have "strip_dashes (x # a @ LF # DASH # c # b) = x # strip_dashes (a @ LF # DASH # c # b)"
    using n(1) unfolding r by auto
  with Cons.IH [OF n(2) Cons.prems(2)] show ?case by simp
qed

lemma halve_stars_none: "\<not> has_double_star s \<Longrightarrow> halve_stars s = s"
  by (induction s rule: halve_stars.induct) auto

lemma halve_stars_first:
  assumes "\<not> has_double_star (a @ [STAR])"
  shows "halve_stars (a @ STAR # STAR # b) = a @ STAR # halve_stars b"
  using assms
proof (induction a)
  case Nil
  then show ?case by simp
next
  case (Cons x a)
  obtain y r where r: "a @ STAR # STAR # b = y # r" by (cases a) auto
  obtain r' where r': "a @ [STAR] = y # r'" using r by (cases a) auto
  from Cons.prems r' have n: "\<not> (x = STAR \<and> y = STAR)" "\<not> has_double_star (a @ [STAR])"
    by simp_all
  have "halve_stars (x # a @ STAR # STAR # b) = x # halve_stars (a @ STAR # STAR # b)"
    using n(1) unfolding r by auto
  with Cons.IH [OF n(2)] show ?case by simp
qed

lemma trim_strips:
  assumes "\<forall>c\<in>set l. is_space c" "\<forall>c\<in>set t. is_space c"
    "x = [] \<or> \<not> is_space (hd x) \<and> \<not> is_space (last x)"
  shows "trim (l @ x @ t) = x"
proof (cases "x = []")
  case True
  from True assms(1,2) have e: "dropWhile is_space (l @ x @ t) = []"
    by (auto simp add: dropWhile_eq_Nil_conv)
  show ?thesis unfolding trim_def e using True by simp
next
  case False
  with assms(3) have h: "\<not> is_space (hd x)" "\<not> is_space (last x)" by simp_all
  from False h(1) have d1: "dropWhile is_space (l @ x @ t) = x @ t"
    using assms(1) by (cases x) (simp_all add: dropWhile_append)
  from False h(2) have d2: "dropWhile is_space (rev t @ rev x) = rev x"
    using assms(2) by (cases x rule: rev_cases) (simp_all add: dropWhile_append)
  show ?thesis by (simp add: trim_def d1 d2)
qed


lemma find_close_none:
  "cl \<notin> set m \<Longrightarrow> r = [] \<or> is_line_terminator (hd r) \<and> hd r \<noteq> cl \<Longrightarrow>
     find_close cl [] (m @ r) = None"
  by (induction m) (cases r; auto)+

lemma strip_markers_unclosed:
  assumes "opn \<notin> set a" "cl \<notin> set m" "r = [] \<or> is_line_terminator (hd r) \<and> hd r \<noteq> cl"
  shows "strip_markers opn cl [] (a @ opn # m @ r) = a @ opn # strip_markers opn cl [] (m @ r)"
  using assms by (simp add: strip_markers_prefix find_close_none)

lemma collapse_emphasis_none: "\<not> has_double_star s \<Longrightarrow> collapse_emphasis s = s"
  by (induction s rule: collapse_emphasis.induct) auto

text \<open>
  Claim C6, as the code has it. With all external calls succeeding,
  \<^verbatim>\<open>processUserMessage\<close> sends the fragments of the response one by one and in order
  (in part\_001 for a non-empty response). Every response is a sequence of paragraphs
  without blank lines, separated by runs of two or more line feeds. part\_001 splits the raw
  response at every such run and sends, for each paragraph in order, the trimmed paragraph
  with the lenticular markers removed, then \<^verbatim>\<open>**\<close> replaced by \<^verbatim>\<open>*\<close>, then
  \<^verbatim>\<open>-\<close> and the white space after it removed behind each line feed; so two
  paragraphs separated by one blank line give exactly two fragments. app.ts removes the
  ASCII bracket markers and turns \<^verbatim>\<open>**t**\<close> into \<^verbatim>\<open>*t*\<close> on the whole response
  first and splits and trims afterwards: it sends one trimmed fragment per paragraph when
  cleaning leaves no blank line inside a paragraph and no paragraph between two runs
  without text. The remaining statements say what the single steps do: \<^verbatim>\<open>trim\<close>;
  a marker is removed from the first opening bracket to the first closing bracket on the
  same line, and an opening bracket without one stays; the leftmost \<^verbatim>\<open>**\<close> becomes
  \<^verbatim>\<open>*\<close>; the leftmost line feed, \<^verbatim>\<open>-\<close>, white space becomes a line feed (a
  \<^verbatim>\<open>-\<close> at the start of a fragment stays); a text without a match is unchanged.
\<close>

theorem fragments_of_a_response:
  "(sends_succeed oc \<and> \<not> typing_rejects oc \<and> ask oc = Resolves r \<and> r \<noteq> [] \<longrightarrow>
      sent (fst (processUserMessage_p1 oc c)) = map (Pair c) (chunks_p1 r))
   \<and> (sends_succeed oc \<and> \<not> typing_rejects oc \<and> ask oc = Resolves r \<longrightarrow>
      sent (fst (processUserMessage_app oc c)) = map (Pair c) (chunks_app r))
   \<and> (\<exists>p rest. r = paragraphs_text p rest \<and> \<not> has_blank_line p \<and> separated rest)
   \<and> (\<not> has_blank_line p \<and> separated rest \<longrightarrow>
      chunks_p1 (paragraphs_text p rest)
        = map (\<lambda>x. strip_dashes (halve_stars (strip_markers LLENT RLENT [] (trim x))))
            (p # map snd rest))
   \<and> (\<not> has_blank_line (clean_app p) \<and> separated (map (\<lambda>nq. (fst nq, clean_app (snd nq))) rest) \<longrightarrow>
      chunks_app (paragraphs_text p rest)
        = map (\<lambda>x. trim (collapse_emphasis (strip_markers LBRACKET RBRACKET [] x)))
            (p # map snd rest))
   \<and> (\<not> has_blank_line p1 \<and> \<not> has_blank_line p2 \<longrightarrow>
      chunks_p1 (p1 @ LF # LF # p2) = [clean_p1 p1, clean_p1 p2])
   \<and> (\<not> has_blank_line (clean_app p1) \<and> \<not> has_blank_line (clean_app p2) \<longrightarrow>
      chunks_app (p1 @ LF # LF # p2) = [trim (clean_app p1), trim (clean_app p2)])
   \<and> ((\<forall>x\<in>set w. is_space x) \<and> (\<forall>x\<in>set w'. is_space x)
        \<and> (s = [] \<or> \<not> is_space (hd s) \<and> \<not> is_space (last s)) \<longrightarrow>
      trim (w @ s @ w') = s)
   \<and> (LLENT \<notin> set a \<longrightarrow> strip_markers LLENT RLENT [] a = a)
   \<and> (LLENT \<notin> set a \<and> RLENT \<notin> set m \<and> (\<forall>x\<in>set m. \<not> is_line_terminator x) \<longrightarrow>
      strip_markers LLENT RLENT [] (a @ LLENT # m @ RLENT # b) = a @ strip_markers LLENT RLENT [] b)
   \<and> (LLENT \<notin> set a \<and> RLENT \<notin> set m \<and> (b = [] \<or> is_line_terminator (hd b)) \<longrightarrow>
      strip_markers LLENT RLENT [] (a @ LLENT # m @ b)
        = a @ LLENT # strip_markers LLENT RLENT [] (m @ b))
   \<and> (LBRACKET \<notin> set a \<longrightarrow> strip_markers LBRACKET RBRACKET [] a = a)
   \<and> (LBRACKET \<notin> set a \<and> RBRACKET \<notin> set m \<and> (\<forall>x\<in>set m. \<not> is_line_terminator x) \<longrightarrow>
      strip_markers LBRACKET RBRACKET [] (a @ LBRACKET # m @ RBRACKET # b)
        = a @ strip_markers LBRACKET RBRACKET [] b)
   \<and> (LBRACKET \<notin> set a \<and> RBRACKET \<notin> set m \<and> (b = [] \<or> is_line_terminator (hd b)) \<longrightarrow>
      strip_markers LBRACKET RBRACKET [] (a @ LBRACKET # m @ b)
        = a @ LBRACKET # strip_markers LBRACKET RBRACKET [] (m @ b))
   \<and> (\<not> has_double_star a \<longrightarrow> halve_stars a = a \<and> collapse_emphasis a = a)
   \<and> (\<not> has_double_star (a @ [STAR]) \<longrightarrow>
      halve_stars (a @ STAR # STAR # b) = a @ STAR # halve_stars b)
   \<and> (STAR \<notin> set a \<and> STAR \<notin> set t \<longrightarrow>
      halve_stars (a @ STAR # STAR # t @ STAR # STAR # b) = a @ STAR # t @ STAR # halve_stars b)
   \<and> (STAR \<notin> set a \<and> STAR \<notin> set t \<and> (\<forall>x\<in>set t. \<not> is_line_terminator x) \<longrightarrow>
      collapse_emphasis (a @ STAR # STAR # t @ STAR # STAR # b)
        = a @ STAR # t @ STAR # collapse_emphasis b)
   \<and> (\<not> has_dash_item a \<longrightarrow> strip_dashes a = a)
   \<and> (\<not> has_dash_item (a @ [LF, DASH]) \<and> is_space d \<longrightarrow>
      strip_dashes (a @ LF # DASH # d # b) = a @ LF # strip_dashes b)
   \<and> (sends_succeed oc \<and> \<not> typing_rejects oc \<and> ask oc = Resolves [] \<longrightarrow>
      sent (fst (processUserMessage_p1 oc c)) = [(c, failure_notice)])"
proof -
  have 1: "sent (fst (processUserMessage_p1 oc c)) = map (Pair c) (chunks_p1 r)"
    if "sends_succeed oc" "\<not> typing_rejects oc" "ask oc = Resolves r" "r \<noteq> []"
    using that
    by (simp add: processUserMessage_p1_sends completion_fails_def response_of_def sent_map_Sent)
  have 2: "sent (fst (processUserMessage_app oc c)) = map (Pair c) (chunks_app r)"
    if "sends_succeed oc" "\<not> typing_rejects oc" "ask oc = Resolves r"
    using that processUserMessage_app_sends [of oc c] by simp
  have 3: "\<exists>p rest. r = paragraphs_text p rest \<and> \<not> has_blank_line p \<and> separated rest"
    using paragraphs_decompose [of r] by blast
  have nl: "is_line_terminator (hd b) \<Longrightarrow> hd b \<noteq> RLENT \<and> hd b \<noteq> RBRACKET"
    by (auto simp add: is_line_terminator_def RLENT_def RBRACKET_def)
  have 4: "strip_markers LLENT RLENT [] (a @ LLENT # m @ b)
        = a @ LLENT # strip_markers LLENT RLENT [] (m @ b)"
    if "LLENT \<notin> set a" "RLENT \<notin> set m" "b = [] \<or> is_line_terminator (hd b)"
    using that nl by (intro strip_markers_unclosed) auto
  have 5: "strip_markers LBRACKET RBRACKET [] (a @ LBRACKET # m @ b)
        = a @ LBRACKET # strip_markers LBRACKET RBRACKET [] (m @ b)"
    if "LBRACKET \<notin> set a" "RBRACKET \<notin> set m" "b = [] \<or> is_line_terminator (hd b)"
    using that nl by (intro strip_markers_unclosed) auto
  show ?thesis
    apply (intro conjI impI)
    subgoal using 1 by blast
    subgoal using 2 by blast
    subgoal by (rule 3)
    subgoal by (rule chunks_p1_paragraphs) simp_all
    subgoal by (rule chunks_app_paragraphs) simp_all
    subgoal by (rule chunks_p1_two_paragraphs) simp_all
    subgoal by (rule chunks_app_two_paragraphs) simp_all
    subgoal by (rule trim_strips) simp_all
    subgoal by (rule strip_markers_none)
    subgoal by (rule strip_markers_one) simp_all
    subgoal by (rule 4) simp_all
    subgoal by (rule strip_markers_none)
    subgoal by (rule strip_markers_one) simp_all
    subgoal by (rule 5) simp_all
    subgoal by (rule halve_stars_none)
    subgoal by (rule collapse_emphasis_none)
    subgoal by (rule halve_stars_first)
    subgoal by (rule halve_stars_one) simp_all
    subgoal by (rule collapse_emphasis_one) simp_all
    subgoal by (rule strip_dashes_none)
    subgoal by (rule strip_dashes_first) simp_all
    subgoal by (simp add: processUserMessage_p1_sends completion_fails_def)
    done
qed


theorem fragments_of_a_response_witness:
  "sent (fst (processUserMessage_p1
        (answers (paragraphs_text para_hi_lent [(1, para_items), (0, para_c)])) (msg 0)))
     = [(msg 0, [STAR, 72, 105, STAR, SPACE]), (msg 0, [DASH, SPACE, 100, LF, 101]), (msg 0, [99])]
   \<and> sent (fst (processUserMessage_app (answers (paragraphs_text para_hi_ascii [(1, para_c)])) (msg 0)))
     = [(msg 0, [STAR, 72, 105, STAR]), (msg 0, [99])]
   \<and> chunks_p1 (para_hi_lent @ LF # LF # para_c) = [[STAR, 72, 105, STAR, SPACE], [99]]
   \<and> chunks_app (para_hi_ascii @ LF # LF # para_c) = [[STAR, 72, 105, STAR], [99]]
   \<and> (\<exists>p rest. para_marker_line = paragraphs_text p rest \<and> \<not> has_blank_line p \<and> separated rest)
   \<and> trim ([SPACE, LF] @ [72, SPACE, 105] @ [LF]) = [72, SPACE, 105]
   \<and> strip_markers LLENT RLENT [] ([72] @ LLENT # [52] @ RLENT # [105]) = [72, 105]
   \<and> strip_markers LLENT RLENT [] ([72] @ LLENT # [52] @ [LF, RLENT]) = [72, LLENT, 52, LF, RLENT]
   \<and> strip_markers LBRACKET RBRACKET [] ([72] @ LBRACKET # [52] @ RBRACKET # [105]) = [72, 105]
   \<and> strip_markers LBRACKET RBRACKET [] ([72] @ LBRACKET # [52] @ []) = [72, LBRACKET, 52]
   \<and> halve_stars ([72] @ STAR # STAR # [STAR, 105]) = [72, STAR, STAR, 105]
   \<and> halve_stars ([72] @ STAR # STAR # [52] @ STAR # STAR # [105]) = [72, STAR, 52, STAR, 105]
   \<and> collapse_emphasis ([72] @ STAR # STAR # [52] @ STAR # STAR # [105]) = [72, STAR, 52, STAR, 105]
   \<and> strip_dashes [DASH, SPACE, 100] = [DASH, SPACE, 100]
   \<and> strip_dashes ([DASH, SPACE, 100] @ LF # DASH # SPACE # [101]) = [DASH, SPACE, 100, LF, 101]
   \<and> sent (fst (processUserMessage_p1 (answers []) (msg 0))) = [(msg 0, failure_notice)]"
proof -
  note defs = trim_def is_space_def is_line_terminator_def code_units
  note paras = para_hi_lent_def para_hi_ascii_def para_c_def para_items_def para_marker_line_def
  let ?r1 = "paragraphs_text para_hi_lent [(1, para_items), (0, para_c)]"
  let ?r2 = "paragraphs_text para_hi_ascii [(1, para_c)]"
  have h1: "sends_succeed (answers r) \<and> \<not> typing_rejects (answers r) \<and> ask (answers r) = Resolves r" for r
    by (simp add: sends_succeed_def answers_def)
  have ne: "?r1 \<noteq> []" by (simp add: paras)
  have nb: "\<not> has_blank_line para_hi_lent" "\<not> has_blank_line para_c"
    "\<not> has_blank_line (clean_app para_hi_ascii)" "\<not> has_blank_line (clean_app para_c)"
    "separated [(1, para_items), (0, para_c)]"
    "separated (map (\<lambda>nq. (fst nq, clean_app (snd nq))) [(1, para_c)])"
    by (simp_all add: paras clean_app_def defs)
  have cl: "clean_p1 para_hi_lent = [STAR, 72, 105, STAR, SPACE]" "clean_p1 para_c = [99]"
    "trim (clean_app para_hi_ascii) = [STAR, 72, 105, STAR]" "trim (clean_app para_c) = [99]"
    "strip_dashes (halve_stars (strip_markers LLENT RLENT [] (trim para_hi_lent))) = [STAR, 72, 105, STAR, SPACE]"
    "strip_dashes (halve_stars (strip_markers LLENT RLENT [] (trim para_items))) = [DASH, SPACE, 100, LF, 101]"
    "strip_dashes (halve_stars (strip_markers LLENT RLENT [] (trim para_c))) = [99]"
    "trim (collapse_emphasis (strip_markers LBRACKET RBRACKET [] para_hi_ascii)) = [STAR, 72, 105, STAR]"
    "trim (collapse_emphasis (strip_markers LBRACKET RBRACKET [] para_c)) = [99]"
    by (simp_all add: paras clean_app_def clean_p1_def defs)
  have mk: "LLENT \<notin> set [72::nat]" "RLENT \<notin> set [52::nat]" "LBRACKET \<notin> set [72::nat]"
    "RBRACKET \<notin> set [52::nat]" "STAR \<notin> set [72::nat]" "STAR \<notin> set [52::nat]"
    "\<forall>x\<in>set [52::nat]. \<not> is_line_terminator x" "is_line_terminator (hd [LF, RLENT])"
    "\<not> has_double_star ([72] @ [STAR])" "\<not> has_dash_item [DASH, SPACE, 100]"
    "\<not> has_dash_item ([DASH, SPACE, 100] @ [LF, DASH])" "is_space SPACE"
    "\<forall>x\<in>set [SPACE, LF]. is_space x" "\<forall>x\<in>set [LF]. is_space x"
    "\<not> is_space (hd [72, SPACE, 105]) \<and> \<not> is_space (last [72, SPACE, 105])"
    by (simp_all add: defs)
  have tl: "strip_markers LLENT RLENT [] [105] = [105]" "strip_markers LBRACKET RBRACKET [] [105] = [105]"
    "strip_markers LLENT RLENT [] ([52] @ [LF, RLENT]) = [52, LF, RLENT]"
    "strip_markers LBRACKET RBRACKET [] ([52] @ []) = [52]"
    "halve_stars [105] = [105]" "collapse_emphasis [105] = [105]" "strip_dashes [101] = [101]"
    "halve_stars [STAR, 105] = [STAR, 105]"
    by (simp_all add: code_units)
  have a: "chunks_p1 ?r1 = [[STAR, 72, 105, STAR, SPACE], [DASH, SPACE, 100, LF, 101], [99]]"
    using nb cl 
      fragments_of_a_response [where p = para_hi_lent and rest = "[(1, para_items), (0, para_c)]", THEN conjunct2, THEN conjunct2, THEN conjunct2, THEN conjunct1]
    by simp
  have b: "chunks_app ?r2 = [[STAR, 72, 105, STAR], [99]]"
    using nb cl 
      fragments_of_a_response [where p = para_hi_ascii and rest = "[(1, para_c)]", THEN conjunct2, THEN conjunct2, THEN conjunct2, THEN conjunct2, THEN conjunct1]
    by simp
  have a2: "chunks_p1 (para_hi_lent @ LF # LF # para_c) = [[STAR, 72, 105, STAR, SPACE], [99]]"
    using nb cl 
      fragments_of_a_response [where ?p1.0 = para_hi_lent and ?p2.0 = para_c, THEN conjunct2, THEN conjunct2, THEN conjunct2, THEN conjunct2, THEN conjunct2, THEN conjunct1]
    by simp
  have b2: "chunks_app (para_hi_ascii @ LF # LF # para_c) = [[STAR, 72, 105, STAR], [99]]"
    using nb cl 
      fragments_of_a_response [where ?p1.0 = para_hi_ascii and ?p2.0 = para_c, THEN conjunct2, THEN conjunct2, THEN conjunct2, THEN conjunct2, THEN conjunct2, THEN conjunct2, THEN conjunct1]
    by simp
  have s1: "sent (fst (processUserMessage_p1 (answers ?r1) (msg 0))) = map (Pair (msg 0)) (chunks_p1 ?r1)"
    using h1 [of ?r1] ne 
      fragments_of_a_response [where oc = "answers (paragraphs_text para_hi_lent [(1, para_items), (0, para_c)])" and r = "paragraphs_text para_hi_lent [(1, para_items), (0, para_c)]" and c = "msg 0", THEN conjunct1]
    by blast
  have s2: "sent (fst (processUserMessage_app (answers ?r2) (msg 0))) = map (Pair (msg 0)) (chunks_app ?r2)"
    using h1 [of ?r2] 
      fragments_of_a_response [where oc = "answers (paragraphs_text para_hi_ascii [(1, para_c)])" and r = "paragraphs_text para_hi_ascii [(1, para_c)]" and c = "msg 0", THEN conjunct2, THEN conjunct1]
    by blast
  have d: "\<exists>p rest. para_marker_line = paragraphs_text p rest \<and> \<not> has_blank_line p \<and> separated rest"
    by (rule 
      fragments_of_a_response [where r = para_marker_line, THEN conjunct2, THEN conjunct2, THEN conjunct1])
  have t: "trim ([SPACE, LF] @ [72, SPACE, 105] @ [LF]) = [72, SPACE, 105]"
    using mk 
      fragments_of_a_response [where w = "[SPACE, LF]" and s = "[72, SPACE, 105]" and w' = "[LF]", THEN conjunct2, THEN conjunct2, THEN conjunct2, THEN conjunct2, THEN conjunct2, THEN conjunct2, THEN conjunct2, THEN conjunct1]
    by blast
  have n: "strip_markers LLENT RLENT [] ([72] @ LLENT # [52] @ RLENT # [105]) = [72] @ strip_markers LLENT RLENT [] [105]"
    using mk 
      fragments_of_a_response [where a = "[72]" and m = "[52]" and b = "[105]", THEN conjunct2, THEN conjunct2, THEN conjunct2, THEN conjunct2, THEN conjunct2, THEN conjunct2, THEN conjunct2, THEN conjunct2, THEN conjunct2, THEN conjunct1]
    by blast
  have n2: "strip_markers LBRACKET RBRACKET [] ([72] @ LBRACKET # [52] @ RBRACKET # [105]) = [72] @ strip_markers LBRACKET RBRACKET [] [105]"
    using mk 
      fragments_of_a_response [where a = "[72]" and m = "[52]" and b = "[105]", THEN conjunct2, THEN conjunct2, THEN conjunct2, THEN conjunct2, THEN conjunct2, THEN conjunct2, THEN conjunct2, THEN conjunct2, THEN conjunct2, THEN conjunct2, THEN conjunct2, THEN conjunct2, THEN conjunct1]
    by blast
  have n3: "halve_stars ([72] @ STAR # STAR # [52] @ STAR # STAR # [105]) = [72] @ STAR # [52] @ STAR # halve_stars [105]"
    using mk 
      fragments_of_a_response [where a = "[72]" and t = "[52]" and b = "[105]", THEN conjunct2, THEN conjunct2, THEN conjunct2, THEN conjunct2, THEN conjunct2, THEN conjunct2, THEN conjunct2, THEN conjunct2, THEN conjunct2, THEN conjunct2, THEN conjunct2, THEN conjunct2, THEN conjunct2, THEN conjunct2, THEN conjunct2, THEN conjunct2, THEN conjunct1]
    by blast
  have n4: "collapse_emphasis ([72] @ STAR # STAR # [52] @ STAR # STAR # [105]) = [72] @ STAR # [52] @ STAR # collapse_emphasis [105]"
    using mk 
      fragments_of_a_response [where a = "[72]" and t = "[52]" and b = "[105]", THEN conjunct2, THEN conjunct2, THEN conjunct2, THEN conjunct2, THEN conjunct2, THEN conjunct2, THEN conjunct2, THEN conjunct2, THEN conjunct2, THEN conjunct2, THEN conjunct2, THEN conjunct2, THEN conjunct2, THEN conjunct2, THEN conjunct2, THEN conjunct2, THEN conjunct2, THEN conjunct1]
    by blast
  have u: "strip_markers LLENT RLENT [] ([72] @ LLENT # [52] @ [LF, RLENT])
      = [72] @ LLENT # strip_markers LLENT RLENT [] ([52] @ [LF, RLENT])"
    using mk 
      fragments_of_a_response [where a = "[72]" and m = "[52]" and b = "[LF, RLENT]", THEN conjunct2, THEN conjunct2, THEN conjunct2, THEN conjunct2, THEN conjunct2, THEN conjunct2, THEN conjunct2, THEN conjunct2, THEN conjunct2, THEN conjunct2, THEN conjunct1]
    by blast
  have u2: "strip_markers LBRACKET RBRACKET [] ([72] @ LBRACKET # [52] @ [])
      = [72] @ LBRACKET # strip_markers LBRACKET RBRACKET [] ([52] @ [])"
    using mk 
      fragments_of_a_response [where a = "[72]" and m = "[52]" and b = "[]", THEN conjunct2, THEN conjunct2, THEN conjunct2, THEN conjunct2, THEN conjunct2, THEN conjunct2, THEN conjunct2, THEN conjunct2, THEN conjunct2, THEN conjunct2, THEN conjunct2, THEN conjunct2, THEN conjunct2, THEN conjunct1]
    by blast
  have h: "halve_stars ([72] @ STAR # STAR # [STAR, 105]) = [72] @ STAR # halve_stars [STAR, 105]"
    using mk 
      fragments_of_a_response [where a = "[72]" and b = "[STAR, 105]", THEN conjunct2, THEN conjunct2, THEN conjunct2, THEN conjunct2, THEN conjunct2, THEN conjunct2, THEN conjunct2, THEN conjunct2, THEN conjunct2, THEN conjunct2, THEN conjunct2, THEN conjunct2, THEN conjunct2, THEN conjunct2, THEN conjunct2, THEN conjunct1]
    by blast
  have ds: "strip_dashes [DASH, SPACE, 100] = [DASH, SPACE, 100]"
    using mk 
      fragments_of_a_response [where a = "[DASH, SPACE, 100]", THEN conjunct2, THEN conjunct2, THEN conjunct2, THEN conjunct2, THEN conjunct2, THEN conjunct2, THEN conjunct2, THEN conjunct2, THEN conjunct2, THEN conjunct2, THEN conjunct2, THEN conjunct2, THEN conjunct2, THEN conjunct2, THEN conjunct2, THEN conjunct2, THEN conjunct2, THEN conjunct2, THEN conjunct1]
    by blast
  have ds2: "strip_dashes ([DASH, SPACE, 100] @ LF # DASH # SPACE # [101])
      = [DASH, SPACE, 100] @ LF # strip_dashes [101]"
    using mk 
      fragments_of_a_response [where a = "[DASH, SPACE, 100]" and d = SPACE and b = "[101]", THEN conjunct2, THEN conjunct2, THEN conjunct2, THEN conjunct2, THEN conjunct2, THEN conjunct2, THEN conjunct2, THEN conjunct2, THEN conjunct2, THEN conjunct2, THEN conjunct2, THEN conjunct2, THEN conjunct2, THEN conjunct2, THEN conjunct2, THEN conjunct2, THEN conjunct2, THEN conjunct2, THEN conjunct2, THEN conjunct1]
    by blast
  have em: "sent (fst (processUserMessage_p1 (answers []) (msg 0))) = [(msg 0, failure_notice)]"
    using h1 [of "[]"]
      fragments_of_a_response [where oc = "answers []" and c = "msg 0", THEN conjunct2, THEN conjunct2, THEN conjunct2, THEN conjunct2, THEN conjunct2, THEN conjunct2, THEN conjunct2, THEN conjunct2, THEN conjunct2, THEN conjunct2, THEN conjunct2, THEN conjunct2, THEN conjunct2, THEN conjunct2, THEN conjunct2, THEN conjunct2, THEN conjunct2, THEN conjunct2, THEN conjunct2, THEN conjunct2]
    by blast
  show ?thesis
    unfolding s1 s2 a b a2 b2 n n2 n3 n4 u u2 h ds ds2 t tl em using d by simp
qed

section \<open>One drain per user\<close>

lemma owner_preD:
  assumes "owner_pre pid u q m"
  shows "pid < next_pid m" "userQueues m u = Some q"
    and "\<And>p co. running m p = Some co \<Longrightarrow> p \<noteq> pid \<Longrightarrow>
          p < next_pid m \<and> co_user co \<noteq> u \<and> userLocks m (co_user co) = Some True
          \<and> userQueues m (co_user co) = Some (co_queue co)"
    and "\<And>p p' co co'. p \<noteq> pid \<Longrightarrow> p' \<noteq> pid \<Longrightarrow> running m p = Some co \<Longrightarrow>
          running m p' = Some co' \<Longrightarrow> co_user co = co_user co' \<Longrightarrow> p = p'"
    and "\<And>u'. u' \<noteq> u \<Longrightarrow> (\<forall>p co. running m p = Some co \<and> p \<noteq> pid \<longrightarrow> co_user co \<noteq> u') \<Longrightarrow>
          userLocks m u' = None \<and> userQueues m u' = None"
    and "\<And>u q. userQueues m u = Some q \<Longrightarrow> q < next_array m \<and> heap m q \<noteq> None"
    and "\<And>u u' q. userQueues m u = Some q \<Longrightarrow> userQueues m u' = Some q \<Longrightarrow> u = u'"
  using assms unfolding owner_pre_def by blast+

lemma owner_okI:
  assumes "\<And>p co. running m p = Some co \<Longrightarrow>
        p < next_pid m \<and> userLocks m (co_user co) = Some True
        \<and> userQueues m (co_user co) = Some (co_queue co)"
    and "\<And>p p' co co'. running m p = Some co \<Longrightarrow> running m p' = Some co' \<Longrightarrow>
          co_user co = co_user co' \<Longrightarrow> p = p'"
    and "\<And>u. (\<forall>p co. running m p = Some co \<longrightarrow> co_user co \<noteq> u) \<Longrightarrow>
          userLocks m u = None \<and> userQueues m u = None"
    and "\<And>u q. userQueues m u = Some q \<Longrightarrow> q < next_array m \<and> heap m q \<noteq> None"
    and "\<And>u u' q. userQueues m u = Some q \<Longrightarrow> userQueues m u' = Some q \<Longrightarrow> u = u'"
  shows "owner_ok m"
  unfolding owner_ok_def using assms by blast

lemma owner_okD:
  assumes "owner_ok m"
  shows "\<And>p co. running m p = Some co \<Longrightarrow>
        p < next_pid m \<and> userLocks m (co_user co) = Some True
        \<and> userQueues m (co_user co) = Some (co_queue co)"
    and "\<And>p p' co co'. running m p = Some co \<Longrightarrow> running m p' = Some co' \<Longrightarrow>
          co_user co = co_user co' \<Longrightarrow> p = p'"
    and "\<And>u. (\<forall>p co. running m p = Some co \<longrightarrow> co_user co \<noteq> u) \<Longrightarrow>
          userLocks m u = None \<and> userQueues m u = None"
    and "\<And>u q. userQueues m u = Some q \<Longrightarrow> q < next_array m \<and> heap m q \<noteq> None"
    and "\<And>u u' q. userQueues m u = Some q \<Longrightarrow> userQueues m u' = Some q \<Longrightarrow> u = u'"
  using assms unfolding owner_ok_def by blast+

lemma loop_owner:
  assumes pre: "owner_pre pid u q m"
  shows "owner_ok (loop pid u q t m)"
proof (cases "\<exists>c rest. heap m q = Some (c # rest)")
  case True
  then obtain c rest where h: "heap m q = Some (c # rest)" by blast
  define co0 where "co0 = \<lparr>co_user = u, co_queue = q, co_timer = t, co_task = c, co_pc = AwaitTyping\<rparr>"
  define m' where "m' = loop pid u q t m"
  have f: "running m' = (running m)(pid \<mapsto> co0)" "userLocks m' = (userLocks m)(u \<mapsto> True)"
    "userQueues m' = userQueues m" "heap m' = (heap m)(q \<mapsto> rest)"
    "next_pid m' = next_pid m" "next_array m' = next_array m"
    by (simp_all add: m'_def loop_def h co0_def)
  have u0: "co_user co0 = u" "co_queue co0 = q" by (simp_all add: co0_def)
  show ?thesis
    unfolding m'_def [symmetric]
  proof (rule owner_okI)
    fix p co
    assume r: "running m' p = Some co"
    show "p < next_pid m' \<and> userLocks m' (co_user co) = Some True
        \<and> userQueues m' (co_user co) = Some (co_queue co)"
    proof (cases "p = pid")
      case True
      with r u0 owner_preD(1,2) [OF pre] show ?thesis by (auto simp add: f)
    next
      case False
      with r owner_preD(3) [OF pre, of p co] show ?thesis by (simp add: f)
    qed
  next
    fix p p' co co'
    assume r: "running m' p = Some co" "running m' p' = Some co'" "co_user co = co_user co'"
    show "p = p'"
    proof (cases "p = pid"; cases "p' = pid")
      assume "p = pid" "p' = pid"
      then show ?thesis by simp
    next
      assume a: "p = pid" "p' \<noteq> pid"
      with r u0 owner_preD(3) [OF pre, of p' co'] show ?thesis by (auto simp add: f)
    next
      assume a: "p \<noteq> pid" "p' = pid"
      with r u0 owner_preD(3) [OF pre, of p co] show ?thesis by (auto simp add: f)
    next
      assume a: "p \<noteq> pid" "p' \<noteq> pid"
      with r owner_preD(4) [OF pre, of p p' co co'] show ?thesis by (simp add: f)
    qed
  next
    fix u'
    assume n: "\<forall>p co. running m' p = Some co \<longrightarrow> co_user co \<noteq> u'"
    from n [rule_format, of pid co0] have "u' \<noteq> u" using u0 by (auto simp add: f)
    moreover have "\<forall>p co. running m p = Some co \<and> p \<noteq> pid \<longrightarrow> co_user co \<noteq> u'"
    proof (intro allI impI)
      fix p co assume "running m p = Some co \<and> p \<noteq> pid"
      with n [rule_format, of p co] show "co_user co \<noteq> u'" by (simp add: f)
    qed
    ultimately show "userLocks m' u' = None \<and> userQueues m' u' = None"
      using owner_preD(5) [OF pre, of u'] by (simp add: f)
  next
    fix u' q'
    assume "userQueues m' u' = Some q'"
    then show "q' < next_array m' \<and> heap m' q' \<noteq> None"
      using owner_preD(6) [OF pre, of u' q'] by (auto simp add: f)
  next
    fix u' u'' q'
    assume "userQueues m' u' = Some q'" "userQueues m' u'' = Some q'"
    then show "u' = u''" using owner_preD(7) [OF pre, of u' q' u''] by (simp add: f)
  qed
next
  case False
  define m' where "m' = loop pid u q t m"
  have f: "running m' = (running m)(pid := None)" "userLocks m' = (userLocks m)(u := None)"
    "userQueues m' = (userQueues m)(u := None)" "heap m' = heap m"
    "next_pid m' = next_pid m" "next_array m' = next_array m"
    using False by (auto simp add: m'_def loop_def split: option.splits list.splits)
  show ?thesis
    unfolding m'_def [symmetric]
  proof (rule owner_okI)
    fix p co
    assume r: "running m' p = Some co"
    then have "p \<noteq> pid" "running m p = Some co" by (simp_all add: f split: if_splits)
    with owner_preD(3) [OF pre, of p co]
    show "p < next_pid m' \<and> userLocks m' (co_user co) = Some True
        \<and> userQueues m' (co_user co) = Some (co_queue co)"
      by (simp add: f)
  next
    fix p p' co co'
    assume r: "running m' p = Some co" "running m' p' = Some co'" "co_user co = co_user co'"
    then have "p \<noteq> pid" "running m p = Some co" "p' \<noteq> pid" "running m p' = Some co'"
      by (simp_all add: f split: if_splits)
    with r(3) owner_preD(4) [OF pre, of p p' co co'] show "p = p'" by simp
  next
    fix u'
    assume n: "\<forall>p co. running m' p = Some co \<longrightarrow> co_user co \<noteq> u'"
    have "\<forall>p co. running m p = Some co \<and> p \<noteq> pid \<longrightarrow> co_user co \<noteq> u'"
    proof (intro allI impI)
      fix p co assume "running m p = Some co \<and> p \<noteq> pid"
      with n [rule_format, of p co] show "co_user co \<noteq> u'" by (simp add: f)
    qed
    then show "userLocks m' u' = None \<and> userQueues m' u' = None"
      using owner_preD(5) [OF pre, of u'] by (simp add: f)
  next
    fix u' q'
    assume "userQueues m' u' = Some q'"
    then have "userQueues m u' = Some q'" by (simp add: f split: if_splits)
    then show "q' < next_array m' \<and> heap m' q' \<noteq> None"
      using owner_preD(6) [OF pre, of u' q'] by (simp add: f)
  next
    fix u' u'' q'
    assume "userQueues m' u' = Some q'" "userQueues m' u'' = Some q'"
    then have "userQueues m u' = Some q'" "userQueues m u'' = Some q'"
      by (simp_all add: f split: if_splits)
    then show "u' = u''" using owner_preD(7) [OF pre, of u' q' u''] by simp
  qed
qed

lemma owner_preI:
  assumes "pid < next_pid m" "userQueues m u = Some q"
    and "\<And>p co. running m p = Some co \<Longrightarrow> p \<noteq> pid \<Longrightarrow>
          p < next_pid m \<and> co_user co \<noteq> u \<and> userLocks m (co_user co) = Some True
          \<and> userQueues m (co_user co) = Some (co_queue co)"
    and "\<And>p p' co co'. p \<noteq> pid \<Longrightarrow> p' \<noteq> pid \<Longrightarrow> running m p = Some co \<Longrightarrow>
          running m p' = Some co' \<Longrightarrow> co_user co = co_user co' \<Longrightarrow> p = p'"
    and "\<And>u'. u' \<noteq> u \<Longrightarrow> (\<forall>p co. running m p = Some co \<and> p \<noteq> pid \<longrightarrow> co_user co \<noteq> u') \<Longrightarrow>
          userLocks m u' = None \<and> userQueues m u' = None"
    and "\<And>u q. userQueues m u = Some q \<Longrightarrow> q < next_array m \<and> heap m q \<noteq> None"
    and "\<And>u u' q. userQueues m u = Some q \<Longrightarrow> userQueues m u' = Some q \<Longrightarrow> u = u'"
  shows "owner_pre pid u q m"
  unfolding owner_pre_def using assms by blast

lemma task_done_owner:
  assumes ok: "owner_ok m" and r: "running m pid = Some co"
  shows "owner_ok (task_done pid co threw m)"
proof -
  define m1 where "m1 = m\<lparr>userLocks := (userLocks m)(co_user co \<mapsto> False),
          trace := trace m @ (if threw then [Logged (co_task co)] else [])\<rparr>"
  have f: "running m1 = running m" "userLocks m1 = (userLocks m)(co_user co \<mapsto> False)"
    "userQueues m1 = userQueues m" "heap m1 = heap m"
    "next_pid m1 = next_pid m" "next_array m1 = next_array m"
    by (simp_all add: m1_def)
  have "owner_pre pid (co_user co) (co_queue co) m1"
  proof (rule owner_preI)
    show "pid < next_pid m1" using owner_okD(1) [OF ok r] by (simp add: f)
    show "userQueues m1 (co_user co) = Some (co_queue co)" using owner_okD(1) [OF ok r] by (simp add: f)
  next
    fix p co'
    assume a: "running m1 p = Some co'" "p \<noteq> pid"
    then have r': "running m p = Some co'" by (simp add: f)
    have "co_user co' \<noteq> co_user co"
      using owner_okD(2) [OF ok r' r] a(2) by blast
    then show "p < next_pid m1 \<and> co_user co' \<noteq> co_user co \<and> userLocks m1 (co_user co') = Some True
          \<and> userQueues m1 (co_user co') = Some (co_queue co')"
      using owner_okD(1) [OF ok r'] by (simp add: f)
  next
    fix p p' c1 c2
    assume "p \<noteq> pid" "p' \<noteq> pid" "running m1 p = Some c1" "running m1 p' = Some c2"
      "co_user c1 = co_user c2"
    then show "p = p'" using owner_okD(2) [OF ok, of p c1 p' c2] by (simp add: f)
  next
    fix u'
    assume a: "u' \<noteq> co_user co" "\<forall>p c1. running m1 p = Some c1 \<and> p \<noteq> pid \<longrightarrow> co_user c1 \<noteq> u'"
    have "\<forall>p c1. running m p = Some c1 \<longrightarrow> co_user c1 \<noteq> u'"
    proof (intro allI impI)
      fix p c1 assume b: "running m p = Some c1"
      show "co_user c1 \<noteq> u'"
      proof (cases "p = pid")
        case True
        with b r a(1) show ?thesis by simp
      next
        case False
        with b a(2) show ?thesis by (simp add: f)
      qed
    qed
    then show "userLocks m1 u' = None \<and> userQueues m1 u' = None"
      using owner_okD(3) [OF ok, of u'] a(1) by (simp add: f)
  next
    fix u' q'
    assume "userQueues m1 u' = Some q'"
    then show "q' < next_array m1 \<and> heap m1 q' \<noteq> None"
      using owner_okD(4) [OF ok, of u' q'] by (simp add: f)
  next
    fix u' u'' q'
    assume "userQueues m1 u' = Some q'" "userQueues m1 u'' = Some q'"
    then show "u' = u''" using owner_okD(5) [OF ok, of u' q' u''] by (simp add: f)
  qed
  then show ?thesis
    unfolding task_done_def m1_def [symmetric] by (rule loop_owner)
qed

lemma owner_ok_frame:
  assumes ok: "owner_ok m"
    and f: "userLocks m' = userLocks m" "userQueues m' = userQueues m"
      "next_pid m' = next_pid m" "next_array m' = next_array m"
      "\<And>q. heap m q \<noteq> None \<Longrightarrow> heap m' q \<noteq> None"
    and r: "\<And>p. map_option co_user (running m' p) = map_option co_user (running m p)"
      "\<And>p. map_option co_queue (running m' p) = map_option co_queue (running m p)"
  shows "owner_ok m'"
proof (rule owner_okI)
  fix p co
  assume a: "running m' p = Some co"
  with r(1) [of p] r(2) [of p] obtain co0 where
    b: "running m p = Some co0" "co_user co0 = co_user co" "co_queue co0 = co_queue co"
    by (cases "running m p") auto
  with owner_okD(1) [OF ok b(1)]
  show "p < next_pid m' \<and> userLocks m' (co_user co) = Some True
        \<and> userQueues m' (co_user co) = Some (co_queue co)"
    by (simp add: f)
next
  fix p p' co co'
  assume a: "running m' p = Some co" "running m' p' = Some co'" "co_user co = co_user co'"
  from a(1) r(1) [of p] obtain c1 where b: "running m p = Some c1" "co_user c1 = co_user co"
    by (cases "running m p") auto
  from a(2) r(1) [of p'] obtain c2 where c: "running m p' = Some c2" "co_user c2 = co_user co'"
    by (cases "running m p'") auto
  from owner_okD(2) [OF ok b(1) c(1)] b(2) c(2) a(3) show "p = p'" by simp
next
  fix u
  assume n: "\<forall>p co. running m' p = Some co \<longrightarrow> co_user co \<noteq> u"
  have "\<forall>p co. running m p = Some co \<longrightarrow> co_user co \<noteq> u"
  proof (intro allI impI)
    fix p co assume b: "running m p = Some co"
    with r(1) [of p] obtain c1 where "running m' p = Some c1" "co_user c1 = co_user co"
      by (cases "running m' p") auto
    with n show "co_user co \<noteq> u" by auto
  qed
  then show "userLocks m' u = None \<and> userQueues m' u = None"
    using owner_okD(3) [OF ok, of u] by (simp add: f)
next
  fix u q
  assume "userQueues m' u = Some q"
  then show "q < next_array m' \<and> heap m' q \<noteq> None"
    using owner_okD(4) [OF ok, of u q] f(5) [of q] by (simp add: f)
next
  fix u u' q
  assume "userQueues m' u = Some q" "userQueues m' u' = Some q"
  then show "u = u'" using owner_okD(5) [OF ok, of u q u'] by (simp add: f)
qed

lemma owner_ok_trace [simp]: "owner_ok (m\<lparr>trace := tr\<rparr>) = owner_ok m"
  by (simp add: owner_ok_def)

lemma owner_ok_pc:
  assumes "owner_ok m" "running m pid = Some co"
  shows "owner_ok (m\<lparr>running := (running m)(pid \<mapsto> co\<lparr>co_pc := x\<rparr>)\<rparr>)"
  by (rule owner_ok_frame [OF assms(1)]) (use assms(2) in \<open>simp_all\<close>)

lemma settle_owner:
  assumes ok: "owner_ok m"
  shows "owner_ok (settle v pid outcome m)"
proof (cases "running m pid")
  case None
  then show ?thesis using ok by (simp add: settle_def)
next
  case (Some co)
  have td: "owner_ok (task_done pid co threw (m\<lparr>trace := tr\<rparr>))" for threw tr
  proof (rule task_done_owner)
    show "owner_ok (m\<lparr>trace := tr\<rparr>)" using ok by simp
    show "running (m\<lparr>trace := tr\<rparr>) pid = Some co" using Some by simp
  qed
  have td0: "owner_ok (task_done pid co threw m)" for threw
    by (rule task_done_owner [OF ok Some])
  have pc: "owner_ok (m\<lparr>running := (running m)(pid \<mapsto> co\<lparr>co_pc := x\<rparr>), trace := tr\<rparr>)" for x tr
    using owner_ok_pc [OF ok Some, of x] by simp
  have pc0: "owner_ok (m\<lparr>running := (running m)(pid \<mapsto> co\<lparr>co_pc := x\<rparr>)\<rparr>)" for x
    by (rule owner_ok_pc [OF ok Some])
  show ?thesis
  proof (cases "co_pc co")
    case AwaitTyping
    show ?thesis
    proof (cases outcome)
      case (Resolved x)
      with AwaitTyping Some show ?thesis by (simp add: settle_def td td0 pc pc0)
    next
      case Rejected
      with AwaitTyping Some show ?thesis by (simp add: settle_def td td0 pc pc0)
    qed
  next
    case AwaitAsk
    show ?thesis
    proof (cases outcome)
      case (Resolved x)
      with AwaitAsk Some show ?thesis by (cases "chunks v x") (simp_all add: settle_def td td0 pc pc0)
    next
      case Rejected
      with AwaitAsk Some show ?thesis by (simp add: settle_def td td0 pc pc0)
    qed
  next
    case (AwaitSend b bs)
    show ?thesis
    proof (cases outcome)
      case (Resolved x)
      with AwaitSend Some show ?thesis by (cases bs) (simp_all add: settle_def td td0 pc pc0)
    next
      case Rejected
      with AwaitSend Some show ?thesis by (simp add: settle_def td td0 pc pc0)
    qed
  qed
qed

lemma owner_busy:
  assumes ok: "owner_ok m" and q: "userQueues m u = Some q"
  shows "userLocks m u = Some True" "\<exists>xs. heap m q = Some xs"
proof -
  have "\<not> (\<forall>p co. running m p = Some co \<longrightarrow> co_user co \<noteq> u)"
    using owner_okD(3) [OF ok, of u] q by auto
  then obtain p co where "running m p = Some co" "co_user co = u" by blast
  then show "userLocks m u = Some True" using owner_okD(1) [OF ok, of p co] by simp
  show "\<exists>xs. heap m q = Some xs" using owner_okD(4) [OF ok q] by auto
qed

lemma owner_idle:
  assumes ok: "owner_ok m" and q: "userQueues m u = None"
  shows "userLocks m u = None" "\<And>p co. running m p = Some co \<Longrightarrow> co_user co \<noteq> u"
proof -
  show n: "co_user co \<noteq> u" if "running m p = Some co" for p co
    using owner_okD(1) [OF ok that] q by auto
  then show "userLocks m u = None" using owner_okD(3) [OF ok, of u] by blast
qed

lemma enqueue_busy:
  assumes ok: "owner_ok m" and q: "userQueues m (ctx_from c) = Some q" and h: "heap m q = Some xs"
  shows "enqueue v c m = m\<lparr>heap := (heap m)(q \<mapsto> xs @ [c])\<rparr>"
  using owner_busy(1) [OF ok q] q h by (simp add: enqueue_def Let_def)

lemma enqueue_idle:
  assumes ok: "owner_ok m" and q: "userQueues m (ctx_from c) = None"
  shows "enqueue v c m =
     loop (next_pid m) (ctx_from c) (next_array m)
       (if heartbeat v then Some (next_timer m) else None)
       ((with_timer v c
          (m\<lparr>userQueues := (userQueues m)(ctx_from c \<mapsto> next_array m),
             next_array := Suc (next_array m),
             heap := (heap m)(next_array m \<mapsto> [c])\<rparr>))\<lparr>next_pid := Suc (next_pid m)\<rparr>)"
  using owner_idle(1) [OF ok q] q
  by (simp add: enqueue_def handleQueue_def Let_def with_timer_def)

lemma enqueue_owner:
  assumes ok: "owner_ok m"
  shows "owner_ok (enqueue v c m)"
proof (cases "userQueues m (ctx_from c)")
  case (Some q)
  from owner_busy(2) [OF ok Some] obtain xs where h: "heap m q = Some xs" by blast
  show ?thesis
    unfolding enqueue_busy [OF ok Some h]
    by (rule owner_ok_frame [OF ok]) simp_all
next
  case None
  define u where "u = ctx_from c"
  define m3 where "m3 = (with_timer v c
          (m\<lparr>userQueues := (userQueues m)(ctx_from c \<mapsto> next_array m),
             next_array := Suc (next_array m),
             heap := (heap m)(next_array m \<mapsto> [c])\<rparr>))\<lparr>next_pid := Suc (next_pid m)\<rparr>"
  have f: "running m3 = running m" "userLocks m3 = userLocks m"
    "userQueues m3 = (userQueues m)(u \<mapsto> next_array m)" "heap m3 = (heap m)(next_array m \<mapsto> [c])"
    "next_pid m3 = Suc (next_pid m)" "next_array m3 = Suc (next_array m)"
    by (simp_all add: m3_def with_timer_def u_def)
  have idle: "userLocks m u = None" "\<And>p co. running m p = Some co \<Longrightarrow> co_user co \<noteq> u"
    using owner_idle [OF ok None] by (simp_all add: u_def)
  have "owner_pre (next_pid m) u (next_array m) m3"
  proof (rule owner_preI)
    show "next_pid m < next_pid m3" by (simp add: f)
    show "userQueues m3 u = Some (next_array m)" by (simp add: f)
  next
    fix p co
    assume a: "running m3 p = Some co" "p \<noteq> next_pid m"
    then have r: "running m p = Some co" by (simp add: f)
    from idle(2) [OF r] owner_okD(1) [OF ok r]
    show "p < next_pid m3 \<and> co_user co \<noteq> u \<and> userLocks m3 (co_user co) = Some True
          \<and> userQueues m3 (co_user co) = Some (co_queue co)"
      by (simp add: f)
  next
    fix p p' c1 c2
    assume "p \<noteq> next_pid m" "p' \<noteq> next_pid m" "running m3 p = Some c1" "running m3 p' = Some c2"
      "co_user c1 = co_user c2"
    then show "p = p'" using owner_okD(2) [OF ok, of p c1 p' c2] by (simp add: f)
  next
    fix u'
    assume a: "u' \<noteq> u" "\<forall>p c1. running m3 p = Some c1 \<and> p \<noteq> next_pid m \<longrightarrow> co_user c1 \<noteq> u'"
    have "\<forall>p c1. running m p = Some c1 \<longrightarrow> co_user c1 \<noteq> u'"
    proof (intro allI impI)
      fix p c1 assume b: "running m p = Some c1"
      then have "p \<noteq> next_pid m" using owner_okD(1) [OF ok b] by simp
      with b a(2) show "co_user c1 \<noteq> u'" by (simp add: f)
    qed
    then show "userLocks m3 u' = None \<and> userQueues m3 u' = None"
      using owner_okD(3) [OF ok, of u'] a(1) by (simp add: f)
  next
    fix u' q'
    assume a: "userQueues m3 u' = Some q'"
    show "q' < next_array m3 \<and> heap m3 q' \<noteq> None"
    proof (cases "u' = u")
      case True
      with a show ?thesis by (simp add: f)
    next
      case False
      with a have "userQueues m u' = Some q'" by (simp add: f)
      with owner_okD(4) [OF ok this] show ?thesis by (simp add: f)
    qed
  next
    fix u' u'' q'
    assume a: "userQueues m3 u' = Some q'" "userQueues m3 u'' = Some q'"
    have fresh: "userQueues m w = Some q' \<Longrightarrow> q' \<noteq> next_array m" for w
      using owner_okD(4) [OF ok, of w q'] by simp
    show "u' = u''"
    proof (cases "u' = u"; cases "u'' = u")
      assume "u' = u" "u'' = u" then show ?thesis by simp
    next
      assume "u' = u" "u'' \<noteq> u"
      with a fresh [of u''] show ?thesis by (simp add: f)
    next
      assume "u' \<noteq> u" "u'' = u"
      with a fresh [of u'] show ?thesis by (simp add: f)
    next
      assume "u' \<noteq> u" "u'' \<noteq> u"
      with a owner_okD(5) [OF ok, of u' q' u''] show ?thesis by (simp add: f)
    qed
  qed
  then have "owner_ok (loop (next_pid m) u (next_array m)
       (if heartbeat v then Some (next_timer m) else None) m3)"
    by (rule loop_owner)
  then show ?thesis
    unfolding enqueue_idle [OF ok None] m3_def u_def .
qed

lemma welcomeFlow_owner:
  assumes ok: "owner_ok m"
  shows "owner_ok (welcomeFlow v u body clk m)"
proof -
  define c where "c = \<lparr>ctx_from = u, ctx_body = body, ctx_seq = arrivals m\<rparr>"
  obtain vd a where ad: "admission v clk u (adm m) = (vd, a)"
    by (cases "admission v clk u (adm m)")
  have base: "owner_ok (m\<lparr>arrivals := Suc (arrivals m), adm := a\<rparr>)"
    by (rule owner_ok_frame [OF ok]) simp_all
  show ?thesis
  proof (cases vd)
    case Ignored
    with ad base show ?thesis by (simp add: welcomeFlow_def Let_def)
  next
    case Banned
    with ad base show ?thesis by (simp add: welcomeFlow_def Let_def)
  next
    case Admitted
    with ad enqueue_owner [OF base, of v c] show ?thesis
      by (simp add: welcomeFlow_def Let_def c_def)
  qed
qed

lemma owner_ok_beats [simp]: "owner_ok (m\<lparr>beats := b\<rparr>) = owner_ok m"
  by (simp add: owner_ok_def)

lemma owner_ok_halted [simp]: "owner_ok (m\<lparr>halted := h\<rparr>) = owner_ok m"
  by (simp add: owner_ok_def)

lemma react_owner: "owner_ok m \<Longrightarrow> owner_ok (react v ev m)"
  by (cases ev)
    (simp_all add: welcomeFlow_owner settle_owner tick_def beat_def
      split: option.splits settlement.splits)

lemma step_owner: "owner_ok m \<Longrightarrow> owner_ok (step v ev m)"
  by (simp add: step_def react_owner)

lemma reachable_owner: "reachable v m \<Longrightarrow> owner_ok m"
proof (induction rule: reachable.induct)
  case reachable_initial
  show ?case by (simp add: owner_ok_def initial_def)
next
  case (reachable_step m ev)
  then show ?case by (simp add: step_owner)
qed

section \<open>Tasks are served in arrival order\<close>

lemma served_append: "served u (tr @ tr') = served u tr @ served u tr'"
  by (induction tr) (simp_all split: option.splits)

lemma order_okD:
  assumes "order_ok m"
  shows "\<And>u. sorted (served u (trace m))"
    and "\<And>u n. n \<in> set (served u (trace m)) \<Longrightarrow> n < arrivals m"
    and "\<And>p co. running m p = Some co \<Longrightarrow>
          ctx_from (co_task co) = co_user co \<and> ctx_seq (co_task co) < arrivals m
          \<and> (\<forall>n\<in>set (served (co_user co) (trace m)). n \<le> ctx_seq (co_task co))"
    and "\<And>p co xs. running m p = Some co \<Longrightarrow> heap m (co_queue co) = Some xs \<Longrightarrow>
          sorted_wrt (<) (map ctx_seq xs)
          \<and> (\<forall>x\<in>set xs. ctx_from x = co_user co \<and> ctx_seq (co_task co) < ctx_seq x
                \<and> ctx_seq x < arrivals m)"
  using assms unfolding order_ok_def by blast+

lemma order_okI:
  assumes "\<And>u. sorted (served u (trace m))"
    and "\<And>u n. n \<in> set (served u (trace m)) \<Longrightarrow> n < arrivals m"
    and "\<And>p co. running m p = Some co \<Longrightarrow>
          ctx_from (co_task co) = co_user co \<and> ctx_seq (co_task co) < arrivals m
          \<and> (\<forall>n\<in>set (served (co_user co) (trace m)). n \<le> ctx_seq (co_task co))"
    and "\<And>p co xs. running m p = Some co \<Longrightarrow> heap m (co_queue co) = Some xs \<Longrightarrow>
          sorted_wrt (<) (map ctx_seq xs)
          \<and> (\<forall>x\<in>set xs. ctx_from x = co_user co \<and> ctx_seq (co_task co) < ctx_seq x
                \<and> ctx_seq x < arrivals m)"
  shows "order_ok m"
  unfolding order_ok_def using assms by blast

lemma order_preD:
  assumes "order_pre pid u q m"
  shows "\<And>u. sorted (served u (trace m))"
    and "\<And>u n. n \<in> set (served u (trace m)) \<Longrightarrow> n < arrivals m"
    and "\<And>p co. running m p = Some co \<Longrightarrow> p \<noteq> pid \<Longrightarrow>
          co_user co \<noteq> u \<and> co_queue co \<noteq> q
          \<and> ctx_from (co_task co) = co_user co \<and> ctx_seq (co_task co) < arrivals m
          \<and> (\<forall>n\<in>set (served (co_user co) (trace m)). n \<le> ctx_seq (co_task co))"
    and "\<And>p co xs. running m p = Some co \<Longrightarrow> p \<noteq> pid \<Longrightarrow> heap m (co_queue co) = Some xs \<Longrightarrow>
          sorted_wrt (<) (map ctx_seq xs)
          \<and> (\<forall>x\<in>set xs. ctx_from x = co_user co \<and> ctx_seq (co_task co) < ctx_seq x
                \<and> ctx_seq x < arrivals m)"
    and "\<And>xs. heap m q = Some xs \<Longrightarrow>
          sorted_wrt (<) (map ctx_seq xs)
          \<and> (\<forall>x\<in>set xs. ctx_from x = u \<and> ctx_seq x < arrivals m
                \<and> (\<forall>n\<in>set (served u (trace m)). n < ctx_seq x))"
  using assms unfolding order_pre_def by blast+

lemma order_preI:
  assumes "\<And>u. sorted (served u (trace m))"
    and "\<And>u n. n \<in> set (served u (trace m)) \<Longrightarrow> n < arrivals m"
    and "\<And>p co. running m p = Some co \<Longrightarrow> p \<noteq> pid \<Longrightarrow>
          co_user co \<noteq> u \<and> co_queue co \<noteq> q
          \<and> ctx_from (co_task co) = co_user co \<and> ctx_seq (co_task co) < arrivals m
          \<and> (\<forall>n\<in>set (served (co_user co) (trace m)). n \<le> ctx_seq (co_task co))"
    and "\<And>p co xs. running m p = Some co \<Longrightarrow> p \<noteq> pid \<Longrightarrow> heap m (co_queue co) = Some xs \<Longrightarrow>
          sorted_wrt (<) (map ctx_seq xs)
          \<and> (\<forall>x\<in>set xs. ctx_from x = co_user co \<and> ctx_seq (co_task co) < ctx_seq x
                \<and> ctx_seq x < arrivals m)"
    and "\<And>xs. heap m q = Some xs \<Longrightarrow>
          sorted_wrt (<) (map ctx_seq xs)
          \<and> (\<forall>x\<in>set xs. ctx_from x = u \<and> ctx_seq x < arrivals m
                \<and> (\<forall>n\<in>set (served u (trace m)). n < ctx_seq x))"
  shows "order_pre pid u q m"
  unfolding order_pre_def using assms by blast

lemma loop_order:
  assumes pre: "order_pre pid u q m"
  shows "order_ok (loop pid u q t m)"
proof (cases "\<exists>c rest. heap m q = Some (c # rest)")
  case True
  then obtain c rest where h: "heap m q = Some (c # rest)" by blast
  define co0 where "co0 = \<lparr>co_user = u, co_queue = q, co_timer = t, co_task = c, co_pc = AwaitTyping\<rparr>"
  define m' where "m' = loop pid u q t m"
  have f: "running m' = (running m)(pid \<mapsto> co0)" "heap m' = (heap m)(q \<mapsto> rest)"
    "arrivals m' = arrivals m"
    by (simp_all add: m'_def loop_def h co0_def)
  have ft: "trace m' = trace m @ [Typing c]"
    by (simp add: m'_def loop_def h)
  have u0: "co_user co0 = u" "co_queue co0 = q" "co_task co0 = c" by (simp_all add: co0_def)
  from order_preD(5) [OF pre h] have
    c: "ctx_from c = u" "ctx_seq c < arrivals m" "\<And>n. n \<in> set (served u (trace m)) \<Longrightarrow> n < ctx_seq c"
    and rest: "sorted_wrt (<) (map ctx_seq rest)" "\<And>x. x \<in> set rest \<Longrightarrow> ctx_seq c < ctx_seq x"
      "\<And>x. x \<in> set rest \<Longrightarrow> ctx_from x = u \<and> ctx_seq x < arrivals m"
    by auto
  have sv: "served u' (trace m') = (if u' = u then served u' (trace m) @ [ctx_seq c] else served u' (trace m))" for u'
    using c(1) by (simp add: ft served_append)
  show ?thesis
    unfolding m'_def [symmetric]
  proof (rule order_okI)
    fix u'
    show "sorted (served u' (trace m'))"
      using order_preD(1) [OF pre, of u'] c(3) by (auto simp add: sv sorted_append less_imp_le)
  next
    fix u' n
    assume "n \<in> set (served u' (trace m'))"
    then show "n < arrivals m'"
      using order_preD(2) [OF pre, of n u'] c(2) by (auto simp add: sv f split: if_splits)
  next
    fix p co
    assume r: "running m' p = Some co"
    show "ctx_from (co_task co) = co_user co \<and> ctx_seq (co_task co) < arrivals m'
          \<and> (\<forall>n\<in>set (served (co_user co) (trace m')). n \<le> ctx_seq (co_task co))"
    proof (cases "p = pid")
      case True
      with r have "co = co0" by (simp add: f)
      then show ?thesis using c u0 by (auto simp add: sv f less_imp_le)
    next
      case False
      with r have "running m p = Some co" by (simp add: f)
      from order_preD(3) [OF pre this False] show ?thesis by (simp add: sv f)
    qed
  next
    fix p co xs
    assume r: "running m' p = Some co" "heap m' (co_queue co) = Some xs"
    show "sorted_wrt (<) (map ctx_seq xs)
          \<and> (\<forall>x\<in>set xs. ctx_from x = co_user co \<and> ctx_seq (co_task co) < ctx_seq x
                \<and> ctx_seq x < arrivals m')"
    proof (cases "p = pid")
      case True
      with r have e: "co = co0" by (simp add: f)
      with r(2) u0 have "xs = rest" by (simp add: f)
      with e show ?thesis using rest u0 by (auto simp add: f)
    next
      case False
      with r have r': "running m p = Some co" by (simp add: f)
      from order_preD(3) [OF pre r' False] have "co_queue co \<noteq> q" by simp
      with r(2) have "heap m (co_queue co) = Some xs" by (simp add: f)
      from order_preD(4) [OF pre r' False this] show ?thesis by (simp add: f)
    qed
  qed
next
  case False
  define m' where "m' = loop pid u q t m"
  have f: "running m' = (running m)(pid := None)" "heap m' = heap m" "arrivals m' = arrivals m"
    "served u' (trace m') = served u' (trace m)" for u'
    using False by (auto simp add: m'_def loop_def served_append split: option.splits list.splits)
  show ?thesis
    unfolding m'_def [symmetric]
  proof (rule order_okI)
    fix u'
    show "sorted (served u' (trace m'))" using order_preD(1) [OF pre, of u'] by (simp add: f)
  next
    fix u' n
    assume "n \<in> set (served u' (trace m'))"
    then show "n < arrivals m'" using order_preD(2) [OF pre, of n u'] by (simp add: f)
  next
    fix p co
    assume r: "running m' p = Some co"
    then have "p \<noteq> pid" "running m p = Some co" by (simp_all add: f split: if_splits)
    from order_preD(3) [OF pre this(2,1)]
    show "ctx_from (co_task co) = co_user co \<and> ctx_seq (co_task co) < arrivals m'
          \<and> (\<forall>n\<in>set (served (co_user co) (trace m')). n \<le> ctx_seq (co_task co))"
      by (simp add: f)
  next
    fix p co xs
    assume r: "running m' p = Some co" "heap m' (co_queue co) = Some xs"
    then have "p \<noteq> pid" "running m p = Some co" "heap m (co_queue co) = Some xs"
      by (simp_all add: f split: if_splits)
    from order_preD(4) [OF pre this(2,1,3)]
    show "sorted_wrt (<) (map ctx_seq xs)
          \<and> (\<forall>x\<in>set xs. ctx_from x = co_user co \<and> ctx_seq (co_task co) < ctx_seq x
                \<and> ctx_seq x < arrivals m')"
      by (simp add: f)
  qed
qed

lemma order_ok_pc:
  assumes ok: "order_ok m" and r: "running m pid = Some co"
  shows "order_ok (m\<lparr>running := (running m)(pid \<mapsto> co\<lparr>co_pc := x\<rparr>)\<rparr>)"
proof (rule order_okI)
  fix u
  show "sorted (served u (trace (m\<lparr>running := (running m)(pid \<mapsto> co\<lparr>co_pc := x\<rparr>)\<rparr>)))"
    using order_okD(1) [OF ok, of u] by simp
next
  fix u n
  assume "n \<in> set (served u (trace (m\<lparr>running := (running m)(pid \<mapsto> co\<lparr>co_pc := x\<rparr>)\<rparr>)))"
  then show "n < arrivals (m\<lparr>running := (running m)(pid \<mapsto> co\<lparr>co_pc := x\<rparr>)\<rparr>)"
    using order_okD(2) [OF ok, of n u] by simp
next
  fix p c1
  assume a: "running (m\<lparr>running := (running m)(pid \<mapsto> co\<lparr>co_pc := x\<rparr>)\<rparr>) p = Some c1"
  show "ctx_from (co_task c1) = co_user c1
      \<and> ctx_seq (co_task c1) < arrivals (m\<lparr>running := (running m)(pid \<mapsto> co\<lparr>co_pc := x\<rparr>)\<rparr>)
      \<and> (\<forall>n\<in>set (served (co_user c1) (trace (m\<lparr>running := (running m)(pid \<mapsto> co\<lparr>co_pc := x\<rparr>)\<rparr>))).
            n \<le> ctx_seq (co_task c1))"
  proof (cases "p = pid")
    case True
    with a have "c1 = co\<lparr>co_pc := x\<rparr>" by simp
    with order_okD(3) [OF ok r] show ?thesis by simp
  next
    case False
    with a have "running m p = Some c1" by simp
    from order_okD(3) [OF ok this] show ?thesis by simp
  qed
next
  fix p c1 xs
  assume a: "running (m\<lparr>running := (running m)(pid \<mapsto> co\<lparr>co_pc := x\<rparr>)\<rparr>) p = Some c1"
    "heap (m\<lparr>running := (running m)(pid \<mapsto> co\<lparr>co_pc := x\<rparr>)\<rparr>) (co_queue c1) = Some xs"
  show "sorted_wrt (<) (map ctx_seq xs)
      \<and> (\<forall>y\<in>set xs. ctx_from y = co_user c1 \<and> ctx_seq (co_task c1) < ctx_seq y
            \<and> ctx_seq y < arrivals (m\<lparr>running := (running m)(pid \<mapsto> co\<lparr>co_pc := x\<rparr>)\<rparr>))"
  proof (cases "p = pid")
    case True
    with a have "c1 = co\<lparr>co_pc := x\<rparr>" "heap m (co_queue co) = Some xs" by auto
    with order_okD(4) [OF ok r, of xs] show ?thesis by simp
  next
    case False
    with a have "running m p = Some c1" "heap m (co_queue c1) = Some xs" by simp_all
    from order_okD(4) [OF ok this] show ?thesis by simp
  qed
qed

lemma order_ok_serve:
  assumes ok: "order_ok m" and uniq: "owner_ok m" and r: "running m pid = Some co"
    and e: "task_of e = Some (co_task co)"
  shows "order_ok (m\<lparr>trace := trace m @ [e]\<rparr>)"
proof -
  define m' where "m' = m\<lparr>trace := trace m @ [e]\<rparr>"
  have f: "running m' = running m" "heap m' = heap m" "arrivals m' = arrivals m"
    by (simp_all add: m'_def)
  from order_okD(3) [OF ok r] have
    c: "ctx_from (co_task co) = co_user co" "ctx_seq (co_task co) < arrivals m"
      "\<And>n. n \<in> set (served (co_user co) (trace m)) \<Longrightarrow> n \<le> ctx_seq (co_task co)"
    by auto
  have sv: "served u (trace m') = (if u = co_user co then served u (trace m) @ [ctx_seq (co_task co)]
      else served u (trace m))" for u
    using c(1) e by (simp add: m'_def served_append)
  show ?thesis
    unfolding m'_def [symmetric]
  proof (rule order_okI)
    fix u
    show "sorted (served u (trace m'))"
      using order_okD(1) [OF ok, of u] c(3) by (auto simp add: sv sorted_append)
  next
    fix u n
    assume "n \<in> set (served u (trace m'))"
    then show "n < arrivals m'"
      using order_okD(2) [OF ok, of n u] c(2) by (auto simp add: sv f split: if_splits)
  next
    fix p c1
    assume a: "running m' p = Some c1"
    then have r1: "running m p = Some c1" by (simp add: f)
    show "ctx_from (co_task c1) = co_user c1 \<and> ctx_seq (co_task c1) < arrivals m'
        \<and> (\<forall>n\<in>set (served (co_user c1) (trace m')). n \<le> ctx_seq (co_task c1))"
    proof (cases "co_user c1 = co_user co")
      case True
      with owner_okD(2) [OF uniq r1 r] r r1 have "c1 = co" by simp
      with order_okD(3) [OF ok r] show ?thesis by (simp add: sv f)
    next
      case False
      with order_okD(3) [OF ok r1] show ?thesis by (simp add: sv f)
    qed
  next
    fix p c1 xs
    assume "running m' p = Some c1" "heap m' (co_queue c1) = Some xs"
    then have "running m p = Some c1" "heap m (co_queue c1) = Some xs" by (simp_all add: f)
    from order_okD(4) [OF ok this]
    show "sorted_wrt (<) (map ctx_seq xs)
        \<and> (\<forall>y\<in>set xs. ctx_from y = co_user c1 \<and> ctx_seq (co_task c1) < ctx_seq y
              \<and> ctx_seq y < arrivals m')"
      by (simp add: f)
  qed
qed

lemma owner_queues_differ:
  assumes uniq: "owner_ok m" and r: "running m p = Some co" "running m p' = Some co'" "p \<noteq> p'"
  shows "co_user co \<noteq> co_user co'" "co_queue co \<noteq> co_queue co'"
proof -
  show u: "co_user co \<noteq> co_user co'"
    using owner_okD(2) [OF uniq r(1,2)] r(3) by blast
  show "co_queue co \<noteq> co_queue co'"
  proof
    assume "co_queue co = co_queue co'"
    with owner_okD(1) [OF uniq r(1)] owner_okD(1) [OF uniq r(2)]
    have "userQueues m (co_user co) = Some (co_queue co)" "userQueues m (co_user co') = Some (co_queue co)"
      by simp_all
    from owner_okD(5) [OF uniq this] u show False by simp
  qed
qed

lemma task_done_order:
  assumes ok: "order_ok m" and uniq: "owner_ok m" and r: "running m pid = Some co"
  shows "order_ok (task_done pid co threw m)"
proof -
  define tr where "tr = (if threw then [Logged (co_task co)] else [])"
  define m0 where "m0 = m\<lparr>trace := trace m @ tr\<rparr>"
  have ok0: "order_ok m0"
  proof (cases threw)
    case True
    then show ?thesis
      unfolding m0_def tr_def using order_ok_serve [OF ok uniq r, of "Logged (co_task co)"] by simp
  next
    case False
    then show ?thesis unfolding m0_def tr_def using ok by simp
  qed
  define m1 where "m1 = m\<lparr>userLocks := (userLocks m)(co_user co \<mapsto> False), trace := trace m @ tr\<rparr>"
  have f: "running m1 = running m0" "heap m1 = heap m0" "arrivals m1 = arrivals m0"
    "trace m1 = trace m0" "running m0 = running m"
    by (simp_all add: m1_def m0_def)
  have r0: "running m0 pid = Some co" using r by (simp add: f)
  have "order_pre pid (co_user co) (co_queue co) m1"
  proof (rule order_preI)
    fix u
    show "sorted (served u (trace m1))" using order_okD(1) [OF ok0, of u] by (simp add: f)
  next
    fix u n
    assume "n \<in> set (served u (trace m1))"
    then show "n < arrivals m1" using order_okD(2) [OF ok0, of n u] by (simp add: f)
  next
    fix p c1
    assume a: "running m1 p = Some c1" "p \<noteq> pid"
    then have r1: "running m p = Some c1" "running m0 p = Some c1" by (simp_all add: f)
    from owner_queues_differ [OF uniq r1(1) r a(2)] order_okD(3) [OF ok0 r1(2)]
    show "co_user c1 \<noteq> co_user co \<and> co_queue c1 \<noteq> co_queue co
        \<and> ctx_from (co_task c1) = co_user c1 \<and> ctx_seq (co_task c1) < arrivals m1
        \<and> (\<forall>n\<in>set (served (co_user c1) (trace m1)). n \<le> ctx_seq (co_task c1))"
      by (simp add: f)
  next
    fix p c1 xs
    assume "running m1 p = Some c1" "p \<noteq> pid" "heap m1 (co_queue c1) = Some xs"
    then have "running m0 p = Some c1" "heap m0 (co_queue c1) = Some xs" by (simp_all add: f)
    from order_okD(4) [OF ok0 this]
    show "sorted_wrt (<) (map ctx_seq xs)
        \<and> (\<forall>y\<in>set xs. ctx_from y = co_user c1 \<and> ctx_seq (co_task c1) < ctx_seq y
              \<and> ctx_seq y < arrivals m1)"
      by (simp add: f)
  next
    fix xs
    assume "heap m1 (co_queue co) = Some xs"
    then have h: "heap m0 (co_queue co) = Some xs" by (simp add: f)
    from order_okD(4) [OF ok0 r0 h] order_okD(3) [OF ok0 r0]
    show "sorted_wrt (<) (map ctx_seq xs)
        \<and> (\<forall>y\<in>set xs. ctx_from y = co_user co \<and> ctx_seq y < arrivals m1
              \<and> (\<forall>n\<in>set (served (co_user co) (trace m1)). n < ctx_seq y))"
      by (auto simp add: f intro: le_less_trans)
  qed
  then have "order_ok (loop pid (co_user co) (co_queue co) (co_timer co) m1)"
    by (rule loop_order)
  then show ?thesis
    unfolding task_done_def m1_def tr_def .
qed

lemma settle_order:
  assumes ok: "order_ok m" and uniq: "owner_ok m"
  shows "order_ok (settle v pid outcome m)"
proof (cases "running m pid")
  case None
  then show ?thesis using ok by (simp add: settle_def)
next
  case (Some co)
  have serve: "order_ok (m\<lparr>trace := trace m @ [e]\<rparr>)" if "task_of e = Some (co_task co)" for e
    by (rule order_ok_serve [OF ok uniq Some that])
  have td: "order_ok (task_done pid co threw (m\<lparr>trace := trace m @ [e]\<rparr>))"
    if "task_of e = Some (co_task co)" for threw e
  proof (rule task_done_order)
    show "order_ok (m\<lparr>trace := trace m @ [e]\<rparr>)" by (rule serve [OF that])
    show "owner_ok (m\<lparr>trace := trace m @ [e]\<rparr>)" using uniq by simp
    show "running (m\<lparr>trace := trace m @ [e]\<rparr>) pid = Some co" using Some by simp
  qed
  have td0: "order_ok (task_done pid co threw m)" for threw
    by (rule task_done_order [OF ok uniq Some])
  have pc0: "order_ok (m\<lparr>running := (running m)(pid \<mapsto> co\<lparr>co_pc := x\<rparr>)\<rparr>)" for x
    by (rule order_ok_pc [OF ok Some])
  have pc: "order_ok (m\<lparr>running := (running m)(pid \<mapsto> co\<lparr>co_pc := x\<rparr>), trace := trace m @ [e]\<rparr>)"
    if "task_of e = Some (co_task co)" for x e
  proof -
    have e1: "order_ok (m\<lparr>trace := trace m @ [e], running := (running m)(pid \<mapsto> co\<lparr>co_pc := x\<rparr>)\<rparr>)"
      using order_ok_pc [OF serve [OF that], of pid co x] Some by simp
    have e2: "m\<lparr>trace := tr, running := R\<rparr> = m\<lparr>running := R, trace := tr\<rparr>" for R tr
      by (cases m) simp
    show ?thesis using e1 unfolding e2 .
  qed
  show ?thesis
  proof (cases "co_pc co")
    case AwaitTyping
    show ?thesis
    proof (cases outcome)
      case (Resolved x)
      with AwaitTyping Some pc [of "Asked (co_task co)" AwaitAsk] show ?thesis
        by (simp add: settle_def)
    next
      case Rejected
      with AwaitTyping Some show ?thesis by (simp add: settle_def td0)
    qed
  next
    case AwaitAsk
    show ?thesis
    proof (cases outcome)
      case (Resolved x)
      show ?thesis
      proof (cases "chunks v x")
        case Nil
        with Resolved AwaitAsk Some td [of "Answered (co_task co) x" False] show ?thesis
          by (simp add: settle_def)
      next
        case (Cons b bs)
        with Resolved AwaitAsk Some pc [of "Answered (co_task co) x" "AwaitSend b bs"] show ?thesis
          by (simp add: settle_def)
      qed
    next
      case Rejected
      with AwaitAsk Some show ?thesis by (simp add: settle_def td0)
    qed
  next
    case (AwaitSend b bs)
    show ?thesis
    proof (cases outcome)
      case (Resolved x)
      show ?thesis
      proof (cases bs)
        case Nil
        with Resolved AwaitSend Some td [of "Sent (co_task co) b" False] show ?thesis
          by (simp add: settle_def)
      next
        case (Cons b' bs')
        with Resolved AwaitSend Some pc [of "Sent (co_task co) b" "AwaitSend b' bs'"] show ?thesis
          by (simp add: settle_def)
      qed
    next
      case Rejected
      with AwaitSend Some td [of "SendFailed (co_task co) b" True] show ?thesis
        by (simp add: settle_def)
    qed
  qed
qed

lemma enqueue_order:
  assumes old: "order_ok (m\<lparr>arrivals := ctx_seq c\<rparr>)" and uniq: "owner_ok m"
    and new: "arrivals m = Suc (ctx_seq c)"
  shows "order_ok (enqueue v c m)"
proof -
  define u where "u = ctx_from c"
  have o1: "sorted (served w (trace m))" for w
    using order_okD(1) [OF old, of w] by simp
  have o2: "n < ctx_seq c" if "n \<in> set (served w (trace m))" for w n
    using order_okD(2) [OF old, of n w] that by simp
  have o3: "ctx_from (co_task co) = co_user co \<and> ctx_seq (co_task co) < ctx_seq c
        \<and> (\<forall>n\<in>set (served (co_user co) (trace m)). n \<le> ctx_seq (co_task co))"
    if "running m p = Some co" for p co
    using order_okD(3) [OF old, of p co] that by simp
  have o4: "sorted_wrt (<) (map ctx_seq xs)
        \<and> (\<forall>x\<in>set xs. ctx_from x = co_user co \<and> ctx_seq (co_task co) < ctx_seq x
              \<and> ctx_seq x < ctx_seq c)"
    if "running m p = Some co" "heap m (co_queue co) = Some xs" for p co xs
    using order_okD(4) [OF old, of p co xs] that by simp
  show ?thesis
  proof (cases "userQueues m (ctx_from c)")
    case (Some q)
    from owner_busy(2) [OF uniq Some] obtain xs where h: "heap m q = Some xs" by blast
    define m' where "m' = m\<lparr>heap := (heap m)(q \<mapsto> xs @ [c])\<rparr>"
    have f: "running m' = running m" "heap m' = (heap m)(q \<mapsto> xs @ [c])"
      "arrivals m' = Suc (ctx_seq c)" "trace m' = trace m"
      by (simp_all add: m'_def new)
    have "order_ok m'"
    proof (rule order_okI)
      fix w show "sorted (served w (trace m'))" using o1 [of w] by (simp add: f)
    next
      fix w n assume "n \<in> set (served w (trace m'))"
      then show "n < arrivals m'" using o2 [of n w] by (simp add: f)
    next
      fix p co assume "running m' p = Some co"
      then have "running m p = Some co" by (simp add: f)
      from o3 [OF this]
      show "ctx_from (co_task co) = co_user co \<and> ctx_seq (co_task co) < arrivals m'
          \<and> (\<forall>n\<in>set (served (co_user co) (trace m')). n \<le> ctx_seq (co_task co))"
        by (simp add: f)
    next
      fix p co ys
      assume a: "running m' p = Some co" "heap m' (co_queue co) = Some ys"
      then have r: "running m p = Some co" by (simp add: f)
      show "sorted_wrt (<) (map ctx_seq ys)
          \<and> (\<forall>x\<in>set ys. ctx_from x = co_user co \<and> ctx_seq (co_task co) < ctx_seq x
                \<and> ctx_seq x < arrivals m')"
      proof (cases "co_queue co = q")
        case True
        with a(2) have ys: "ys = xs @ [c]" by (simp add: f)
        from owner_okD(1) [OF uniq r] True have "userQueues m (co_user co) = Some q" by simp
        from owner_okD(5) [OF uniq this Some] have cu: "co_user co = ctx_from c" .
        from o4 [OF r] True h have
          x: "sorted_wrt (<) (map ctx_seq xs)"
            "\<forall>x\<in>set xs. ctx_from x = co_user co \<and> ctx_seq (co_task co) < ctx_seq x \<and> ctx_seq x < ctx_seq c"
          by simp_all
        from x o3 [OF r] cu show ?thesis
          by (auto simp add: ys f sorted_wrt_append)
      next
        case False
        with a(2) have "heap m (co_queue co) = Some ys" by (simp add: f)
        from o4 [OF r this] show ?thesis by (auto simp add: f)
      qed
    qed
    then show ?thesis
      unfolding enqueue_busy [OF uniq Some h] m'_def .
  next
    case None
    define m3 where "m3 = (with_timer v c
          (m\<lparr>userQueues := (userQueues m)(ctx_from c \<mapsto> next_array m),
             next_array := Suc (next_array m),
             heap := (heap m)(next_array m \<mapsto> [c])\<rparr>))\<lparr>next_pid := Suc (next_pid m)\<rparr>"
    have f: "running m3 = running m" "heap m3 = (heap m)(next_array m \<mapsto> [c])"
      "arrivals m3 = Suc (ctx_seq c)" "served w (trace m3) = served w (trace m)" for w
      by (simp_all add: m3_def with_timer_def new served_append)
    have "order_pre (next_pid m) u (next_array m) m3"
    proof (rule order_preI)
      fix w show "sorted (served w (trace m3))" using o1 [of w] by (simp add: f)
    next
      fix w n assume "n \<in> set (served w (trace m3))"
      then show "n < arrivals m3" using o2 [of n w] by (simp add: f)
    next
      fix p co
      assume a: "running m3 p = Some co" "p \<noteq> next_pid m"
      then have r: "running m p = Some co" by (simp add: f)
      have "co_user co \<noteq> u" using owner_idle(2) [OF uniq None r] by (simp add: u_def)
      moreover have "co_queue co \<noteq> next_array m"
        using owner_okD(1) [OF uniq r] owner_okD(4) [OF uniq, of "co_user co" "co_queue co"] by auto
      ultimately show "co_user co \<noteq> u \<and> co_queue co \<noteq> next_array m
          \<and> ctx_from (co_task co) = co_user co \<and> ctx_seq (co_task co) < arrivals m3
          \<and> (\<forall>n\<in>set (served (co_user co) (trace m3)). n \<le> ctx_seq (co_task co))"
        using o3 [OF r] by (simp add: f)
    next
      fix p co xs
      assume a: "running m3 p = Some co" "p \<noteq> next_pid m" "heap m3 (co_queue co) = Some xs"
      then have r: "running m p = Some co" by (simp add: f)
      have "co_queue co \<noteq> next_array m"
        using owner_okD(1) [OF uniq r] owner_okD(4) [OF uniq, of "co_user co" "co_queue co"] by auto
      with a(3) have "heap m (co_queue co) = Some xs" by (simp add: f)
      from o4 [OF r this]
      show "sorted_wrt (<) (map ctx_seq xs)
          \<and> (\<forall>x\<in>set xs. ctx_from x = co_user co \<and> ctx_seq (co_task co) < ctx_seq x
                \<and> ctx_seq x < arrivals m3)"
        by (auto simp add: f)
    next
      fix xs
      assume "heap m3 (next_array m) = Some xs"
      then have "xs = [c]" by (simp add: f)
      then show "sorted_wrt (<) (map ctx_seq xs)
          \<and> (\<forall>x\<in>set xs. ctx_from x = u \<and> ctx_seq x < arrivals m3
                \<and> (\<forall>n\<in>set (served u (trace m3)). n < ctx_seq x))"
        using o2 [of _ u] by (simp add: f u_def)
    qed
    then have "order_ok (loop (next_pid m) u (next_array m)
         (if heartbeat v then Some (next_timer m) else None) m3)"
      by (rule loop_order)
    then show ?thesis
      unfolding enqueue_idle [OF uniq None] m3_def u_def .
  qed
qed

lemma welcomeFlow_order:
  assumes ok: "order_ok m" and uniq: "owner_ok m"
  shows "order_ok (welcomeFlow v u body clk m)"
proof -
  define c where "c = \<lparr>ctx_from = u, ctx_body = body, ctx_seq = arrivals m\<rparr>"
  obtain vd a where ad: "admission v clk u (adm m) = (vd, a)"
    by (cases "admission v clk u (adm m)")
  define m0 where "m0 = m\<lparr>arrivals := Suc (arrivals m), adm := a\<rparr>"
  have base: "order_ok (m0\<lparr>trace := trace m0 @ tr\<rparr>)" if "\<And>w. served w tr = []" for tr
  proof (rule order_okI)
    fix w show "sorted (served w (trace (m0\<lparr>trace := trace m0 @ tr\<rparr>)))"
      using order_okD(1) [OF ok, of w] that by (simp add: m0_def served_append)
  next
    fix w n assume "n \<in> set (served w (trace (m0\<lparr>trace := trace m0 @ tr\<rparr>)))"
    then show "n < arrivals (m0\<lparr>trace := trace m0 @ tr\<rparr>)"
      using order_okD(2) [OF ok, of n w] that by (simp add: m0_def served_append less_Suc_eq)
  next
    fix p co assume "running (m0\<lparr>trace := trace m0 @ tr\<rparr>) p = Some co"
    then have "running m p = Some co" by (simp add: m0_def)
    from order_okD(3) [OF ok this]
    show "ctx_from (co_task co) = co_user co \<and> ctx_seq (co_task co) < arrivals (m0\<lparr>trace := trace m0 @ tr\<rparr>)
        \<and> (\<forall>n\<in>set (served (co_user co) (trace (m0\<lparr>trace := trace m0 @ tr\<rparr>))). n \<le> ctx_seq (co_task co))"
      using that by (simp add: m0_def served_append less_Suc_eq)
  next
    fix p co xs
    assume "running (m0\<lparr>trace := trace m0 @ tr\<rparr>) p = Some co"
      "heap (m0\<lparr>trace := trace m0 @ tr\<rparr>) (co_queue co) = Some xs"
    then have "running m p = Some co" "heap m (co_queue co) = Some xs" by (simp_all add: m0_def)
    from order_okD(4) [OF ok this]
    show "sorted_wrt (<) (map ctx_seq xs)
        \<and> (\<forall>x\<in>set xs. ctx_from x = co_user co \<and> ctx_seq (co_task co) < ctx_seq x
              \<and> ctx_seq x < arrivals (m0\<lparr>trace := trace m0 @ tr\<rparr>))"
      by (auto simp add: m0_def less_Suc_eq)
  qed
  have uniq0: "owner_ok m0"
    unfolding m0_def by (rule owner_ok_frame [OF uniq]) simp_all
  have old: "order_ok (m0\<lparr>arrivals := ctx_seq c\<rparr>)"
  proof -
    have "m0\<lparr>arrivals := ctx_seq c\<rparr> = m\<lparr>adm := a\<rparr>" by (simp add: m0_def c_def)
    moreover have "order_ok (m\<lparr>adm := a\<rparr>) = order_ok m" by (simp add: order_ok_def)
    ultimately show ?thesis using ok by simp
  qed
  have enq: "order_ok (enqueue v c m0)"
    by (rule enqueue_order [OF old uniq0]) (simp add: m0_def c_def)
  show ?thesis
  proof (cases vd)
    case Ignored
    with ad base [of "[]"] show ?thesis by (simp add: welcomeFlow_def Let_def m0_def)
  next
    case Banned
    with ad base [of "[Refused c]"] show ?thesis by (simp add: welcomeFlow_def Let_def m0_def c_def)
  next
    case Admitted
    with ad enq show ?thesis by (simp add: welcomeFlow_def Let_def m0_def c_def)
  qed
qed

lemma order_ok_heartbeat: "order_ok (m\<lparr>trace := trace m @ [Heartbeat c]\<rparr>) = order_ok m"
  by (simp add: order_ok_def served_append)

lemma order_ok_beats [simp]: "order_ok (m\<lparr>beats := b\<rparr>) = order_ok m"
  by (simp add: order_ok_def)

lemma order_ok_halted [simp]: "order_ok (m\<lparr>halted := h\<rparr>) = order_ok m"
  by (simp add: order_ok_def)

lemma tick_order: "order_ok m \<Longrightarrow> order_ok (tick t m)"
  by (cases "timers m t") (simp_all add: tick_def order_ok_heartbeat)

lemma beat_order: "order_ok m \<Longrightarrow> order_ok (beat outcome m)"
  by (cases outcome) (simp_all add: beat_def)

lemma react_order: "order_ok m \<Longrightarrow> owner_ok m \<Longrightarrow> order_ok (react v ev m)"
  by (cases ev) (simp_all add: welcomeFlow_order settle_order tick_order beat_order)

lemma step_order: "order_ok m \<Longrightarrow> owner_ok m \<Longrightarrow> order_ok (step v ev m)"
  by (simp add: step_def react_order)

lemma reachable_order: "reachable v m \<Longrightarrow> order_ok m"
proof (induction rule: reachable.induct)
  case reachable_initial
  show ?case by (simp add: order_ok_def initial_def)
next
  case (reachable_step m ev)
  then show ?case by (simp add: step_order reachable_owner)
qed

section \<open>app.ts: responses in arrival order\<close>










section \<open>part\_000, part\_003: one interval per drain\<close>













lemma timers_ok_beats [simp]: "timers_ok (m\<lparr>beats := b\<rparr>) = timers_ok m"
  by (simp add: timers_ok_def)

lemma timers_ok_halted [simp]: "timers_ok (m\<lparr>halted := h\<rparr>) = timers_ok m"
  by (simp add: timers_ok_def)






subsection \<open>No typing call for an idle user\<close>










lemma exec_Cons: "exec v (ev # evs) m = exec v evs (step v ev m)"
  by (simp add: exec_def)


subsection \<open>How a session begins, goes on and ends\<close>


lemma task_done_next:
  assumes q: "heap m (co_queue co) = Some (c # rest)"
  shows "running (task_done pid co threw m)
       = (running m)(pid \<mapsto> \<lparr>co_user = co_user co, co_queue = co_queue co,
            co_timer = co_timer co, co_task = c, co_pc = AwaitTyping\<rparr>)"
    and "timers (task_done pid co threw m) = timers m"
    and "userQueues (task_done pid co threw m) = userQueues m"
    and "trace (task_done pid co threw m)
       = trace m @ (if threw then [Logged (co_task co)] else []) @ [Typing c]"
    and "heap (task_done pid co threw m) = (heap m)(co_queue co \<mapsto> rest)"
  using q by (simp_all add: task_done_def loop_def)









subsection \<open>The process ends only through the interval\<close>

lemma loop_halted [simp]: "halted (loop pid u q t m) = halted m"
  by (simp add: loop_def split: option.splits list.splits)

lemma task_done_halted [simp]: "halted (task_done pid co threw m) = halted m"
  by (simp add: task_done_def)

lemma settle_halted [simp]: "halted (settle v p outcome m) = halted m"
  by (simp add: settle_def split: option.splits pc.splits settlement.splits list.splits)

lemma handleQueue_halted [simp]: "halted (handleQueue v u c m) = halted m"
  by (simp add: handleQueue_def Let_def split: option.splits)

lemma enqueue_halted [simp]: "halted (enqueue v c m) = halted m"
  by (simp add: enqueue_def Let_def split: option.splits)

lemma welcomeFlow_halted [simp]: "halted (welcomeFlow v u body clk m) = halted m"
  by (simp add: welcomeFlow_def Let_def split: prod.splits verdict.splits)

subsection \<open>Three runs of part\_003\<close>








section \<open>One completion call per user\<close>

text \<open>
  In app.ts, part\_000 and part\_003 the lock and the queue are found by user id, and no
  two suspended \<^verbatim>\<open>handleQueue\<close>s belong to one user; so at most one \<^verbatim>\<open>toAsk\<close> call
  per user is pending.
\<close>

lemma one_completion_in_flight:
  assumes "reachable v m" "p \<in> in_flight u m" "p' \<in> in_flight u m"
  shows "p = p'"
proof -
  from assms(2,3) obtain co co' where
    "running m p = Some co" "co_user co = u" "running m p' = Some co'" "co_user co' = u"
    by (auto simp add: in_flight_def)
  with owner_okD(2) [OF reachable_owner [OF assms(1)], of p co p' co'] show ?thesis by simp
qed

subsection \<open>part\_001: evaluating the store and the machine\<close>

lemma SimpleLRUCache_set_present:
  "map_of (cache c) key \<noteq> None \<Longrightarrow>
   SimpleLRUCache_set key val c = c\<lparr>cache := filter (\<lambda>kv. fst kv \<noteq> key) (cache c) @ [(key, val)]\<rparr>"
  by (simp add: SimpleLRUCache_set_def map_has_def map_set_def map_of_map_delete)
    (simp add: map_delete_def)

lemma SimpleLRUCache_set_absent:
  "map_of (cache c) key = None \<Longrightarrow> int (length (cache c)) < capacity c \<Longrightarrow>
   SimpleLRUCache_set key val c = c\<lparr>cache := cache c @ [(key, val)]\<rparr>"
  by (simp add: SimpleLRUCache_set_def map_has_def map_set_def)

lemma SimpleLRUCache_get_present:
  "map_of (cache c) key = Some val \<Longrightarrow>
   SimpleLRUCache_get key c =
     (Some val, c\<lparr>cache := filter (\<lambda>kv. fst kv \<noteq> key) (cache c) @ [(key, val)]\<rparr>)"
  by (simp add: SimpleLRUCache_get_def map_get_def map_has_def map_set_def map_of_map_delete)
    (simp add: map_delete_def)

lemma SimpleLRUCache_get_absent:
  "map_of (cache c) key = None \<Longrightarrow> SimpleLRUCache_get key c = (None, c)"
  by (simp add: SimpleLRUCache_get_def map_get_def)

lemmas store_eval = SimpleLRUCache_set_present SimpleLRUCache_set_absent
  SimpleLRUCache_get_present SimpleLRUCache_get_absent SimpleLRUCache_has_def map_has_def
  SimpleLRUCache_new_def userMessageInfo_capacity_def
  lookup_info_def new_info_def store_info_def p1_init_def set_processing_def
  rateLimitUser_p1_def MAX_MESSAGES_def RESET_PERIOD_def NOTIFICATION_THRESHOLD_def Let_def

lemmas machine_p1_defs = exec_p1_def initial_p1_def welcomeFlow_p1_def enqueue_p1_def
  handleQueue_p1_def loop_p1_def settle_p1_def task_done_p1_def tick_p1_def

lemma chunks_p1_single: "chunks_p1 [97] = [[97]]"
  by (simp add: chunks_p1_def clean_p1_def trim_def is_space_def is_line_terminator_def
      LF_def SPACE_def STAR_def DASH_def LLENT_def RLENT_def)

text \<open>
  The first message of \<open>window_run\<close> is answered and its \<^verbatim>\<open>handleQueue\<close> has returned
  before the second message arrives; nothing of the first drain is left.
\<close>

lemma window_run_first_drain:
  "running_p1 (exec_p1 (take 4 window_run) initial_p1) = Map.empty"
  "trace_p1 (exec_p1 (take 4 window_run) initial_p1) =
     [IntervalSet 0,
      Typing \<lparr>ctx_from = ''5215550001'', ctx_body = [104], ctx_seq = 0\<rparr>,
      Asked \<lparr>ctx_from = ''5215550001'', ctx_body = [104], ctx_seq = 0\<rparr>,
      Sent \<lparr>ctx_from = ''5215550001'', ctx_body = [104], ctx_seq = 0\<rparr> [97],
      IntervalCleared 0]"
  by (simp_all add: window_run_def machine_p1_defs store_eval chunks_p1_single)

text \<open>
  Claim C2. The claim holds in app.ts (\<open>one_completion_in_flight\<close>) and fails in
  part\_001. There the flag \<^verbatim>\<open>processing\<close> and the queue live in the object that
  \<^verbatim>\<open>rateLimitUser\<close> replaces when the 24 hours of the window are over. In
  \<open>window_run\<close> the second message of the user is with \<^verbatim>\<open>toAsk\<close> when the third one
  arrives after the window: the third finds a fresh object with \<^verbatim>\<open>processing\<close> false,
  starts a second \<^verbatim>\<open>handleQueue\<close>, and at the end of the run processes 1 and 2 both
  wait for \<^verbatim>\<open>toAsk\<close> on behalf of the same user.
\<close>

theorem part_001_two_completions_in_flight:
  "asking_p1 ''5215550001'' (exec_p1 window_run initial_p1) =
     [(1, \<lparr>ctx_from = ''5215550001'', ctx_body = [105], ctx_seq = 1\<rparr>),
      (2, \<lparr>ctx_from = ''5215550001'', ctx_body = [106], ctx_seq = 2\<rparr>)]"
  by (simp add: window_run_def machine_p1_defs store_eval chunks_p1_single asking_p1_def)

section \<open>The array of a user is first in, first out\<close>

subsection \<open>What a step does to the array and to the tasks taken up\<close>

lemma settle_unfold:
  assumes "running m p = Some co"
  shows "settle v p outcome m =
     (if task_ends v co outcome
      then task_done p co (outcome = Rejected) (m\<lparr>trace := trace m @ task_effects co outcome\<rparr>)
      else m\<lparr>running := (running m)(p \<mapsto> co\<lparr>co_pc := next_pc v co outcome\<rparr>),
             trace := trace m @ task_effects co outcome\<rparr>)"
  using assms
  by (cases outcome; cases "co_pc co")
    (auto simp add: settle_def task_ends_def task_effects_def next_pc_def split: list.splits)

lemma welcomeFlow_begins:
  assumes own: "owner_ok m"
    and i: "idle u m" and a: "fst (admission v clk u (adm m)) = Admitted"
  shows "running (welcomeFlow v u body clk m) =
          (running m)(next_pid m \<mapsto>
            \<lparr>co_user = u, co_queue = next_array m,
             co_timer = (if heartbeat v then Some (next_timer m) else None),
             co_task = \<lparr>ctx_from = u, ctx_body = body, ctx_seq = arrivals m\<rparr>,
             co_pc = AwaitTyping\<rparr>)"
    and "trace (welcomeFlow v u body clk m) =
          trace m @ (if heartbeat v then [IntervalSet (next_timer m)] else [])
            @ [Typing \<lparr>ctx_from = u, ctx_body = body, ctx_seq = arrivals m\<rparr>]"
    and "userQueues (welcomeFlow v u body clk m) = (userQueues m)(u \<mapsto> next_array m)"
    and "heap (welcomeFlow v u body clk m) = (heap m)(next_array m \<mapsto> [])"
proof -
  define c where "c = \<lparr>ctx_from = u, ctx_body = body, ctx_seq = arrivals m\<rparr>"
  obtain a' where ad: "admission v clk u (adm m) = (Admitted, a')"
    using a by (cases "admission v clk u (adm m)") simp
  define m0 where "m0 = m\<lparr>arrivals := Suc (arrivals m), adm := a'\<rparr>"
  have w: "welcomeFlow v u body clk m = enqueue v c m0"
    using ad by (simp add: welcomeFlow_def Let_def c_def m0_def)
  have own0: "owner_ok m0" unfolding m0_def by (rule owner_ok_frame [OF own]) simp_all
  from owner_okD(3) [OF own, of u] i have "userQueues m u = None" by (simp add: idle_def)
  then have q0: "userQueues m0 (ctx_from c) = None" by (simp add: m0_def c_def)
  note e = enqueue_idle [OF own0 q0, of v]
  show "running (welcomeFlow v u body clk m) =
          (running m)(next_pid m \<mapsto>
            \<lparr>co_user = u, co_queue = next_array m,
             co_timer = (if heartbeat v then Some (next_timer m) else None),
             co_task = \<lparr>ctx_from = u, ctx_body = body, ctx_seq = arrivals m\<rparr>,
             co_pc = AwaitTyping\<rparr>)"
    unfolding w e by (simp add: loop_def with_timer_def m0_def c_def)
  show "trace (welcomeFlow v u body clk m) =
          trace m @ (if heartbeat v then [IntervalSet (next_timer m)] else [])
            @ [Typing \<lparr>ctx_from = u, ctx_body = body, ctx_seq = arrivals m\<rparr>]"
    unfolding w e by (simp add: loop_def with_timer_def m0_def c_def)
  show "userQueues (welcomeFlow v u body clk m) = (userQueues m)(u \<mapsto> next_array m)"
    unfolding w e by (simp add: loop_def with_timer_def m0_def c_def)
  show "heap (welcomeFlow v u body clk m) = (heap m)(next_array m \<mapsto> [])"
    unfolding w e by (simp add: loop_def with_timer_def m0_def c_def)
qed

lemma welcomeFlow_appends:
  assumes own: "owner_ok m"
    and i: "\<not> idle u m" and a: "fst (admission v clk u (adm m)) = Admitted"
  shows "running (welcomeFlow v u body clk m) = running m"
    and "trace (welcomeFlow v u body clk m) = trace m"
    and "userQueues (welcomeFlow v u body clk m) = userQueues m"
    and "\<exists>q. userQueues m u = Some q
          \<and> heap (welcomeFlow v u body clk m) =
             (heap m)(q \<mapsto> pending u m @ [\<lparr>ctx_from = u, ctx_body = body, ctx_seq = arrivals m\<rparr>])"
proof -
  define c where "c = \<lparr>ctx_from = u, ctx_body = body, ctx_seq = arrivals m\<rparr>"
  obtain a' where ad: "admission v clk u (adm m) = (Admitted, a')"
    using a by (cases "admission v clk u (adm m)") simp
  define m0 where "m0 = m\<lparr>arrivals := Suc (arrivals m), adm := a'\<rparr>"
  from i obtain p co where r: "running m p = Some co" "co_user co = u"
    by (auto simp add: idle_def)
  from owner_okD(1) [OF own r(1)] r(2) have q: "userQueues m u = Some (co_queue co)" by simp
  from owner_okD(4) [OF own q] obtain xs where h: "heap m (co_queue co) = Some xs" by auto
  have pe: "pending u m = xs" using q h by (simp add: pending_def)
  have own0: "owner_ok m0" unfolding m0_def by (rule owner_ok_frame [OF own]) simp_all
  have q0: "userQueues m0 (ctx_from c) = Some (co_queue co)" using q by (simp add: m0_def c_def)
  have h0: "heap m0 (co_queue co) = Some xs" using h by (simp add: m0_def)
  have w: "welcomeFlow v u body clk m = enqueue v c m0"
    using ad by (simp add: welcomeFlow_def Let_def c_def m0_def)
  note e = enqueue_busy [OF own0 q0 h0]
  show "running (welcomeFlow v u body clk m) = running m" unfolding w e by (simp add: m0_def)
  show "trace (welcomeFlow v u body clk m) = trace m" unfolding w e by (simp add: m0_def)
  show "userQueues (welcomeFlow v u body clk m) = userQueues m" unfolding w e by (simp add: m0_def)
  show "\<exists>q. userQueues m u = Some q
          \<and> heap (welcomeFlow v u body clk m) =
             (heap m)(q \<mapsto> pending u m @ [\<lparr>ctx_from = u, ctx_body = body, ctx_seq = arrivals m\<rparr>])"
    unfolding w e using q by (simp add: m0_def pe c_def)
qed

lemma welcomeFlow_refuses:
  assumes a: "fst (admission v clk u (adm m)) \<noteq> Admitted"
  shows "running (welcomeFlow v u body clk m) = running m"
    and "\<exists>es. trace (welcomeFlow v u body clk m) = trace m @ es
           \<and> (\<forall>e\<in>set es. \<exists>c. e = Refused c)"
    and "userQueues (welcomeFlow v u body clk m) = userQueues m"
    and "heap (welcomeFlow v u body clk m) = heap m"
proof -
  obtain vd a' where ad: "admission v clk u (adm m) = (vd, a')"
    by (cases "admission v clk u (adm m)")
  with a have vd: "vd = Ignored \<or> vd = Banned" by (cases vd) simp_all
  show "running (welcomeFlow v u body clk m) = running m"
    using vd ad by (auto simp add: welcomeFlow_def Let_def)
  show "\<exists>es. trace (welcomeFlow v u body clk m) = trace m @ es
           \<and> (\<forall>e\<in>set es. \<exists>c. e = Refused c)"
    using vd ad by (auto simp add: welcomeFlow_def Let_def)
  show "userQueues (welcomeFlow v u body clk m) = userQueues m"
    using vd ad by (auto simp add: welcomeFlow_def Let_def)
  show "heap (welcomeFlow v u body clk m) = heap m"
    using vd ad by (auto simp add: welcomeFlow_def Let_def)
qed


lemma task_done_ends:
  assumes q: "heap m (co_queue co) = Some []"
  shows "running (task_done pid co threw m) = (running m)(pid := None)"
    and "userQueues (task_done pid co threw m) = (userQueues m)(co_user co := None)"
    and "trace (task_done pid co threw m)
       = trace m @ (if threw then [Logged (co_task co)] else [])
           @ (case co_timer co of None \<Rightarrow> [] | Some t \<Rightarrow> [IntervalCleared t])"
    and "heap (task_done pid co threw m) = heap m"
  using q by (simp_all add: task_done_def loop_def)

lemma started_for_append: "started_for u (tr @ es) = started_for u tr @ started_for u es"
  by (simp add: started_for_def started_append)

lemma started_for_simps [simp]:
  "started_for u [] = []"
  "started_for u (Typing c # es) = (if ctx_from c = u then c # started_for u es else started_for u es)"
  "started_for u (Asked c # es) = started_for u es"
  "started_for u (Answered c r # es) = started_for u es"
  "started_for u (Sent c b # es) = started_for u es"
  "started_for u (SendFailed c b # es) = started_for u es"
  "started_for u (Logged c # es) = started_for u es"
  "started_for u (Refused c # es) = started_for u es"
  "started_for u (IntervalSet t # es) = started_for u es"
  "started_for u (Heartbeat c # es) = started_for u es"
  "started_for u (IntervalCleared t # es) = started_for u es"
  by (simp_all add: started_for_def)

lemma started_for_task_effects [simp]: "started_for u (task_effects co outcome) = []"
  by (simp add: task_effects_def split: pc.splits settlement.splits)

lemma started_for_refused: "\<forall>e\<in>set es. \<exists>c. e = Refused c \<Longrightarrow> started_for u es = []"
  by (induction es) auto

lemma pending_cong:
  assumes "userQueues m' u = userQueues m u"
    and "\<And>q. userQueues m u = Some q \<Longrightarrow> heap m' q = heap m q"
  shows "pending u m' = pending u m"
  using assms by (simp add: pending_def split: option.splits)

lemma admitted_Cons:
  "admitted v u (ev # evs) m = admitted v u [ev] m @ admitted v u evs (step v ev m)"
  by (cases ev) simp_all

lemma admitted_single:
  "admitted v u [Message u' body clk] m =
     (if \<not> halted m \<and> u' = u \<and> fst (admission v clk u' (adm m)) = Admitted
      then [\<lparr>ctx_from = u', ctx_body = body, ctx_seq = arrivals m\<rparr>] else [])"
  "admitted v u [Settle p outcome] m = []"
  "admitted v u [Tick t] m = []"
  "admitted v u [Beat outcome] m = []"
  by simp_all

lemma welcomeFlow_conserves:
  assumes own: "owner_ok m"
  shows "started_for u (trace (welcomeFlow v u' body clk m)) @ pending u (welcomeFlow v u' body clk m)
       = started_for u (trace m) @ pending u m
         @ (if u' = u \<and> fst (admission v clk u' (adm m)) = Admitted
            then [\<lparr>ctx_from = u', ctx_body = body, ctx_seq = arrivals m\<rparr>] else [])"
proof (cases "fst (admission v clk u' (adm m)) = Admitted")
  case False
  note f = welcomeFlow_refuses [OF False, of body]
  from f(2) obtain es where
    es: "trace (welcomeFlow v u' body clk m) = trace m @ es" "\<forall>e\<in>set es. \<exists>c. e = Refused c"
    by blast
  have "pending u (welcomeFlow v u' body clk m) = pending u m"
    by (rule pending_cong) (simp_all add: f)
  with es False show ?thesis by (simp add: started_for_append started_for_refused)
next
  case True
  show ?thesis
  proof (cases "idle u' m")
    case i: True
    note f = welcomeFlow_begins [OF own i True, of body]
    from owner_okD(3) [OF own, of u'] i have n: "userQueues m u' = None" by (simp add: idle_def)
    show ?thesis
    proof (cases "u' = u")
      case e: True
      have "pending u' (welcomeFlow v u' body clk m) = []" by (simp add: pending_def f)
      moreover have "pending u' m = []" using n by (simp add: pending_def)
      ultimately show ?thesis unfolding e [symmetric] using True
        by (simp add: f started_for_append)
    next
      case e: False
      have "pending u (welcomeFlow v u' body clk m) = pending u m"
      proof (rule pending_cong)
        show "userQueues (welcomeFlow v u' body clk m) u = userQueues m u" using e by (simp add: f)
        fix q
        assume "userQueues m u = Some q"
        from owner_okD(4) [OF own this] have "q \<noteq> next_array m" by auto
        then show "heap (welcomeFlow v u' body clk m) q = heap m q" by (simp add: f)
      qed
      with e show ?thesis by (simp add: f started_for_append)
    qed
  next
    case i: False
    note f = welcomeFlow_appends [OF own i True, of body]
    from f(4) obtain q where q: "userQueues m u' = Some q"
      "heap (welcomeFlow v u' body clk m) =
         (heap m)(q \<mapsto> pending u' m @ [\<lparr>ctx_from = u', ctx_body = body, ctx_seq = arrivals m\<rparr>])"
      by blast
    show ?thesis
    proof (cases "u' = u")
      case e: True
      have "pending u' (welcomeFlow v u' body clk m)
          = pending u' m @ [\<lparr>ctx_from = u', ctx_body = body, ctx_seq = arrivals m\<rparr>]"
        using q(1) by (simp add: pending_def [of u' "welcomeFlow v u' body clk m"] f(3) q(2))
      then show ?thesis unfolding e [symmetric] using True by (simp add: f)
    next
      case e: False
      have "pending u (welcomeFlow v u' body clk m) = pending u m"
      proof (rule pending_cong)
        show "userQueues (welcomeFlow v u' body clk m) u = userQueues m u" by (simp add: f)
        fix q'
        assume "userQueues m u = Some q'"
        from owner_okD(5) [OF own this, of u'] q(1) e have "q' \<noteq> q" by auto
        then show "heap (welcomeFlow v u' body clk m) q' = heap m q'" by (simp add: q(2))
      qed
      with e show ?thesis by (simp add: f)
    qed
  qed
qed

lemma settle_conserves:
  assumes own: "owner_ok m" and ord: "order_ok m"
  shows "started_for u (trace (settle v p outcome m)) @ pending u (settle v p outcome m)
       = started_for u (trace m) @ pending u m"
proof (cases "running m p")
  case None
  then show ?thesis by (simp add: settle_def)
next
  case (Some co)
  note su = settle_unfold [OF Some, of v outcome]
  from owner_okD(1) [OF own Some] have uq: "userQueues m (co_user co) = Some (co_queue co)" by simp
  from owner_okD(4) [OF own uq] obtain xs where h: "heap m (co_queue co) = Some xs" by auto
  have pe: "pending (co_user co) m = xs" using uq h by (simp add: pending_def)
  show ?thesis
  proof (cases "task_ends v co outcome")
    case False
    have "pending u (settle v p outcome m) = pending u m"
      by (rule pending_cong) (simp_all add: su False)
    with False show ?thesis by (simp add: su started_for_append)
  next
    case True
    define m1 where "m1 = m\<lparr>trace := trace m @ task_effects co outcome\<rparr>"
    have s: "settle v p outcome m = task_done p co (outcome = Rejected) m1"
      using True by (simp add: su m1_def)
    have f1: "userQueues m1 = userQueues m" "heap m1 = heap m"
      "\<And>w. started_for w (trace m1) = started_for w (trace m)"
      by (simp_all add: m1_def started_for_append)
    show ?thesis
    proof (cases xs)
      case Nil
      with h have h1: "heap m1 (co_queue co) = Some []" by (simp add: f1)
      note l = task_done_ends [OF h1, of p "outcome = Rejected"]
      have st: "started_for u (trace (settle v p outcome m)) = started_for u (trace m)"
        unfolding s l by (simp add: started_for_append f1 split: option.splits)
      show ?thesis
      proof (cases "u = co_user co")
        case e: True
        have "pending u (settle v p outcome m) = []" unfolding s e by (simp add: pending_def l)
        moreover have "pending u m = []" using pe Nil e by simp
        ultimately show ?thesis using st by simp
      next
        case e: False
        have "pending u (settle v p outcome m) = pending u m" unfolding s
          by (rule pending_cong) (use e in \<open>simp_all add: l f1\<close>)
        with st show ?thesis by simp
      qed
    next
      case (Cons c rest)
      with h have h1: "heap m1 (co_queue co) = Some (c # rest)" by (simp add: f1)
      note l = task_done_next [OF h1, of p "outcome = Rejected"]
      from order_okD(4) [OF ord Some h] Cons have cu: "ctx_from c = co_user co" by simp
      show ?thesis
      proof (cases "u = co_user co")
        case e: True
        have "pending u (settle v p outcome m) = rest" unfolding s e using uq
          by (simp add: pending_def l f1)
        moreover have "pending u m = c # rest" using pe Cons e by simp
        moreover have "started_for u (trace (settle v p outcome m)) = started_for u (trace m) @ [c]"
          unfolding s l using cu e by (simp add: started_for_append f1)
        ultimately show ?thesis by simp
      next
        case e: False
        have "pending u (settle v p outcome m) = pending u m" unfolding s
        proof (rule pending_cong)
          show "userQueues (task_done p co (outcome = Rejected) m1) u = userQueues m u"
            by (simp add: l f1)
          fix q'
          assume "userQueues m u = Some q'"
          from owner_okD(5) [OF own this, of "co_user co"] uq e have "q' \<noteq> co_queue co" by auto
          then show "heap (task_done p co (outcome = Rejected) m1) q' = heap m q'"
            by (simp add: l f1)
        qed
        moreover have "started_for u (trace (settle v p outcome m)) = started_for u (trace m)"
          unfolding s l using cu e by (simp add: started_for_append f1)
        ultimately show ?thesis by simp
      qed
    qed
  qed
qed

lemma step_conserves:
  assumes own: "owner_ok m" and ord: "order_ok m"
  shows "started_for u (trace (step v ev m)) @ pending u (step v ev m)
       = started_for u (trace m) @ pending u m @ admitted v u [ev] m"
proof (cases "halted m")
  case True
  then show ?thesis by (cases ev) (simp_all add: step_def)
next
  case False
  show ?thesis
  proof (cases ev)
    case (Message u' body clk)
    with False welcomeFlow_conserves [OF own, of u v u' body clk] show ?thesis
      by (simp add: step_def)
  next
    case (Settle p outcome)
    with False settle_conserves [OF own ord, of u v p outcome] show ?thesis
      by (simp add: step_def)
  next
    case (Tick t)
    have "pending u (tick t m) = pending u m"
      by (rule pending_cong) (simp_all add: tick_def split: option.splits)
    with Tick False show ?thesis
      by (simp add: step_def tick_def started_for_append split: option.splits)
  next
    case (Beat outcome)
    have "pending u (beat outcome m) = pending u m"
      by (rule pending_cong) (simp_all add: beat_def split: settlement.splits)
    with Beat False show ?thesis
      by (simp add: step_def beat_def split: settlement.splits)
  qed
qed

lemma exec_conserves:
  "reachable v m \<Longrightarrow>
     started_for u (trace (exec v evs m)) @ pending u (exec v evs m)
       = started_for u (trace m) @ pending u m @ admitted v u evs m"
proof (induction evs arbitrary: m)
  case Nil
  show ?case by (simp add: exec_def)
next
  case (Cons ev evs)
  have r: "reachable v (step v ev m)" using Cons.prems by (rule reachable_step)
  from Cons.IH [OF r]
    step_conserves [OF reachable_owner [OF Cons.prems] reachable_order [OF Cons.prems], of u v ev]
  show ?case by (simp add: exec_Cons admitted_Cons [of v u ev evs m])
qed

end
